(* ===== verification/Prelude.thy ===== *)
theory Prelude
  imports Main "HOL-Library.Word" "HOL-Library.AList" "HOL-Library.Multiset" "HOL-Library.Sublist"
begin

text \<open>
  Types and lemmas that every component uses.

  A Rust \<open>String\<close> is its UTF-8 byte sequence, a HOL \<^typ>\<open>string\<close> (one \<^typ>\<open>char\<close> per byte).
  A \<open>DateTime<Utc>\<close> is the number of nanoseconds since the Unix epoch and a \<open>chrono::Duration\<close>
  a number of nanoseconds, both \<^typ>\<open>int\<close>. The integer types \<open>i32\<close>, \<open>u32\<close>, \<open>u64\<close> are
  words of that width; \<open>usize\<close> counters that only count up from 0 are \<^typ>\<open>nat\<close>.
  A \<open>HashMap\<close> is an association list with pairwise distinct keys: its order is the iteration
  order of the table, which Rust leaves open, so properties hold for every order.
\<close>

type_synonym instant = int
type_synonym duration = int
type_synonym i32 = "32 word"
type_synonym u32 = "32 word"
type_synonym u64 = "64 word"
type_synonym ('k, 'v) hashmap = "('k \<times> 'v) list"

definition nanos :: "int \<Rightarrow> duration" where
  "nanos s = s * 1000000000"


section \<open>HashMap\<close>

definition hm_get :: "('k, 'v) hashmap \<Rightarrow> 'k \<Rightarrow> 'v option" where
  "hm_get m k = map_of m k"

definition hm_contains :: "('k, 'v) hashmap \<Rightarrow> 'k \<Rightarrow> bool" where
  "hm_contains m k = (k \<in> set (map fst m))"

definition hm_insert :: "'k \<Rightarrow> 'v \<Rightarrow> ('k, 'v) hashmap \<Rightarrow> ('k, 'v) hashmap" where
  "hm_insert k v m = AList.update k v m"

definition hm_remove :: "'k \<Rightarrow> ('k, 'v) hashmap \<Rightarrow> ('k, 'v) hashmap" where
  "hm_remove k m = AList.delete k m"

definition hm_keys :: "('k, 'v) hashmap \<Rightarrow> 'k list" where
  "hm_keys m = map fst m"

definition hm_values :: "('k, 'v) hashmap \<Rightarrow> 'v list" where
  "hm_values m = map snd m"

definition hm_ok :: "('k, 'v) hashmap \<Rightarrow> bool" where
  "hm_ok m = distinct (map fst m)"

lemma hm_get_empty [simp]: "hm_get [] k = None"
  by (simp add: hm_get_def)

lemma hm_get_insert [simp]: "hm_get (hm_insert k v m) j = (if j = k then Some v else hm_get m j)"
  by (simp add: hm_get_def hm_insert_def update_conv')

lemma hm_get_remove [simp]: "hm_get (hm_remove k m) j = (if j = k then None else hm_get m j)"
  by (simp add: hm_get_def hm_remove_def delete_conv')

lemma hm_get_insert_fun: "hm_get (hm_insert k v m) = (hm_get m)(k \<mapsto> v)"
  by (rule ext) simp

lemma hm_get_remove_fun: "hm_get (hm_remove k m) = (hm_get m)(k := None)"
  by (rule ext) simp

lemma hm_contains_get: "hm_contains m k \<longleftrightarrow> hm_get m k \<noteq> None"
  by (simp add: hm_contains_def hm_get_def map_of_eq_None_iff)

lemma hm_contains_insert [simp]: "hm_contains (hm_insert k v m) j \<longleftrightarrow> j = k \<or> hm_contains m j"
  by (simp add: hm_contains_get)

lemma hm_contains_remove [simp]: "hm_contains (hm_remove k m) j \<longleftrightarrow> j \<noteq> k \<and> hm_contains m j"
  by (simp add: hm_contains_get)

lemma hm_contains_empty [simp]: "\<not> hm_contains [] k"
  by (simp add: hm_contains_def)

lemma hm_ok_empty [simp, intro]: "hm_ok []"
  by (simp add: hm_ok_def)

lemma hm_ok_insert [simp, intro]: "hm_ok m \<Longrightarrow> hm_ok (hm_insert k v m)"
  by (simp add: hm_ok_def hm_insert_def distinct_update)

lemma hm_ok_remove [simp, intro]: "hm_ok m \<Longrightarrow> hm_ok (hm_remove k m)"
  by (simp add: hm_ok_def hm_remove_def distinct_delete)

lemma set_hm_keys: "set (hm_keys m) = dom (hm_get m)"
  by (auto simp: hm_keys_def dom_def hm_get_def map_of_eq_None_iff simp flip: not_None_eq)

lemma hm_values_get: "hm_ok m \<Longrightarrow> v \<in> set (hm_values m) \<longleftrightarrow> (\<exists>k. hm_get m k = Some v)"
  by (force simp: hm_values_def hm_get_def hm_ok_def)

lemma hm_keys_insert: "set (hm_keys (hm_insert k v m)) = insert k (set (hm_keys m))"
  by (simp add: hm_keys_def hm_insert_def dom_update)

lemma hm_keys_remove: "set (hm_keys (hm_remove k m)) = set (hm_keys m) - {k}"
  by (auto simp: set_hm_keys hm_get_remove_fun)

lemma hm_length_insert:
  "length (hm_insert k v m) = (if hm_contains m k then length m else Suc (length m))"
  unfolding hm_insert_def hm_contains_def by (induction m) auto

section \<open>Errors\<close>

text \<open>
  A \<open>Result<T, E>\<close> is a sum, the error on the left. A call that can panic returns an option, with
  \<^const>\<open>None\<close> for the panic.
\<close>

definition bind_result :: "'e + 'a \<Rightarrow> ('a \<Rightarrow> 'e + 'b) \<Rightarrow> 'e + 'b" where
  "bind_result r f = (case r of Inl e \<Rightarrow> Inl e | Inr a \<Rightarrow> f a)"

lemma bind_result_simps [simp]:
  "bind_result (Inl e) f = Inl e" "bind_result (Inr a) f = f a"
  by (simp_all add: bind_result_def)

definition is_ok :: "'e + 'a \<Rightarrow> bool" where
  "is_ok r = (case r of Inl _ \<Rightarrow> False | Inr _ \<Rightarrow> True)"

lemma is_ok_simps [simp]: "\<not> is_ok (Inl e)" "is_ok (Inr a)"
  by (simp_all add: is_ok_def)

section \<open>Lists\<close>

lemma foldl_invariant:
  assumes "P s" and "\<And>s x. x \<in> set xs \<Longrightarrow> P s \<Longrightarrow> P (f s x)"
  shows "P (foldl f s xs)"
  using assms by (induction xs arbitrary: s) auto

section \<open>What the operating system answers\<close>

text \<open>
  The calls that can fail. \<open>Write_Torn n\<close>: the write fails, or the process dies, after \<open>n\<close> bytes of
  the line.
\<close>

datatype io =
    Io_Ok
  | Dir_Fails
  | Open_Fails
  | Write_Torn nat
  | Sync_Fails
  | Rename_Fails

datatype io_error = Io_Error io

end
