(* ===== verification/F64.thy ===== *)
theory F64
  imports Prelude Complex_Main
begin

text \<open>
  The part of Rust's \<open>f64\<close> that the sources use: \<open>partial_cmp\<close>, \<open>*\<close>, \<open>/\<close>, \<open>>\<close>, the conversion
  of a \<open>usize\<close> and the saturating cast \<open>as i64\<close>. A finite number is \<open>m * 2 ^ e\<close>; arithmetic rounds
  the exact quotient of two naturals to the nearest double, ties to even. The sign of a zero is
  left out: no operation the sources apply can tell the zeros apart.
\<close>

datatype f64 = NaN | Infinity bool | Finite int int

datatype ordering = Less | Equal | Greater

text \<open>Rust derives \<open>Less < Equal < Greater\<close>.\<close>

fun ordering_rank :: "ordering \<Rightarrow> nat" where
  "ordering_rank Less = 0"
| "ordering_rank Equal = 1"
| "ordering_rank Greater = 2"

lemma ordering_rank_inj: "ordering_rank a = ordering_rank b \<Longrightarrow> a = b"
  by (cases a; cases b) simp_all

instantiation ordering :: linorder
begin

definition less_eq_ordering :: "ordering \<Rightarrow> ordering \<Rightarrow> bool" where
  "a \<le> b \<longleftrightarrow> ordering_rank a \<le> ordering_rank b"

definition less_ordering :: "ordering \<Rightarrow> ordering \<Rightarrow> bool" where
  "a < b \<longleftrightarrow> ordering_rank a < ordering_rank b"

instance
  by standard (auto simp: less_eq_ordering_def less_ordering_def dest: ordering_rank_inj)

end

section \<open>Comparison\<close>

definition int_cmp :: "int \<Rightarrow> int \<Rightarrow> ordering" where
  "int_cmp a b = (if a < b then Less else if a = b then Equal else Greater)"

definition fin_cmp :: "int \<Rightarrow> int \<Rightarrow> int \<Rightarrow> int \<Rightarrow> ordering" where
  "fin_cmp m1 e1 m2 e2 =
     (let e = min e1 e2 in int_cmp (m1 * 2 ^ nat (e1 - e)) (m2 * 2 ^ nat (e2 - e)))"

fun partial_cmp :: "f64 \<Rightarrow> f64 \<Rightarrow> ordering option" where
  "partial_cmp NaN y = None"
| "partial_cmp x NaN = None"
| "partial_cmp (Infinity s) (Infinity t) =
     Some (if s = t then Equal else if s then Less else Greater)"
| "partial_cmp (Infinity s) (Finite m e) = Some (if s then Less else Greater)"
| "partial_cmp (Finite m e) (Infinity t) = Some (if t then Greater else Less)"
| "partial_cmp (Finite m1 e1) (Finite m2 e2) = Some (fin_cmp m1 e1 m2 e2)"

definition f64_gt :: "f64 \<Rightarrow> f64 \<Rightarrow> bool" where
  "f64_gt x y = (partial_cmp x y = Some Greater)"

definition f64_zero :: f64 where
  "f64_zero = Finite 0 0"

text \<open>The value of a finite double, and the comparison read through it.\<close>

definition val :: "int \<Rightarrow> int \<Rightarrow> real" where
  "val m e = of_int m * 2 powi e"

lemma val_scaled: "e \<le> e1 \<Longrightarrow> val m e1 = of_int (m * 2 ^ nat (e1 - e)) * 2 powi e"
proof -
  assume "e \<le> e1"
  then have "(2::real) powi e1 = 2 powi (e1 - e) * 2 powi e"
    by (simp flip: power_int_add)
  moreover have "(2::real) powi (e1 - e) = of_int (2 ^ nat (e1 - e))"
    using \<open>e \<le> e1\<close> by (simp add: power_int_def)
  ultimately show ?thesis by (simp add: val_def)
qed

lemma fin_cmp_val:
  "fin_cmp m1 e1 m2 e2 =
     (if val m1 e1 < val m2 e2 then Less else if val m1 e1 = val m2 e2 then Equal else Greater)"
proof -
  let ?e = "min e1 e2"
  have "val m1 e1 = of_int (m1 * 2 ^ nat (e1 - ?e)) * 2 powi ?e"
    and "val m2 e2 = of_int (m2 * 2 ^ nat (e2 - ?e)) * 2 powi ?e"
    by (rule val_scaled, simp)+
  moreover have "(0::real) < 2 powi ?e" by simp
  ultimately show ?thesis
    unfolding fin_cmp_def Let_def int_cmp_def
    by (simp only: mult_less_cancel_right_pos mult_cancel_right of_int_less_iff of_int_eq_iff)
      simp
qed

section \<open>Arithmetic\<close>

fun bit_len :: "nat \<Rightarrow> nat" where
  "bit_len n = (if n = 0 then 0 else Suc (bit_len (n div 2)))"

declare bit_len.simps [simp del]

text \<open>The floor of the binary logarithm of \<open>n / d\<close>, for positive \<open>n\<close> and \<open>d\<close>.\<close>

definition ge_pow2 :: "nat \<Rightarrow> nat \<Rightarrow> int \<Rightarrow> bool" where
  "ge_pow2 n d c = (if 0 \<le> c then d * 2 ^ nat c \<le> n else d \<le> n * 2 ^ nat (- c))"

definition ilog2 :: "nat \<Rightarrow> nat \<Rightarrow> int" where
  "ilog2 n d =
     (let c = int (bit_len n) - int (bit_len d) in if ge_pow2 n d c then c else c - 1)"

definition round_half_even :: "nat \<Rightarrow> nat \<Rightarrow> nat" where
  "round_half_even n d =
     (let q = n div d; r = n mod d in
      if 2 * r < d then q else if d < 2 * r then q + 1 else if even q then q else q + 1)"

text \<open>The double nearest to \<open>n / d\<close>, with a sign; \<open>0 < d\<close>.\<close>

definition f64_of_frac :: "bool \<Rightarrow> nat \<Rightarrow> nat \<Rightarrow> f64" where
  "f64_of_frac neg n d =
     (if n = 0 then Finite 0 0
      else
        let e = max (-1074) (ilog2 n d - 52);
            m = (if 0 \<le> e then round_half_even n (d * 2 ^ nat e)
                 else round_half_even (n * 2 ^ nat (- e)) d)
        in if 971 < e \<or> (e = 971 \<and> m = 2 ^ 53) then Infinity neg
           else Finite (if neg then - int m else int m) e)"

definition f64_of_nat :: "nat \<Rightarrow> f64" where
  "f64_of_nat n = f64_of_frac False n 1"

definition f64_of_int :: "int \<Rightarrow> f64" where
  "f64_of_int i = f64_of_frac (i < 0) (nat \<bar>i\<bar>) 1"

fun f64_neg_sign :: "f64 \<Rightarrow> bool" where
  "f64_neg_sign NaN = False"
| "f64_neg_sign (Infinity s) = s"
| "f64_neg_sign (Finite m e) = (m < 0)"

fun f64_mul :: "f64 \<Rightarrow> f64 \<Rightarrow> f64" where
  "f64_mul NaN y = NaN"
| "f64_mul x NaN = NaN"
| "f64_mul (Infinity s) (Infinity t) = Infinity (s \<noteq> t)"
| "f64_mul (Infinity s) (Finite m e) = (if m = 0 then NaN else Infinity (s \<noteq> (m < 0)))"
| "f64_mul (Finite m e) (Infinity s) = (if m = 0 then NaN else Infinity (s \<noteq> (m < 0)))"
| "f64_mul (Finite m1 e1) (Finite m2 e2) =
     (let p = nat \<bar>m1 * m2\<bar>; e = e1 + e2; neg = ((m1 < 0) \<noteq> (m2 < 0)) in
      if 0 \<le> e then f64_of_frac neg (p * 2 ^ nat e) 1
      else f64_of_frac neg p (2 ^ nat (- e)))"

fun f64_div :: "f64 \<Rightarrow> f64 \<Rightarrow> f64" where
  "f64_div NaN y = NaN"
| "f64_div x NaN = NaN"
| "f64_div (Infinity s) (Infinity t) = NaN"
| "f64_div (Infinity s) (Finite m e) = Infinity (s \<noteq> (m < 0))"
| "f64_div (Finite m e) (Infinity s) = Finite 0 0"
| "f64_div (Finite m1 e1) (Finite m2 e2) =
     (if m2 = 0 then (if m1 = 0 then NaN else Infinity (m1 < 0))
      else
        let e = e1 - e2; neg = ((m1 < 0) \<noteq> (m2 < 0)) in
        if 0 \<le> e then f64_of_frac neg (nat \<bar>m1\<bar> * 2 ^ nat e) (nat \<bar>m2\<bar>)
        else f64_of_frac neg (nat \<bar>m1\<bar>) (nat \<bar>m2\<bar> * 2 ^ nat (- e)))"

text \<open>\<open>as i64\<close>: towards zero, saturating, and 0 for a NaN.\<close>

definition i64_min :: int where
  "i64_min = - (2 ^ 63)"

definition i64_max :: int where
  "i64_max = 2 ^ 63 - 1"

fun f64_as_i64 :: "f64 \<Rightarrow> int" where
  "f64_as_i64 NaN = 0"
| "f64_as_i64 (Infinity s) = (if s then i64_min else i64_max)"
| "f64_as_i64 (Finite m e) =
     (let a = (if 0 \<le> e then \<bar>m\<bar> * 2 ^ nat e else \<bar>m\<bar> div 2 ^ nat (- e))
      in max i64_min (min i64_max (if m < 0 then - a else a)))"

lemma f64_as_i64_range: "i64_min \<le> f64_as_i64 x \<and> f64_as_i64 x \<le> i64_max"
  by (cases x) (auto simp: i64_min_def i64_max_def Let_def max_def min_def)

section \<open>A total preorder without NaN\<close>

definition f64_le :: "f64 \<Rightarrow> f64 \<Rightarrow> bool" where
  "f64_le x y = (case partial_cmp x y of None \<Rightarrow> True | Some c \<Rightarrow> c \<noteq> Greater)"

lemma f64_le_total: "f64_le x y \<or> f64_le y x"
  by (cases x; cases y) (auto simp: f64_le_def fin_cmp_val)

lemma f64_le_trans:
  "f64_le x y \<Longrightarrow> f64_le y z \<Longrightarrow> y \<noteq> NaN \<Longrightarrow> f64_le x z"
  by (cases x; cases y; cases z) (auto simp: f64_le_def fin_cmp_val split: if_splits)

lemma f64_le_antisym_cmp:
  "x \<noteq> NaN \<Longrightarrow> y \<noteq> NaN \<Longrightarrow> f64_le x y \<longleftrightarrow> \<not> f64_gt x y"
  by (cases x; cases y) (auto simp: f64_le_def f64_gt_def)

lemma partial_cmp_refl: "x \<noteq> NaN \<Longrightarrow> partial_cmp x x = Some Equal"
  by (cases x) (auto simp: fin_cmp_val)

section \<open>Exactness and rounding\<close>

lemma bit_len_bounds: "n < 2 ^ bit_len n \<and> (0 < n \<longrightarrow> 2 ^ bit_len n \<le> 2 * n)"
proof (induction n rule: bit_len.induct)
  case (1 n)
  then show ?case
    by (cases "n = 0"; cases "n div 2 = 0") (auto simp: bit_len.simps [of n] bit_len.simps [of 0])
qed

lemma bit_len_one [simp]: "bit_len (Suc 0) = 1"
  by (simp add: bit_len.simps)

lemma bit_len_pos: "0 < n \<Longrightarrow> 0 < bit_len n"
  by (subst bit_len.simps) simp

lemma bit_len_le: "n < 2 ^ k \<Longrightarrow> bit_len n \<le> k"
proof (rule ccontr)
  assume n: "n < 2 ^ k" and "\<not> bit_len n \<le> k"
  then have "(2::nat) ^ Suc k \<le> 2 ^ bit_len n" by (intro power_increasing) auto
  moreover have "0 < n" using \<open>\<not> bit_len n \<le> k\<close> by (cases n) (auto simp: bit_len.simps)
  ultimately show False using n bit_len_bounds [of n] by simp
qed

lemma round_half_even_one [simp]: "round_half_even n (Suc 0) = n"
  by (simp add: round_half_even_def)

lemma ilog2_one: "0 < n \<Longrightarrow> ilog2 n (Suc 0) = int (bit_len n) - 1"
proof -
  assume "0 < n"
  moreover have "2 ^ (bit_len n - 1) \<le> n"
    using bit_len_bounds [of n] bit_len_pos [of n] \<open>0 < n\<close> by (cases "bit_len n") auto
  ultimately show ?thesis
    using bit_len_pos [of n] by (simp add: ilog2_def ge_pow2_def Let_def nat_diff_distrib')
qed

text \<open>A whole number below \<open>2 ^ 53\<close> is represented exactly.\<close>

lemma f64_of_frac_exact:
  assumes "0 < n" "n < 2 ^ 53"
  shows "f64_of_frac neg n (Suc 0) =
    Finite (if neg then - int (n * 2 ^ (53 - bit_len n)) else int (n * 2 ^ (53 - bit_len n)))
      (- int (53 - bit_len n))"
proof -
  have b: "bit_len n \<le> 53" using assms(2) by (rule bit_len_le)
  have e: "max (-1074) (ilog2 n (Suc 0) - 52) = - int (53 - bit_len n)"
    using b by (simp add: ilog2_one [OF assms(1)])
  have "0 \<le> - int (53 - bit_len n) \<longleftrightarrow> 53 - bit_len n = 0" by simp
  then show ?thesis
    unfolding f64_of_frac_def e Let_def using assms by (cases "53 - bit_len n = 0") simp_all
qed

lemma f64_as_i64_scaled: "n < 2 ^ 53 \<Longrightarrow> f64_as_i64 (Finite (int (n * 2 ^ k)) (- int k)) = int n"
proof -
  assume "n < 2 ^ 53"
  then have "max i64_min (min i64_max (int n)) = int n"
    by (simp add: i64_min_def i64_max_def)
  moreover have "\<not> int n * 2 ^ k < 0" by (simp add: not_less)
  ultimately show ?thesis by (cases "k = 0") (simp_all add: abs_mult)
qed

lemma f64_as_i64_exact:
  assumes "n < 2 ^ 53"
  shows "f64_as_i64 (f64_of_frac False n (Suc 0)) = int n"
proof (cases "n = 0")
  case False
  then have "f64_of_frac False n (Suc 0) = Finite (int (n * 2 ^ (53 - bit_len n))) (- int (53 - bit_len n))"
    using assms f64_of_frac_exact [of n False] by simp
  then show ?thesis by (simp only: f64_as_i64_scaled [OF assms])
qed (simp add: f64_of_frac_def i64_min_def i64_max_def)

lemma ge_pow2_real:
  assumes "0 < d"
  shows "ge_pow2 n d c \<longleftrightarrow> 2 powi c \<le> real n / real d"
proof (cases "0 \<le> c")
  case True
  have "real (d * 2 ^ nat c) \<le> real n \<longleftrightarrow> 2 powi c \<le> real n / real d"
    using True assms by (simp add: power_int_def pos_le_divide_eq mult.commute)
  with True show ?thesis unfolding ge_pow2_def of_nat_le_iff by simp
next
  case False
  then have p: "2 powi c = 1 / (2::real) ^ nat (- c)"
    by (simp add: power_int_def field_simps)
  have "2 powi c \<le> real n / real d \<longleftrightarrow> real d \<le> real (n * 2 ^ nat (- c))"
    unfolding p using assms by (simp add: field_simps)
  with False show ?thesis unfolding ge_pow2_def of_nat_le_iff by simp
qed

lemma bit_len_real: "0 < n \<Longrightarrow> real n < 2 powi int (bit_len n) \<and> 2 powi (int (bit_len n) - 1) \<le> real n"
proof -
  assume "0 < n"
  then have b: "n < 2 ^ bit_len n" "2 ^ bit_len n \<le> 2 * n" using bit_len_bounds [of n] by auto
  from b(1) have "real n < 2 ^ bit_len n" by (metis of_nat_less_iff of_nat_numeral of_nat_power)
  moreover have "2 ^ bit_len n \<le> 2 * real n"
    using b(2) by (metis of_nat_le_iff of_nat_mult of_nat_numeral of_nat_power)
  ultimately show ?thesis by (simp add: power_int_diff)
qed

lemma ilog2_real:
  assumes "0 < n" "0 < d"
  shows "2 powi ilog2 n d \<le> real n / real d" and "real n / real d < 2 powi (ilog2 n d + 1)"
proof -
  define bn bd where b: "bn = int (bit_len n)" "bd = int (bit_len d)"
  let ?q = "real n / real d"
  note n = bit_len_real [OF assms(1), folded b] and d = bit_len_real [OF assms(2), folded b]
  have "2 powi (bn - bd - 1) * real d \<le> 2 powi (bn - bd - 1) * 2 powi bd"
    using d by (intro mult_left_mono) auto
  also have "\<dots> = 2 powi (bn - 1)" by (simp flip: power_int_add)
  finally have lo: "2 powi (bn - bd - 1) \<le> ?q"
    using n assms(2) by (simp add: pos_le_divide_eq)
  have "2 powi bn = 2 powi (bn - bd + 1) * (2::real) powi (bd - 1)"
    by (simp flip: power_int_add)
  also have "\<dots> \<le> 2 powi (bn - bd + 1) * real d"
    using d by (intro mult_left_mono) auto
  finally have hi: "?q < 2 powi (bn - bd + 1)"
    using n assms(2) by (simp add: pos_divide_less_eq)
  show "2 powi ilog2 n d \<le> ?q" "?q < 2 powi (ilog2 n d + 1)"
    using lo hi assms by (auto simp: ilog2_def Let_def ge_pow2_real simp flip: b)
qed

lemma round_half_even_near:
  assumes "0 < d"
  shows "\<bar>real (round_half_even n d) - real n / real d\<bar> \<le> 1 / 2"
proof -
  have "real n = real d * real (n div d) + real (n mod d)"
    by (metis of_nat_add of_nat_mult mult_div_mod_eq)
  then have q: "real n / real d = real (n div d) + real (n mod d) / real d"
    using assms by (simp add: field_simps)
  have r: "real (n mod d) / real d < 1" using assms by simp
  have "2 * (n mod d) \<le> d \<Longrightarrow> real (n mod d) / real d \<le> 1 / 2"
    using assms by (simp add: field_simps)
  moreover have "d \<le> 2 * (n mod d) \<Longrightarrow> 1 / 2 \<le> real (n mod d) / real d"
    using assms by (simp add: field_simps)
  ultimately show ?thesis
    using r unfolding round_half_even_def Let_def q by (auto simp: abs_le_iff)
qed

lemma round_half_even_upper:
  assumes "0 < d" "real n / real d \<le> real k"
  shows "round_half_even n d \<le> k"
  using round_half_even_near [OF assms(1), of n] assms(2) by linarith

lemma round_half_even_lower:
  assumes "0 < d" "real k \<le> real n / real d"
  shows "k \<le> round_half_even n d"
  using round_half_even_near [OF assms(1), of n] assms(2) by linarith

text \<open>
  One half is a double, so rounding a quotient cannot move it across one half, and a quotient that
  is above one half by more than half a unit in the last place stays above it.
\<close>

definition f64_half :: f64 where
  "f64_half = Finite 1 (-1)"

lemma f64_gt_half: "f64_gt (Finite m e) f64_half \<longleftrightarrow> 1 / 2 < val m e"
  by (auto simp: f64_gt_def f64_half_def fin_cmp_val val_def power_int_minus)

lemma f64_of_frac_half:
  assumes n: "0 < n" and d: "0 < d"
    and gap: "1 / 2 < real n / real d \<Longrightarrow> 1 / 2 + 1 / 2 ^ 54 < real n / real d"
  shows "f64_gt (f64_of_frac False n d) f64_half \<longleftrightarrow> 1 / 2 < real n / real d"
proof -
  let ?q = "real n / real d"
  define L where "L = ilog2 n d"
  define e where "e = max (-1074) (L - 52)"
  define m where "m = (if 0 \<le> e then round_half_even n (d * 2 ^ nat e)
                       else round_half_even (n * 2 ^ nat (- e)) d)"
  have L: "2 powi L \<le> ?q" "?q < 2 powi (L + 1)"
    using ilog2_real [OF n d] by (simp_all add: L_def)
  have pw: "a \<le> b \<Longrightarrow> (2::real) powi a \<le> 2 powi b" for a b :: int
    by (rule power_int_increasing) auto
  have frac: "f64_of_frac False n d =
      (if 971 < e \<or> (e = 971 \<and> m = 2 ^ 53) then Infinity False else Finite (int m) e)"
  proof -
    have "(n = 0) = False" using n by simp
    then show ?thesis by (simp only: f64_of_frac_def m_def e_def L_def Let_def if_False)
  qed
  show ?thesis
  proof (cases "1 / 2 < ?q")
    case False
    have "L \<le> -1"
    proof (rule ccontr)
      assume "\<not> L \<le> -1"
      then have "(2::real) powi 0 \<le> 2 powi L" by (intro pw) simp
      then have "(1::real) \<le> 2 powi L" by simp
      with L(1) False show False by linarith
    qed
    then have e: "e \<le> -53" by (simp add: e_def)
    let ?N = "2 ^ nat (- e - 1) :: nat"
    have s: "nat (- e) = Suc (nat (- e - 1))" using e by simp
    have "real (n * 2 ^ nat (- e)) / real d = ?q * 2 ^ nat (- e)" by simp
    also have "\<dots> \<le> (1 / 2) * 2 ^ nat (- e)"
      using False by (intro mult_right_mono) auto
    also have "\<dots> = real ?N"
      unfolding s by simp
    finally have "m \<le> ?N" using e d by (simp add: m_def round_half_even_upper)
    then have "real m \<le> real ?N" by (simp only: of_nat_le_iff)
    also have "real ?N = 2 powi (- e - 1)" using e by (simp add: power_int_def)
    finally have "real m \<le> 2 powi (- e - 1)" .
    then have "val (int m) e \<le> 2 powi (- e - 1) * 2 powi e"
      by (simp add: val_def)
    also have "\<dots> = 1 / 2" by (simp flip: power_int_add)
    finally show ?thesis using False e by (simp add: frac f64_gt_half)
  next
    case True
    have L1: "-1 \<le> L"
    proof (rule ccontr)
      assume "\<not> -1 \<le> L"
      then have "(2::real) powi (L + 1) \<le> 2 powi (-1)" by (intro pw) simp
      then have "(2::real) powi (L + 1) \<le> 1 / 2" by (simp add: power_int_minus)
      with L(2) True show False by linarith
    qed
    then have e: "e = L - 52" by (simp add: e_def)
    let ?x = "?q * 2 powi (- e)"
    have "\<bar>real m - ?x\<bar> \<le> 1 / 2"
    proof (cases "0 \<le> e")
      case True
      then have "?x = real n / real (d * 2 ^ nat e)" by (simp add: power_int_minus power_int_def field_simps)
      with True d show ?thesis using round_half_even_near [of "d * 2 ^ nat e" n] by (simp add: m_def)
    next
      case False
      then have "2 powi (- e) = (2::real) ^ nat (- e)" by (simp add: power_int_def)
      then have x: "?x = real (n * 2 ^ nat (- e)) / real d" by simp
      show ?thesis unfolding x
        using False round_half_even_near [OF d, of "n * 2 ^ nat (- e)"] by (simp only: m_def if_False)
    qed
    then have mx: "?x - 1 / 2 \<le> real m" by linarith
    show ?thesis
    proof (cases "L = -1")
      case True
      with e have e: "e = -53" by simp
      have x: "?x = ?q * 2 ^ 53" by (simp add: e)
      have "(1 / 2 + 1 / 2 ^ 54) * 2 ^ 53 < ?q * 2 ^ 53"
        by (rule mult_strict_right_mono [OF gap [OF \<open>1 / 2 < ?q\<close>]]) simp
      moreover have "(1 / 2 + 1 / 2 ^ 54) * 2 ^ 53 = (2::real) ^ 52 + 1 / 2" by simp
      ultimately have "2 ^ 52 + 1 / 2 < ?x" by (simp only: x)
      with mx have "2 ^ 52 < real m" by linarith
      then have "1 / 2 < val (int m) e" by (simp add: val_def e power_int_minus)
      then show ?thesis using \<open>1 / 2 < ?q\<close> by (simp add: frac f64_gt_half e)
    next
      case False
      with L1 have L0: "0 \<le> L" by simp
      have "2 powi L * 2 powi (- e) \<le> ?x" using L(1) by (intro mult_right_mono) auto
      moreover have "2 powi L * 2 powi (- e) = (2::real) powi 52" by (simp add: e flip: power_int_add)
      ultimately have "(2::real) ^ 52 - 1 / 2 \<le> real m" using mx by simp
      moreover have "(2::real) powi (-52) \<le> 2 powi e" by (intro pw) (simp add: e L0)
      ultimately have "((2::real) ^ 52 - 1 / 2) * 2 powi (-52) \<le> real m * 2 powi e"
        by (intro mult_mono) auto
      then have "1 / 2 < val (int m) e" by (simp add: val_def power_int_minus)
      then show ?thesis using \<open>1 / 2 < ?q\<close> by (simp add: frac f64_gt_half)
        (simp add: f64_gt_def f64_half_def)
    qed
  qed
qed

lemma f64_of_nat_exact:
  assumes "0 < n" "n < 2 ^ 53"
  obtains k where "f64_of_nat n = Finite (int (n * 2 ^ k)) (- int k)"
  using f64_of_frac_exact [OF assms, of False] that by (simp add: f64_of_nat_def)

lemma half_gap:
  assumes "0 < b" "b < 2 ^ 53" "b < 2 * a"
  shows "1 / 2 + 1 / 2 ^ 54 < real a / real b"
proof -
  have "real b + 1 \<le> 2 * real a" using assms(3) by linarith
  moreover have "real b < 2 ^ 53" using assms(2) by (metis of_nat_less_iff of_nat_numeral of_nat_power)
  ultimately have "real b * (1 / 2 + 1 / 2 ^ 54) < real a" by (simp add: field_simps)
  with assms(1) show ?thesis by (simp add: pos_less_divide_eq mult.commute)
qed

text \<open>The quotient of two counters is above 0.5 as a double exactly if it is above one half.\<close>

lemma f64_ratio_half:
  assumes a: "a < 2 ^ 53" and b: "0 < b" "b < 2 ^ 53"
  shows "f64_gt (f64_div (f64_of_nat a) (f64_of_nat b)) f64_half \<longleftrightarrow> b < 2 * a"
proof (cases "a = 0")
  case True
  obtain k where k: "f64_of_nat b = Finite (int (b * 2 ^ k)) (- int k)"
    using b by (rule f64_of_nat_exact)
  show ?thesis unfolding True k using b
    by (simp add: f64_of_nat_def f64_of_frac_def Let_def f64_gt_half val_def)
next
  case False
  then have a0: "0 < a" by simp
  obtain k where k: "f64_of_nat a = Finite (int (a * 2 ^ k)) (- int k)"
    using a0 a by (rule f64_of_nat_exact)
  obtain l where l: "f64_of_nat b = Finite (int (b * 2 ^ l)) (- int l)"
    using b by (rule f64_of_nat_exact)
  have q: "f64_gt (f64_of_frac False n d) f64_half \<longleftrightarrow> b < 2 * a"
    if "0 < n" "0 < d" "real n / real d = real a / real b" for n d
  proof -
    have "1 / 2 < real a / real b \<longleftrightarrow> b < 2 * a"
      using b(1) by (simp add: pos_less_divide_eq) linarith
    then show ?thesis
      using f64_of_frac_half [OF that(1,2)] half_gap [OF b, of a] that(3) by simp
  qed
  define i where "i = int l - int k"
  have "real (a * 2 ^ k * 2 ^ nat i) / real (b * 2 ^ l) = real a / real b" if "0 \<le> i"
  proof -
    have "l = k + nat i" using that by (simp add: i_def)
    then show ?thesis by (simp add: power_add)
  qed
  moreover have "real (a * 2 ^ k) / real (b * 2 ^ l * 2 ^ nat (- i)) = real a / real b" if "\<not> 0 \<le> i"
  proof -
    have "k = l + nat (- i)" using that by (simp add: i_def)
    then show ?thesis by (simp add: power_add)
  qed
  moreover have "f64_div (f64_of_nat a) (f64_of_nat b) =
      (if 0 \<le> i then f64_of_frac False (a * 2 ^ k * 2 ^ nat i) (b * 2 ^ l)
       else f64_of_frac False (a * 2 ^ k) (b * 2 ^ l * 2 ^ nat (- i)))"
  proof -
    have "- int k - - int l = i" "nat \<bar>int (a * 2 ^ k)\<bar> = a * 2 ^ k" "nat \<bar>int (b * 2 ^ l)\<bar> = b * 2 ^ l"
      by (simp_all only: i_def abs_of_nat nat_int)
    moreover have "int (b * 2 ^ l) \<noteq> 0" "\<not> int (a * 2 ^ k) < 0" "\<not> int (b * 2 ^ l) < 0"
      using b(1) by (simp_all add: not_less)
    ultimately show ?thesis
      unfolding k l by (simp only: f64_div.simps Let_def if_False if_True not_True_eq_False
          not_False_eq_True simp_thms)
  qed
  ultimately show ?thesis using q a0 b(1) by simp
qed

text \<open>A quotient of naturals is rounded the same way however it is extended.\<close>

lemma round_half_even_scale:
  assumes c: "0 < c"
  shows "round_half_even (n * c) (d * c) = round_half_even n d"
proof -
  have q: "n * c div (d * c) = n div d" using c by (simp add: div_mult_mult2)
  have r: "n * c mod (d * c) = n mod d * c" by (simp add: mult_mod_left)
  have "2 * (n mod d * c) < d * c \<longleftrightarrow> 2 * (n mod d) < d" "d * c < 2 * (n mod d * c) \<longleftrightarrow> d < 2 * (n mod d)"
    using c by (simp_all flip: mult.assoc)
  then show ?thesis by (simp only: round_half_even_def Let_def q r)
qed

lemma ilog2_scale:
  assumes "0 < n" "0 < d" "0 < c"
  shows "ilog2 (n * c) (d * c) = ilog2 n d"
proof (rule ccontr)
  let ?a = "ilog2 (n * c) (d * c)" and ?b = "ilog2 n d"
  have q: "real (n * c) / real (d * c) = real n / real d" using assms(3) by simp
  note a = ilog2_real [of "n * c" "d * c", unfolded q] and b = ilog2_real [OF assms(1,2)]
  have pw: "x < y \<Longrightarrow> (2::real) powi (x + 1) \<le> 2 powi y" for x y :: int
    by (rule power_int_increasing) auto
  assume "?a \<noteq> ?b"
  then consider "?a < ?b" | "?b < ?a" by linarith
  then show False
  proof cases
    case 1
    from pw [OF this] a b(1) assms show False by simp
  next
    case 2
    from pw [OF this] a b(2) assms show False by simp
  qed
qed

lemma f64_of_frac_scale:
  assumes "0 < d" and c: "0 < c"
  shows "f64_of_frac neg (n * c) (d * c) = f64_of_frac neg n d"
proof (cases "n = 0")
  case False
  have "d * c * x = d * x * c" "n * c * x = n * x * c" for x
    by (simp_all only: ac_simps)
  then have r: "round_half_even (n * c) (d * c * x) = round_half_even n (d * x)"
    "round_half_even (n * c * x) (d * c) = round_half_even (n * x) d" for x
    by (simp_all only: round_half_even_scale [OF c])
  have "n * c \<noteq> 0" using False c by simp
  moreover have "ilog2 (n * c) (d * c) = ilog2 n d"
    using False assms by (intro ilog2_scale) simp_all
  ultimately show ?thesis using False by (simp only: f64_of_frac_def Let_def r if_False)
qed (simp add: f64_of_frac_def)

lemma f64_of_nat_form:
  assumes "n < 2 ^ 53"
  obtains k where "f64_of_nat n = Finite (int (n * 2 ^ k)) (- int k)"
proof (cases "n = 0")
  case True
  then show ?thesis using that [of 0] by (simp add: f64_of_nat_def f64_of_frac_def)
next
  case False
  then show ?thesis using assms that by (auto elim: f64_of_nat_exact)
qed

lemma f64_mul_nat:
  assumes a: "a < 2 ^ 53" and b: "b < 2 ^ 53"
  shows "f64_mul (f64_of_nat a) (f64_of_nat b) = f64_of_nat (a * b)"
proof -
  obtain i where i: "f64_of_nat a = Finite (int (a * 2 ^ i)) (- int i)"
    using a by (rule f64_of_nat_form)
  obtain j where j: "f64_of_nat b = Finite (int (b * 2 ^ j)) (- int j)"
    using b by (rule f64_of_nat_form)
  have p: "nat \<bar>int (a * 2 ^ i) * int (b * 2 ^ j)\<bar> = a * b * 2 ^ (i + j)"
    by (simp only: abs_of_nat nat_int power_add ac_simps flip: of_nat_mult)
  have e: "- int i + - int j = - int (i + j)" "nat (- (- int (i + j))) = i + j"
    by simp_all
  have z: "0 \<le> - int n \<longleftrightarrow> n = 0" for n by simp
  have s: "\<not> int n < 0" for n by simp
  have "f64_mul (f64_of_nat a) (f64_of_nat b) =
      (if i + j = 0 then f64_of_frac False (a * b * 2 ^ (i + j) * 2 ^ nat (- int (i + j))) 1
       else f64_of_frac False (a * b * 2 ^ (i + j)) (2 ^ (i + j)))"
    unfolding i j by (simp only: f64_mul.simps Let_def p e z s if_False simp_thms)
  also have "\<dots> = f64_of_frac False (a * b * 2 ^ (i + j)) (1 * 2 ^ (i + j))" by simp
  also have "\<dots> = f64_of_nat (a * b)" unfolding f64_of_nat_def by (rule f64_of_frac_scale) simp_all
  finally show ?thesis .
qed

end
