(* ===== verification/Rust_Text.thy ===== *)
theory Rust_Text
  imports Prelude
begin

text \<open>
  The text operations of Rust's standard library that the sources call: \<open>str::trim\<close> and
  \<open>split_whitespace\<close> (white space is Unicode's \<open>White_Space\<close>, here as UTF-8 encodings),
  \<open>strip_suffix\<close>, \<open>parse::<u32>\<close> and \<open>parse::<i64>\<close>, decimal and hexadecimal formatting, UTF-8
  validation and \<open>BufRead::lines\<close> over the bytes of a file.
\<close>

section \<open>White space\<close>

definition ws_chars :: "string list" where
  "ws_chars =
    [[CHR 0x09], [CHR 0x0A], [CHR 0x0B], [CHR 0x0C], [CHR 0x0D], [CHR 0x20],
     [CHR 0xC2, CHR 0x85], [CHR 0xC2, CHR 0xA0], [CHR 0xE1, CHR 0x9A, CHR 0x80],
     [CHR 0xE2, CHR 0x80, CHR 0x80], [CHR 0xE2, CHR 0x80, CHR 0x81], [CHR 0xE2, CHR 0x80, CHR 0x82],
     [CHR 0xE2, CHR 0x80, CHR 0x83], [CHR 0xE2, CHR 0x80, CHR 0x84], [CHR 0xE2, CHR 0x80, CHR 0x85],
     [CHR 0xE2, CHR 0x80, CHR 0x86], [CHR 0xE2, CHR 0x80, CHR 0x87], [CHR 0xE2, CHR 0x80, CHR 0x88],
     [CHR 0xE2, CHR 0x80, CHR 0x89], [CHR 0xE2, CHR 0x80, CHR 0x8A], [CHR 0xE2, CHR 0x80, CHR 0xA8],
     [CHR 0xE2, CHR 0x80, CHR 0xA9], [CHR 0xE2, CHR 0x80, CHR 0xAF], [CHR 0xE2, CHR 0x81, CHR 0x9F],
     [CHR 0xE3, CHR 0x80, CHR 0x80]]"

text \<open>The white-space character at the head of a text, in a given list of encodings.\<close>

definition head_ws :: "string list \<Rightarrow> string \<Rightarrow> string option" where
  "head_ws ws s = find (\<lambda>w. w \<noteq> [] \<and> prefix w s) ws"

lemma head_ws_Some: "head_ws ws s = Some w \<Longrightarrow> w \<in> set ws \<and> w \<noteq> [] \<and> prefix w s"
  by (auto simp: head_ws_def find_Some_iff)

lemma head_ws_None: "head_ws ws s = None \<longleftrightarrow> (\<forall>w \<in> set ws. w \<noteq> [] \<longrightarrow> \<not> prefix w s)"
  by (auto simp: head_ws_def find_None_iff)

lemma head_ws_Nil [simp]: "head_ws ws [] = None"
  by (auto simp: head_ws_None)

lemma head_ws_shorter: "head_ws ws s = Some w \<Longrightarrow> length (drop (length w) s) < length s"
  by (auto dest!: head_ws_Some simp: prefix_def)

function strip_front :: "string list \<Rightarrow> string \<Rightarrow> string" where
  "strip_front ws s =
     (case head_ws ws s of None \<Rightarrow> s | Some w \<Rightarrow> strip_front ws (drop (length w) s))"
  by pat_completeness auto
termination
  by (relation "measure (\<lambda>(ws, s). length s)") (auto dest: head_ws_shorter)

declare strip_front.simps [simp del]

definition trim_start :: "string \<Rightarrow> string" where
  "trim_start s = strip_front ws_chars s"

definition trim_end :: "string \<Rightarrow> string" where
  "trim_end s = rev (strip_front (map rev ws_chars) (rev s))"

definition trim :: "string \<Rightarrow> string" where
  "trim s = trim_end (trim_start s)"

lemma strip_front_fix: "head_ws ws s = None \<Longrightarrow> strip_front ws s = s"
  by (subst strip_front.simps) simp

lemma strip_front_head: "head_ws ws (strip_front ws s) = None"
proof (induction ws s rule: strip_front.induct)
  case (1 ws s)
  then show ?case
    by (cases "head_ws ws s") (simp_all add: strip_front.simps [of ws s])
qed

lemma strip_front_idem: "strip_front ws (strip_front ws s) = strip_front ws s"
  by (rule strip_front_fix) (rule strip_front_head)

lemma strip_front_length: "length (strip_front ws s) \<le> length s"
proof (induction ws s rule: strip_front.induct)
  case (1 ws s)
  then show ?case
    by (cases "head_ws ws s") (auto simp: strip_front.simps [of ws s])
qed

text \<open>Words between white space; \<open>cur\<close> is the word read so far, in reverse.\<close>

definition flush_word :: "string \<Rightarrow> string list" where
  "flush_word cur = (if cur = [] then [] else [rev cur])"

function split_ws_from :: "string \<Rightarrow> string \<Rightarrow> string list" where
  "split_ws_from cur [] = flush_word cur"
| "split_ws_from cur (c # s) =
     (case head_ws ws_chars (c # s) of
        None \<Rightarrow> split_ws_from (c # cur) s
      | Some w \<Rightarrow> flush_word cur @ split_ws_from [] (drop (length w) (c # s)))"
  by pat_completeness auto
termination
  by (relation "measure (\<lambda>(cur, s). length s)") (auto dest: head_ws_shorter)

declare split_ws_from.simps(2) [simp del]

definition split_whitespace :: "string \<Rightarrow> string list" where
  "split_whitespace s = split_ws_from [] s"

text \<open>A blank ends a word wherever it stands, since no other white-space character contains one.\<close>

definition blank :: char where
  "blank = CHR 0x20"

lemma ws_chars_blank: "w \<in> set ws_chars \<Longrightarrow> blank \<in> set w \<Longrightarrow> w = [blank]"
  by (auto simp: ws_chars_def blank_def)

lemma head_ws_blank: "head_ws ws_chars (blank # s) = Some [blank]"
  by (simp add: head_ws_def ws_chars_def blank_def)

lemma prefix_before_blank:
  "blank \<notin> set w \<Longrightarrow> prefix w (s @ blank # t) \<longleftrightarrow> prefix w s"
proof (induction w arbitrary: s)
  case (Cons c w)
  then show ?case by (cases s) auto
qed simp

lemma find_cong_pred: "(\<And>x. x \<in> set xs \<Longrightarrow> P x = Q x) \<Longrightarrow> find P xs = find Q xs"
  by (induction xs) auto

lemma head_ws_before_blank:
  assumes "s \<noteq> []"
  shows "head_ws ws_chars (s @ blank # t) = head_ws ws_chars s"
  unfolding head_ws_def
proof (rule find_cong_pred)
  fix w assume w: "w \<in> set ws_chars"
  show "(w \<noteq> [] \<and> prefix w (s @ blank # t)) = (w \<noteq> [] \<and> prefix w s)"
  proof (cases "blank \<in> set w")
    case True
    with w have "w = [blank]" by (rule ws_chars_blank)
    then show ?thesis using assms by (cases s) auto
  next
    case False
    then show ?thesis by (simp add: prefix_before_blank)
  qed
qed

lemma split_ws_from_blank:
  "split_ws_from cur (s @ blank # t) = split_ws_from cur s @ split_whitespace t"
proof (induction cur s rule: split_ws_from.induct)
  case (1 cur)
  show ?case
    by (subst append_Nil, subst split_ws_from.simps(2))
      (simp add: head_ws_blank split_whitespace_def)
next
  case (2 cur c s)
  have h: "head_ws ws_chars ((c # s) @ blank # t) = head_ws ws_chars (c # s)"
    by (rule head_ws_before_blank) simp
  show ?case
  proof (cases "head_ws ws_chars (c # s)")
    case None
    with 2 h show ?thesis by (simp add: split_ws_from.simps(2))
  next
    case (Some w)
    then have "prefix w (c # s)" by (auto dest: head_ws_Some)
    then have "drop (length w) ((c # s) @ blank # t) = drop (length w) (c # s) @ blank # t"
      using prefix_length_le [of w "c # s"] drop_append [of "length w" "c # s"] by simp
    with Some 2 h show ?thesis by (simp add: split_ws_from.simps(2) del: drop_append)
  qed
qed

lemma split_whitespace_blank:
  "split_whitespace (s @ blank # t) = split_whitespace s @ split_whitespace t"
  unfolding split_whitespace_def by (simp add: split_ws_from_blank flip: split_whitespace_def)

text \<open>Printable ASCII without the blank holds no white space.\<close>

definition graphic :: "char \<Rightarrow> bool" where
  "graphic c = (33 \<le> (of_char c :: nat) \<and> (of_char c :: nat) \<le> 126)"

lemma graphic_no_ws:
  assumes "graphic c"
  shows "head_ws ws_chars (c # s) = None" and "head_ws (map rev ws_chars) (c # s) = None"
proof -
  have ends: "\<forall>w \<in> set ws_chars. w \<noteq> [] \<and> \<not> graphic (hd w) \<and> \<not> graphic (last w)"
    by (simp add: ws_chars_def graphic_def)
  have "\<not> prefix w (c # s)" if "w \<noteq> []" "\<not> graphic (hd w)" for w
    using assms that by (cases w) auto
  then show "head_ws ws_chars (c # s) = None" "head_ws (map rev ws_chars) (c # s) = None"
    using ends by (auto simp: head_ws_None hd_rev)
qed

lemma split_ws_from_graphic:
  "\<forall>c \<in> set s. graphic c \<Longrightarrow> split_ws_from cur s = flush_word (rev s @ cur)"
  by (induction s arbitrary: cur) (simp_all add: split_ws_from.simps(2) graphic_no_ws)

lemma split_whitespace_graphic:
  "s \<noteq> [] \<Longrightarrow> \<forall>c \<in> set s. graphic c \<Longrightarrow> split_whitespace s = [s]"
  by (simp add: split_whitespace_def split_ws_from_graphic flush_word_def)

lemma strip_front_graphic:
  "\<forall>c \<in> set s. graphic c \<Longrightarrow> strip_front ws_chars s = s \<and> strip_front (map rev ws_chars) s = s"
  by (cases s) (simp_all add: strip_front_fix graphic_no_ws)

lemma trim_graphic: "\<forall>c \<in> set s. graphic c \<Longrightarrow> trim s = s"
  by (simp add: trim_def trim_start_def trim_end_def strip_front_graphic)

lemma head_rev_ws_blank: "head_ws (map rev ws_chars) (blank # s) = Some [blank]"
  by (simp add: head_ws_def ws_chars_def blank_def)

lemma strip_front_blanks:
  "strip_front ws_chars (replicate i blank @ s) = strip_front ws_chars s"
  "strip_front (map rev ws_chars) (replicate i blank @ s) = strip_front (map rev ws_chars) s"
  by (induction i)
    (simp_all add: strip_front.simps [of _ "blank # t" for t] head_ws_blank head_rev_ws_blank)

lemma trim_blanks:
  assumes "s \<noteq> []" "\<forall>c \<in> set s. graphic c"
  shows "trim (replicate i blank @ s @ replicate j blank) = s"
proof -
  obtain c r where s: "s = c # r" using assms(1) by (cases s) auto
  have "strip_front ws_chars (s @ replicate j blank) = s @ replicate j blank"
    using assms(2) unfolding s by (simp add: strip_front_fix graphic_no_ws)
  moreover have "strip_front (map rev ws_chars) (rev s) = rev s"
    using assms(2) by (simp add: strip_front_graphic)
  ultimately show ?thesis
    by (simp add: trim_def trim_start_def trim_end_def strip_front_blanks)
qed

section \<open>Numbers\<close>

definition digit_of :: "char \<Rightarrow> nat option" where
  "digit_of c =
     (let n = (of_char c :: nat) in if 48 \<le> n \<and> n \<le> 57 then Some (n - 48) else None)"

definition digit_char :: "nat \<Rightarrow> char" where
  "digit_char d = char_of (48 + d)"

lemma digit_of_char [simp]: "d < 10 \<Longrightarrow> digit_of (digit_char d) = Some d"
  by (simp add: digit_of_def digit_char_def of_char_of Let_def)

text \<open>The digits of a number whose absolute value stays below \<open>lim\<close>; overflow is an error.\<close>

fun parse_digits :: "nat \<Rightarrow> nat \<Rightarrow> string \<Rightarrow> nat option" where
  "parse_digits lim acc [] = Some acc"
| "parse_digits lim acc (c # s) =
     (case digit_of c of
        None \<Rightarrow> None
      | Some d \<Rightarrow> if acc * 10 + d < lim then parse_digits lim (acc * 10 + d) s else None)"

text \<open>\<open>str::parse::<u32>\<close>: an optional \<open>+\<close>, then at least one digit.\<close>

definition parse_u32 :: "string \<Rightarrow> nat option" where
  "parse_u32 s =
     (case s of
        [] \<Rightarrow> None
      | c # r \<Rightarrow>
          if c = CHR ''+'' then (if r = [] then None else parse_digits (2 ^ 32) 0 r)
          else parse_digits (2 ^ 32) 0 s)"

text \<open>\<open>str::parse::<i64>\<close>: an optional sign, then at least one digit.\<close>

definition parse_i64 :: "string \<Rightarrow> int option" where
  "parse_i64 s =
     (case s of
        [] \<Rightarrow> None
      | c # r \<Rightarrow>
          if c = CHR ''+'' then
            (if r = [] then None else map_option int (parse_digits (2 ^ 63) 0 r))
          else if c = CHR ''-'' then
            (if r = [] then None
             else map_option (\<lambda>n. - int n) (parse_digits (2 ^ 63 + 1) 0 r))
          else map_option int (parse_digits (2 ^ 63) 0 s))"

fun show_nat :: "nat \<Rightarrow> string" where
  "show_nat n = (if n < 10 then [digit_char n] else show_nat (n div 10) @ [digit_char (n mod 10)])"

declare show_nat.simps [simp del]

definition hex_char :: "nat \<Rightarrow> char" where
  "hex_char d = (if d < 10 then char_of (48 + d) else char_of (87 + d))"

fun show_hex :: "nat \<Rightarrow> string" where
  "show_hex n = (if n < 16 then [hex_char n] else show_hex (n div 16) @ [hex_char (n mod 16)])"

declare show_hex.simps [simp del]

lemma parse_digits_append:
  "parse_digits lim acc (s @ t) =
     (case parse_digits lim acc s of None \<Rightarrow> None | Some a \<Rightarrow> parse_digits lim a t)"
  by (induction lim acc s rule: parse_digits.induct) (auto split: option.splits)

lemma show_nat_not_Nil [simp]: "show_nat n \<noteq> []"
  by (subst show_nat.simps) simp

lemma parse_show_digits_any:
  "parse_digits lim 0 (show_nat n) = (if n < lim then Some n else None)"
proof (induction n rule: show_nat.induct)
  case (1 n)
  show ?case
  proof (cases "n < 10")
    case True
    then show ?thesis by (simp add: show_nat.simps [of n])
  next
    case False
    with "1" have "parse_digits lim 0 (show_nat (n div 10)) =
        (if n div 10 < lim then Some (n div 10) else None)" by simp
    with False show ?thesis
      by (auto simp: show_nat.simps [of n] parse_digits_append)
  qed
qed

lemma parse_show_digits: "n < lim \<Longrightarrow> parse_digits lim 0 (show_nat n) = Some n"
  by (simp add: parse_show_digits_any)

lemma digit_char_not_sign: "d < 10 \<Longrightarrow> digit_char d \<noteq> CHR ''+'' \<and> digit_char d \<noteq> CHR ''-''"
  by (auto simp: digit_char_def of_char_of dest: arg_cong [where f = "of_char :: char \<Rightarrow> nat"])

lemma show_nat_head: "\<exists>d r. show_nat n = digit_char d # r \<and> d < 10"
proof (induction n rule: show_nat.induct)
  case (1 n)
  then show ?case
    by (cases "n < 10") (force simp: show_nat.simps [of n])+
qed

lemma parse_u32_show_nat: "n < 2 ^ 32 \<Longrightarrow> parse_u32 (show_nat n) = Some n"
  using show_nat_head [of n] parse_show_digits [of n "2 ^ 32"] digit_char_not_sign
  by (force simp: parse_u32_def)

lemma parse_u32_show_big: "\<not> n < 2 ^ 32 \<Longrightarrow> parse_u32 (show_nat n) = None"
  using show_nat_head [of n] parse_show_digits_any [of "2 ^ 32" n] digit_char_not_sign
  by (force simp: parse_u32_def)

lemma parse_i64_show_nat: "n < 2 ^ 63 \<Longrightarrow> parse_i64 (show_nat n) = Some (int n)"
  using show_nat_head [of n] parse_show_digits [of n "2 ^ 63"] digit_char_not_sign
  by (force simp: parse_i64_def)

lemma parse_digits_bound: "parse_digits lim acc s = Some n \<Longrightarrow> acc < lim \<Longrightarrow> n < lim"
  by (induction lim acc s rule: parse_digits.induct) (auto split: option.splits if_splits)

lemma show_nat_eq:
  assumes "show_nat m = show_nat n"
  shows "m = n"
proof -
  have "m < Suc (m + n)" "n < Suc (m + n)" by simp_all
  from this [THEN parse_show_digits] have "Some m = Some n" unfolding assms by (rule trans [OF sym])
  then show ?thesis by (rule option.inject [THEN iffD1])
qed

lemma parse_u32_bound: "parse_u32 s = Some n \<Longrightarrow> n < 2 ^ 32"
  by (auto simp: parse_u32_def simp del: parse_digits.simps dest: parse_digits_bound
      split: list.splits if_splits)

section \<open>Files as lines\<close>

definition newline :: char where
  "newline = CHR 0x0A"

definition carriage_return :: char where
  "carriage_return = CHR 0x0D"

text \<open>UTF-8 well-formedness, as \<open>String::from_utf8\<close> decides it.\<close>

definition cont_byte :: "nat \<Rightarrow> bool" where
  "cont_byte b = (128 \<le> b \<and> b \<le> 191)"

fun utf8_bytes :: "nat list \<Rightarrow> bool" where
  "utf8_bytes [] = True"
| "utf8_bytes (b # bs) =
     (if b \<le> 127 then utf8_bytes bs
      else if 194 \<le> b \<and> b \<le> 223 then
        (case bs of c1 # r \<Rightarrow> cont_byte c1 \<and> utf8_bytes r | _ \<Rightarrow> False)
      else if 224 \<le> b \<and> b \<le> 239 then
        (case bs of
           c1 # c2 # r \<Rightarrow>
             cont_byte c1 \<and> cont_byte c2 \<and> (b = 224 \<longrightarrow> 160 \<le> c1) \<and> (b = 237 \<longrightarrow> c1 \<le> 159) \<and>
             utf8_bytes r
         | _ \<Rightarrow> False)
      else if 240 \<le> b \<and> b \<le> 244 then
        (case bs of
           c1 # c2 # c3 # r \<Rightarrow>
             cont_byte c1 \<and> cont_byte c2 \<and> cont_byte c3 \<and> (b = 240 \<longrightarrow> 144 \<le> c1) \<and>
             (b = 244 \<longrightarrow> c1 \<le> 143) \<and> utf8_bytes r
         | _ \<Rightarrow> False)
      else False)"

definition utf8_valid :: "string \<Rightarrow> bool" where
  "utf8_valid s = utf8_bytes (map of_char s)"

text \<open>
  \<open>BufRead::lines\<close>: pieces ended by a newline, a carriage return before it dropped as well; a
  last piece without newline is a line too. A line that is not UTF-8 is an \<open>Err\<close>, and
  \<open>map_while(Result::ok)\<close> stops there.
\<close>

definition strip_cr :: "string \<Rightarrow> string" where
  "strip_cr l = (if l \<noteq> [] \<and> last l = carriage_return then butlast l else l)"

function raw_lines :: "string \<Rightarrow> string list" where
  "raw_lines s =
     (if s = [] then []
      else case dropWhile (\<lambda>c. c \<noteq> newline) s of
             [] \<Rightarrow> [s]
           | _ # r \<Rightarrow> strip_cr (takeWhile (\<lambda>c. c \<noteq> newline) s) # raw_lines r)"
  by pat_completeness auto
termination
proof (relation "measure length")
  fix s :: string and c r
  assume "dropWhile (\<lambda>c. c \<noteq> newline) s = c # r"
  then have "length (c # r) \<le> length s"
    using length_dropWhile_le [of "\<lambda>c. c \<noteq> newline" s] by simp
  then show "(r, s) \<in> measure length" by simp
qed simp

declare raw_lines.simps [simp del]

definition read_lines :: "string \<Rightarrow> string list" where
  "read_lines s = takeWhile utf8_valid (raw_lines s)"

definition blank_line :: "string \<Rightarrow> bool" where
  "blank_line l = (trim l = [])"

text \<open>A file whose last line is complete, and one line as \<open>writeln!\<close> puts it.\<close>

definition newline_ended :: "string \<Rightarrow> bool" where
  "newline_ended s = (s = [] \<or> last s = newline)"

definition clean_line :: "string \<Rightarrow> bool" where
  "clean_line l = (newline \<notin> set l \<and> (l = [] \<or> last l \<noteq> carriage_return))"

lemma raw_lines_Nil [simp]: "raw_lines [] = []"
  by (subst raw_lines.simps) simp

lemma raw_lines_partial: "t \<noteq> [] \<Longrightarrow> newline \<notin> set t \<Longrightarrow> raw_lines t = [t]"
proof -
  assume "t \<noteq> []" "newline \<notin> set t"
  moreover from this(2) have "dropWhile (\<lambda>c. c \<noteq> newline) t = []"
    by (auto simp: dropWhile_eq_Nil_conv)
  ultimately show ?thesis by (simp add: raw_lines.simps [of t] del: dropWhile_eq_Nil_conv)
qed

lemma raw_lines_first:
  assumes "newline \<notin> set l"
  shows "raw_lines (l @ newline # r) = strip_cr l # raw_lines r"
proof -
  have "dropWhile (\<lambda>c. c \<noteq> newline) (l @ newline # r) = newline # r"
    and "takeWhile (\<lambda>c. c \<noteq> newline) (l @ newline # r) = l"
    using assms by (auto simp: dropWhile_append takeWhile_append)
  then show ?thesis by (simp add: raw_lines.simps [of "l @ newline # r"])
qed

lemma split_first_line:
  assumes "newline \<in> set s"
  obtains l r where "s = l @ newline # r" "newline \<notin> set l"
  using split_list_first [OF assms] by blast

lemma raw_lines_append:
  "newline_ended f \<Longrightarrow> raw_lines (f @ g) = raw_lines f @ raw_lines g"
proof (induction "length f" arbitrary: f rule: less_induct)
  case less
  show ?case
  proof (cases "f = []")
    case False
    with less.prems have "newline \<in> set f"
      by (metis last_in_set newline_ended_def)
    then obtain l r where f: "f = l @ newline # r" and l: "newline \<notin> set l"
      by (rule split_first_line)
    from less.prems have "newline_ended r"
      by (auto simp: f newline_ended_def split: if_splits)
    then have "raw_lines (r @ g) = raw_lines r @ raw_lines g"
      using less.hyps [of r] f by simp
    then show ?thesis using l by (simp add: f raw_lines_first)
  qed simp
qed

lemma raw_lines_snoc:
  assumes "newline_ended f" "clean_line l"
  shows "raw_lines (f @ l @ [newline]) = raw_lines f @ [l]"
  using raw_lines_append [OF assms(1), of "l @ [newline]"] raw_lines_first [of l "[]"] assms(2)
  by (auto simp: clean_line_def strip_cr_def)

text \<open>Appending to a file whose last line is torn glues the new line to the torn one.\<close>

lemma raw_lines_snoc_torn:
  assumes "newline_ended f" "newline \<notin> set t" "clean_line l" "l \<noteq> []"
  shows "raw_lines ((f @ t) @ l @ [newline]) = raw_lines f @ [t @ l]"
  using raw_lines_append [OF assms(1), of "(t @ l) @ [newline]"]
    raw_lines_first [of "t @ l" "[]"] assms
  by (auto simp: clean_line_def strip_cr_def)

lemma newline_ended_snoc [simp]: "newline_ended (f @ l @ [newline])"
  by (simp add: newline_ended_def)

lemma newline_ended_Nil [simp]: "newline_ended []"
  by (simp add: newline_ended_def)

lemma read_lines_snoc:
  assumes "newline_ended f" "clean_line l" "utf8_valid l" "\<forall>x \<in> set (raw_lines f). utf8_valid x"
  shows "read_lines (f @ l @ [newline]) = read_lines f @ [l]"
proof -
  have "raw_lines f = takeWhile utf8_valid (raw_lines f)"
    using assms(4) by (metis takeWhile_eq_all_conv)
  with assms show ?thesis by (simp add: read_lines_def raw_lines_snoc takeWhile_append)
qed

lemma utf8_bytes_ascii: "\<forall>b \<in> set bs. b \<le> 127 \<Longrightarrow> utf8_bytes bs"
  by (induction bs) auto

lemma utf8_ascii: "\<forall>c \<in> set s. (of_char c :: nat) \<le> 127 \<Longrightarrow> utf8_valid s"
  by (simp add: utf8_valid_def utf8_bytes_ascii)

lemma utf8_bytes_snoc: "utf8_bytes bs \<Longrightarrow> b \<le> 127 \<Longrightarrow> utf8_bytes (bs @ [b])"
proof (induction "length bs" arbitrary: bs rule: less_induct)
  case less
  have one: "utf8_bytes [b]" using less.prems(2) by simp
  have IH: "utf8_bytes r \<Longrightarrow> length r < length bs \<Longrightarrow> utf8_bytes (r @ [b])" for r
    using less by blast
  show ?case
  proof (cases bs)
    case (Cons c t)
    note u = less.prems(1) [unfolded Cons utf8_bytes.simps(2)]
    show ?thesis
    proof (cases t)
      case Nil
      then show ?thesis using u one by (simp add: Cons split: if_splits)
    next
      case t: (Cons c1 r)
      show ?thesis
      proof (cases r)
        case Nil
        then show ?thesis using u one IH [of r] IH [of t]
          by (simp add: Cons t del: utf8_bytes.simps(2) split: if_splits)
            (simp_all add: utf8_bytes.simps(2) [of c])
      next
        case r: (Cons c2 q)
        show ?thesis using u IH [of t] IH [of r] IH [of q] IH [of "tl q"]
          by (cases q) (simp_all add: Cons t r utf8_bytes.simps(2) [of c] del: utf8_bytes.simps(2) split: if_splits)
      qed
    qed
  qed (use one in \<open>simp only: append_Nil\<close>)
qed

lemma utf8_valid_newline: "utf8_valid s \<Longrightarrow> utf8_valid (s @ [newline])"
  by (simp add: utf8_valid_def utf8_bytes_snoc newline_def)

end
