(* ===== verification/Json.thy ===== *)
theory Json
  imports F64 Rust_Text "HOL-Library.Monad_Syntax"
begin

text \<open>
  JSON values and the third-party crates as parameters of the model.

  What \<open>serde\<close>'s derived code makes of a Rust value is a value of type \<open>value\<close>; turning it into
  text and reading it back is \<open>serde_json\<close>, a parameter. The derive rules used by the sources
  (required and optional fields, \<open>rename\<close>, \<open>skip_serializing_if\<close>, duplicate and unknown keys,
  a struct given as an array) are the combinators of this theory.
\<close>

section \<open>Values\<close>

datatype 'f json =
    JNull
  | JBool bool
  | JInt int
  | JFloat 'f
  | JStr string
  | JArr "'f json list"
  | JObj "(string \<times> 'f json) list"

type_synonym "value" = "f64 json"

section \<open>Third-party crates\<close>

text \<open>
  \<^item> \<open>serde_json\<close>: \<open>json_text\<close> (\<open>to_string\<close>), \<open>json_pretty\<close> (\<open>to_vec_pretty\<close>) and \<open>json_of_text\<close>
    (\<open>from_str\<close>); \<open>reread\<close> is what a finite double becomes when it is printed and parsed again, which
    the crate does not promise to be the same double;
  \<^item> \<open>chrono\<close>: RFC 3339 text (\<open>of_rfc3339\<close> is the \<open>Deserialize\<close> instance of \<open>DateTime<Utc>\<close>,
    \<open>parse_from_rfc3339\<close> the stricter function of that name), and which durations and dates are in its range (the others panic);
  \<^item> \<open>cron\<close>: \<open>cron_next e t\<close> is \<^const>\<open>None\<close> if \<open>Schedule::from_str\<close> rejects \<open>e\<close>, and else the
    first tick after \<open>t\<close>, if there is one;
  \<^item> \<open>xxhash_rust\<close>: \<open>xxh64\<close> with seed 0.
\<close>

record crates =
  json_text :: "value \<Rightarrow> string"
  json_pretty :: "value \<Rightarrow> string"
  json_of_text :: "string \<Rightarrow> value option"
  reread :: "f64 \<Rightarrow> f64"
  rfc3339 :: "instant \<Rightarrow> string"
  of_rfc3339 :: "string \<Rightarrow> instant option"
  parse_from_rfc3339 :: "string \<Rightarrow> instant option"
  secs_ok :: "int \<Rightarrow> bool"
  date_ok :: "instant \<Rightarrow> bool"
  cron_next :: "string \<Rightarrow> instant \<Rightarrow> instant option option"
  xxh64 :: "string \<Rightarrow> u64"

text \<open>\<open>t + chrono::Duration::seconds(s)\<close>; \<^const>\<open>None\<close> is a panic.\<close>

definition add_seconds :: "crates \<Rightarrow> instant \<Rightarrow> int \<Rightarrow> instant option" where
  "add_seconds C t s =
     (if secs_ok C s \<and> date_ok C (t + nanos s) then Some (t + nanos s) else None)"

definition f64_finite :: "f64 \<Rightarrow> bool" where
  "f64_finite x = (case x of Finite m e \<Rightarrow> True | _ \<Rightarrow> False)"

lemma f64_finite_simps [simp]:
  "f64_finite (Finite m e)" "\<not> f64_finite NaN" "\<not> f64_finite (Infinity s)"
  by (simp_all add: f64_finite_def)

text \<open>
  What \<open>serde_json\<close> and \<open>chrono\<close> document: text is UTF-8, compact text is one line that is not
  blank, and reading the text of a value, also with a newline behind it, gives the value back, its doubles
  reread.
\<close>

definition serde_ok :: "crates \<Rightarrow> bool" where
  "serde_ok C \<longleftrightarrow>
     (\<forall>j. json_of_text C (json_text C j) = Some (map_json (reread C) j)) \<and>
     (\<forall>j. json_of_text C (json_text C j @ [newline]) = Some (map_json (reread C) j)) \<and>
     (\<forall>j. json_of_text C (json_pretty C j) = Some (map_json (reread C) j)) \<and>
     (\<forall>j. clean_line (json_text C j) \<and> utf8_valid (json_text C j) \<and> \<not> blank_line (json_text C j)) \<and>
     (\<forall>j. utf8_valid (json_pretty C j)) \<and>
     (\<forall>x. f64_finite x \<longrightarrow> f64_finite (reread C x)) \<and>
     (\<forall>t. of_rfc3339 C (rfc3339 C t) = Some t \<and> parse_from_rfc3339 C (rfc3339 C t) = Some t)"

lemma serde_okD:
  assumes "serde_ok C"
  shows "json_of_text C (json_text C j) = Some (map_json (reread C) j)"
    and "json_of_text C (json_text C j @ [newline]) = Some (map_json (reread C) j)"
    and "json_of_text C (json_pretty C j) = Some (map_json (reread C) j)"
    and "clean_line (json_text C j)" "utf8_valid (json_text C j)" "\<not> blank_line (json_text C j)"
    and "utf8_valid (json_pretty C j)"
    and "f64_finite x \<Longrightarrow> f64_finite (reread C x)"
    and "of_rfc3339 C (rfc3339 C t) = Some t"
    and "parse_from_rfc3339 C (rfc3339 C t) = Some t"
  using assms by (auto simp: serde_ok_def)

lemma serde_ok_clean:
  "serde_ok C \<Longrightarrow> newline \<notin> set (json_text C j) \<and> json_text C j \<noteq> []"
proof -
  assume s: "serde_ok C"
  have "blank_line []" by (simp add: blank_line_def trim_def trim_start_def trim_end_def strip_front_fix)
  with serde_okD(4,6) [OF s, of j] show ?thesis by (auto simp: clean_line_def)
qed

section \<open>Serializing\<close>

text \<open>A double is a number, or \<open>null\<close> when JSON cannot write it.\<close>

definition ser_f64 :: "f64 \<Rightarrow> value" where
  "ser_f64 x = (if f64_finite x then JFloat x else JNull)"

text \<open>The fields that are not skipped; \<^const>\<open>None\<close> is \<open>skip_serializing_if = "Option::is_none"\<close>.\<close>

definition present :: "(string \<times> value option) list \<Rightarrow> (string \<times> value) list" where
  "present l = List.map_filter (\<lambda>(k, v). map_option (Pair k) v) l"

lemma present_simps [simp]:
  "present [] = []"
  "present ((k, Some v) # l) = (k, v) # present l"
  "present ((k, None) # l) = present l"
  by (simp_all add: present_def List.map_filter_def)

lemma present_keys: "set (map fst (present l)) \<subseteq> set (map fst l)"
proof (induction l)
  case (Cons p l)
  obtain k v where p: "p = (k, v)" by fastforce
  show ?case using Cons unfolding p by (cases v) auto
qed simp

lemma distinct_present: "distinct (map fst l) \<Longrightarrow> distinct (map fst (present l))"
proof (induction l)
  case (Cons p l)
  obtain k v where p: "p = (k, v)" by fastforce
  then show ?case using Cons present_keys [of l] by (cases v) auto
qed simp

lemma map_of_present:
  "distinct (map fst l) \<Longrightarrow> map_of (present l) k = Option.bind (map_of l k) (\<lambda>v. v)"
proof (induction l)
  case (Cons p l)
  obtain j v where p: "p = (j, v)" by fastforce
  have "k = j \<Longrightarrow> map_of (present l) k = None"
    using Cons.prems present_keys [of l] p by (auto simp: map_of_eq_None_iff)
  with Cons p show ?case by (cases v) auto
qed simp

lemma map_present:
  "map (\<lambda>(k, v). (k, f v)) (present l) = present (map (\<lambda>(k, v). (k, map_option f v)) l)"
proof (induction l)
  case (Cons p l)
  obtain k v where "p = (k, v)" by fastforce
  with Cons show ?case by (cases v) auto
qed simp

lemma map_json_present:
  "map_json f (JObj (present l)) = JObj (present (map (\<lambda>(k, v). (k, map_option (map_json f) v)) l))"
  by (simp add: map_present [symmetric] map_prod_def)

section \<open>Deserializing\<close>

fun de_str :: "value \<Rightarrow> string option" where
  "de_str (JStr s) = Some s"
| "de_str _ = None"

fun de_bool :: "value \<Rightarrow> bool option" where
  "de_bool (JBool b) = Some b"
| "de_bool _ = None"

fun de_i32 :: "value \<Rightarrow> i32 option" where
  "de_i32 (JInt i) = (if - (2 ^ 31) \<le> i \<and> i < 2 ^ 31 then Some (word_of_int i) else None)"
| "de_i32 _ = None"

fun de_u32 :: "value \<Rightarrow> u32 option" where
  "de_u32 (JInt i) = (if 0 \<le> i \<and> i < 2 ^ 32 then Some (word_of_int i) else None)"
| "de_u32 _ = None"

fun de_u64 :: "value \<Rightarrow> u64 option" where
  "de_u64 (JInt i) = (if 0 \<le> i \<and> i < 2 ^ 64 then Some (word_of_int i) else None)"
| "de_u64 _ = None"

fun de_f64 :: "value \<Rightarrow> f64 option" where
  "de_f64 (JFloat x) = Some x"
| "de_f64 (JInt i) = Some (f64_of_int i)"
| "de_f64 _ = None"

fun de_time :: "crates \<Rightarrow> value \<Rightarrow> instant option" where
  "de_time C (JStr s) = of_rfc3339 C s"
| "de_time C _ = None"

fun de_list :: "(value \<Rightarrow> 'a option) \<Rightarrow> value list \<Rightarrow> 'a list option" where
  "de_list de [] = Some []"
| "de_list de (x # xs) = do { y \<leftarrow> de x; ys \<leftarrow> de_list de xs; Some (y # ys) }"

fun de_strs :: "value \<Rightarrow> string list option" where
  "de_strs (JArr xs) = de_list de_str xs"
| "de_strs _ = None"

text \<open>A required field, and an \<open>Option\<close> field: absent and \<open>null\<close> are \<open>None\<close>.\<close>

definition req :: "(value \<Rightarrow> 'a option) \<Rightarrow> value option \<Rightarrow> 'a option" where
  "req de v = Option.bind v de"

definition opt :: "(value \<Rightarrow> 'a option) \<Rightarrow> value option \<Rightarrow> 'a option option" where
  "opt de v =
     (case v of
        None \<Rightarrow> Some None
      | Some j \<Rightarrow> (case j of JNull \<Rightarrow> Some None | _ \<Rightarrow> map_option Some (de j)))"

text \<open>
  The fields of a struct: an object in which no known key occurs twice (unknown keys are ignored),
  or an array with a value for every field in declaration order.
\<close>

definition struct_fields :: "string list \<Rightarrow> value \<Rightarrow> (string \<Rightarrow> value option) option" where
  "struct_fields names j =
     (case j of
        JObj kvs \<Rightarrow>
          if distinct (filter (\<lambda>k. k \<in> set names) (map fst kvs)) then Some (map_of kvs) else None
      | JArr vs \<Rightarrow> if length vs = length names then Some (map_of (zip names vs)) else None
      | _ \<Rightarrow> None)"

lemma struct_fields_present:
  "distinct (map fst l) \<Longrightarrow>
   struct_fields names (JObj (present l)) = Some (\<lambda>k. Option.bind (map_of l k) (\<lambda>v. v))"
  by (auto simp: struct_fields_def distinct_present map_of_present distinct_filter)

text \<open>\<open>Value::get\<close> on an object (a map in which the last of equal keys wins).\<close>

definition json_get :: "value \<Rightarrow> string \<Rightarrow> value option" where
  "json_get j k = (case j of JObj kvs \<Rightarrow> map_of (rev kvs) k | _ \<Rightarrow> None)"

text \<open>A \<open>HashMap<String, T>\<close>: the last of equal keys wins.\<close>

definition ser_map :: "('a \<Rightarrow> value) \<Rightarrow> (string, 'a) hashmap \<Rightarrow> value" where
  "ser_map ser m = JObj (map (\<lambda>(k, v). (k, ser v)) m)"

fun de_pairs :: "(value \<Rightarrow> 'a option) \<Rightarrow> (string, 'a) hashmap \<Rightarrow> (string \<times> value) list \<Rightarrow> (string, 'a) hashmap option" where
  "de_pairs de m [] = Some m"
| "de_pairs de m ((k, v) # kvs) = do { x \<leftarrow> de v; de_pairs de (hm_insert k x m) kvs }"

definition de_map :: "(value \<Rightarrow> 'a option) \<Rightarrow> value \<Rightarrow> (string, 'a) hashmap option" where
  "de_map de j = (case j of JObj kvs \<Rightarrow> de_pairs de [] kvs | _ \<Rightarrow> None)"

lemma de_pairs_ok: "hm_ok m \<Longrightarrow> de_pairs de m kvs = Some m' \<Longrightarrow> hm_ok m'"
  by (induction de m kvs rule: de_pairs.induct) (auto simp: bind_eq_Some_conv)

lemma de_map_ok: "de_map de j = Some m \<Longrightarrow> hm_ok m"
  using de_pairs_ok [of "[]" de] by (auto simp: de_map_def split: json.splits)

lemma hm_insert_new: "k \<notin> set (map fst m) \<Longrightarrow> hm_insert k v m = m @ [(k, v)]"
  by (induction m) (auto simp: hm_insert_def)

lemma de_ser_map:
  assumes "hm_ok m" "\<And>v. de (map_json f (ser v)) = Some v"
  shows "de_map de (map_json f (ser_map ser m)) = Some m"
proof -
  have "distinct (map fst (a @ m)) \<Longrightarrow>
      de_pairs de a (map (map_prod (\<lambda>k. k) (map_json f)) (map (\<lambda>(k, v). (k, ser v)) m)) = Some (a @ m)" for a
  proof (induction m arbitrary: a)
    case (Cons p m)
    obtain k v where "p = (k, v)" by fastforce
    then show ?case
      using Cons.IH [of "a @ [(k, v)]"] Cons.prems assms(2) by (simp add: hm_insert_new)
  qed simp
  from this [of "[]"] show ?thesis
    using assms(1) by (simp add: de_map_def ser_map_def hm_ok_def comp_def case_prod_beta' map_prod_def)
qed

lemma req_simps [simp]: "req de None = None" "req de (Some j) = de j"
  by (simp_all add: req_def)

lemma opt_None [simp]: "opt de None = Some None"
  by (simp add: opt_def)

lemma opt_null [simp]: "opt de (Some JNull) = Some None"
  by (simp add: opt_def)

lemma opt_not_null: "j \<noteq> JNull \<Longrightarrow> opt de (Some j) = map_option Some (de j)"
  by (cases j) (simp_all add: opt_def)

lemma opt_map:
  "(\<And>x. x \<in> set_option v \<Longrightarrow> de (ser x) = Some (f x) \<and> ser x \<noteq> JNull) \<Longrightarrow>
   opt de (map_option ser v) = Some (map_option f v)"
  by (cases v) (auto simp: opt_def split: json.splits)

lemma de_list_map: "(\<And>x. x \<in> set xs \<Longrightarrow> de (ser x) = Some x) \<Longrightarrow> de_list de (map ser xs) = Some xs"
  by (induction xs) auto

lemma de_i32_sint [simp]: "de_i32 (JInt (sint (w :: i32))) = Some w"
  using sint_range_size [of w] by (simp add: word_size)

lemma de_u32_uint [simp]: "de_u32 (JInt (uint (w :: u32))) = Some w"
  using uint_bounded [of w] by simp

lemma de_u64_uint [simp]: "de_u64 (JInt (uint (w :: u64))) = Some w"
  using uint_bounded [of w] by simp

end
