(* ===== verification/Demo_Crates.thy ===== *)
theory Demo_Crates
  imports Json
begin

text \<open>
  A concrete choice of the third-party crates that satisfies what the model assumes of them, for
  the witnesses: a self-delimiting prefix code over the characters 0 and 1 stands for JSON text
  and for RFC 3339 text. Numbers are written in unary.
\<close>

fun enc_nat :: "nat \<Rightarrow> string" where
  "enc_nat 0 = ''0''"
| "enc_nat (Suc n) = CHR ''1'' # enc_nat n"

fun dec_nat :: "string \<Rightarrow> (nat \<times> string) option" where
  "dec_nat [] = None"
| "dec_nat (c # s) =
     (if c = CHR ''0'' then Some (0, s) else map_option (map_prod Suc id) (dec_nat s))"

definition enc_int :: "int \<Rightarrow> string" where
  "enc_int i = enc_nat (if i < 0 then 1 else 0) @ enc_nat (nat \<bar>i\<bar>)"

definition dec_int :: "string \<Rightarrow> (int \<times> string) option" where
  "dec_int s = do {
     (g, s1) \<leftarrow> dec_nat s;
     (n, s2) \<leftarrow> dec_nat s1;
     Some (if g = 1 then - int n else int n, s2) }"

fun enc_bytes :: "string \<Rightarrow> string" where
  "enc_bytes [] = enc_nat 0"
| "enc_bytes (c # s) = enc_nat (Suc (of_char c)) @ enc_bytes s"

fun dec_bytes :: "nat \<Rightarrow> string \<Rightarrow> (string \<times> string) option" where
  "dec_bytes 0 s = None"
| "dec_bytes (Suc fuel) s = do {
     (n, s1) \<leftarrow> dec_nat s;
     (case n of 0 \<Rightarrow> Some ([], s1)
      | Suc c \<Rightarrow> do { (r, s2) \<leftarrow> dec_bytes fuel s1; Some (char_of c # r, s2) }) }"

definition enc_f64 :: "f64 \<Rightarrow> string" where
  "enc_f64 x =
     (case x of
        NaN \<Rightarrow> enc_nat 0
      | Infinity s \<Rightarrow> enc_nat (if s then 1 else 2)
      | Finite m e \<Rightarrow> enc_nat 3 @ enc_int m @ enc_int e)"

definition dec_f64 :: "string \<Rightarrow> (f64 \<times> string) option" where
  "dec_f64 s = do {
     (g, s1) \<leftarrow> dec_nat s;
     (if g = 0 then Some (NaN, s1)
      else if g = 1 then Some (Infinity True, s1)
      else if g = 2 then Some (Infinity False, s1)
      else do { (m, s2) \<leftarrow> dec_int s1; (e, s3) \<leftarrow> dec_int s2; Some (Finite m e, s3) }) }"

fun enc_json :: "value \<Rightarrow> string" where
  "enc_json JNull = enc_nat 0"
| "enc_json (JBool b) = enc_nat 1 @ enc_nat (if b then 1 else 0)"
| "enc_json (JInt i) = enc_nat 2 @ enc_int i"
| "enc_json (JFloat x) = enc_nat 3 @ enc_f64 x"
| "enc_json (JStr s) = enc_nat 4 @ enc_bytes s"
| "enc_json (JArr vs) = enc_nat 5 @ concat (map (\<lambda>v. enc_nat 1 @ enc_json v) vs) @ enc_nat 0"
| "enc_json (JObj kvs) =
     enc_nat 6 @ concat (map (\<lambda>(k, v). enc_nat 1 @ enc_bytes k @ enc_json v) kvs) @ enc_nat 0"

text \<open>Decoding with fuel: one unit per nested value.\<close>

fun dec_json :: "nat \<Rightarrow> string \<Rightarrow> (value \<times> string) option"
  and dec_arr :: "nat \<Rightarrow> string \<Rightarrow> (value list \<times> string) option"
  and dec_obj :: "nat \<Rightarrow> string \<Rightarrow> ((string \<times> value) list \<times> string) option" where
  "dec_json 0 s = None"
| "dec_json (Suc fuel) s = do {
     (g, s1) \<leftarrow> dec_nat s;
     (if g = 0 then Some (JNull, s1)
      else if g = 1 then do { (b, s2) \<leftarrow> dec_nat s1; Some (JBool (b = 1), s2) }
      else if g = 2 then do { (i, s2) \<leftarrow> dec_int s1; Some (JInt i, s2) }
      else if g = 3 then do { (x, s2) \<leftarrow> dec_f64 s1; Some (JFloat x, s2) }
      else if g = 4 then do { (t, s2) \<leftarrow> dec_bytes (length s1) s1; Some (JStr t, s2) }
      else if g = 5 then do { (vs, s2) \<leftarrow> dec_arr fuel s1; Some (JArr vs, s2) }
      else if g = 6 then do { (kvs, s2) \<leftarrow> dec_obj fuel s1; Some (JObj kvs, s2) }
      else None) }"
| "dec_arr 0 s = None"
| "dec_arr (Suc fuel) s = do {
     (g, s1) \<leftarrow> dec_nat s;
     (if g = 0 then Some ([], s1)
      else do { (v, s2) \<leftarrow> dec_json fuel s1; (vs, s3) \<leftarrow> dec_arr fuel s2; Some (v # vs, s3) }) }"
| "dec_obj 0 s = None"
| "dec_obj (Suc fuel) s = do {
     (g, s1) \<leftarrow> dec_nat s;
     (if g = 0 then Some ([], s1)
      else do {
        (k, s2) \<leftarrow> dec_bytes (length s1) s1;
        (v, s3) \<leftarrow> dec_json fuel s2;
        (kvs, s4) \<leftarrow> dec_obj fuel s3;
        Some ((k, v) # kvs, s4) }) }"

definition decode_json :: "string \<Rightarrow> value option" where
  "decode_json s =
     (case dec_json (length s) s of Some (v, r) \<Rightarrow> if r = [] \<or> r = [newline] then Some v else None
      | None \<Rightarrow> None)"

definition demo_crates :: crates where
  "demo_crates = \<lparr>
     json_text = enc_json, json_pretty = enc_json, json_of_text = decode_json,
     reread = (\<lambda>x. x), rfc3339 = enc_int, of_rfc3339 = (\<lambda>s. map_option fst (dec_int s)),
     parse_from_rfc3339 = (\<lambda>s. map_option fst (dec_int s)),
     secs_ok = (\<lambda>s. \<bar>s\<bar> \<le> 9223372036854775),
     date_ok = (\<lambda>t. \<bar>t\<bar> \<le> 8210266876800000000000),
     cron_next = (\<lambda>e t. if length (split_whitespace e) \<in> {6, 7} then Some (Some (t + nanos 60)) else None),
     xxh64 = (\<lambda>s. of_nat (length s))\<rparr>"

section \<open>The code is faithful\<close>

lemma dec_enc_nat [simp]: "dec_nat (enc_nat n @ r) = Some (n, r)"
  by (induction n) simp_all

lemma length_enc_nat [simp]: "length (enc_nat n) = Suc n"
  by (induction n) simp_all

lemma dec_enc_int [simp]: "dec_int (enc_int i @ r) = Some (i, r)"
  by (simp add: dec_int_def enc_int_def)

lemma dec_enc_bytes: "length s < fuel \<Longrightarrow> dec_bytes fuel (enc_bytes s @ r) = Some (s, r)"
proof (induction s arbitrary: fuel)
  case Nil
  then show ?case using dec_enc_nat [of 0 r] by (cases fuel) simp_all
next
  case (Cons c s)
  obtain f where f: "fuel = Suc f" using Cons.prems by (cases fuel) auto
  have "dec_nat (enc_nat (Suc (of_char c)) @ enc_bytes s @ r) = Some (Suc (of_char c), enc_bytes s @ r)"
    by (rule dec_enc_nat)
  with Cons f show ?case by simp
qed

lemma length_enc_bytes: "length s < length (enc_bytes s)"
  by (induction s) simp_all

lemma dec_enc_bytes_len [simp]:
  "dec_bytes (length (enc_bytes s) + n) (enc_bytes s @ r) = Some (s, r)"
  using length_enc_bytes [of s] by (intro dec_enc_bytes) simp

lemma dec_enc_f64 [simp]: "dec_f64 (enc_f64 x @ r) = Some (x, r)"
  by (cases x) (simp_all add: dec_f64_def enc_f64_def del: enc_nat.simps)

lemma dec_enc_arr:
  assumes "\<And>v f q. v \<in> set vs \<Longrightarrow> length (enc_json v) \<le> f \<Longrightarrow> dec_json f (enc_json v @ q) = Some (v, q)"
    and "length (concat (map (\<lambda>v. enc_nat 1 @ enc_json v) vs)) < fuel"
  shows "dec_arr fuel (concat (map (\<lambda>v. enc_nat 1 @ enc_json v) vs) @ enc_nat 0 @ r) = Some (vs, r)"
  using assms
proof (induction vs arbitrary: fuel)
  case Nil
  then obtain f where "fuel = Suc f" by (cases fuel) auto
  then show ?case by simp
next
  case (Cons v vs)
  obtain f where f: "fuel = Suc f" using Cons.prems by (cases fuel) auto
  let ?rest = "concat (map (\<lambda>v. enc_nat 1 @ enc_json v) vs) @ enc_nat 0 @ r"
  have "dec_json f (enc_json v @ ?rest) = Some (v, ?rest)"
    using Cons.prems f by (intro Cons.prems(1)) simp_all
  moreover have "dec_arr f ?rest = Some (vs, r)"
    using Cons.prems f by (intro Cons.IH) simp_all
  ultimately show ?case by (simp add: f)
qed

lemma dec_enc_obj:
  assumes "\<And>k v f q. (k, v) \<in> set kvs \<Longrightarrow> length (enc_json v) \<le> f \<Longrightarrow>
      dec_json f (enc_json v @ q) = Some (v, q)"
    and "length (concat (map (\<lambda>(k, v). enc_nat 1 @ enc_bytes k @ enc_json v) kvs)) < fuel"
  shows "dec_obj fuel (concat (map (\<lambda>(k, v). enc_nat 1 @ enc_bytes k @ enc_json v) kvs) @ enc_nat 0 @ r)
    = Some (kvs, r)"
  using assms
proof (induction kvs arbitrary: fuel)
  case Nil
  then obtain f where "fuel = Suc f" by (cases fuel) auto
  then show ?case by simp
next
  case (Cons p kvs)
  obtain k v where p: "p = (k, v)" by fastforce
  obtain f where f: "fuel = Suc f" using Cons.prems by (cases fuel) auto
  let ?rest = "concat (map (\<lambda>(k, v). enc_nat 1 @ enc_bytes k @ enc_json v) kvs) @ enc_nat 0 @ r"
  have "dec_json f (enc_json v @ ?rest) = Some (v, ?rest)"
    using Cons.prems(2) f p by (intro Cons.prems(1) [of k]) simp_all
  moreover have "dec_obj f ?rest = Some (kvs, r)"
  proof (rule Cons.IH)
    fix k' v' g q
    assume "(k', v') \<in> set kvs" "length (enc_json v') \<le> g"
    then show "dec_json g (enc_json v' @ q) = Some (v', q)"
      by (intro Cons.prems(1) [of k']) simp_all
  qed (use Cons.prems(2) f p in simp)
  moreover have "dec_bytes (length (enc_bytes k @ enc_json v @ ?rest)) (enc_bytes k @ enc_json v @ ?rest)
      = Some (k, enc_json v @ ?rest)"
    by (simp only: length_append dec_enc_bytes_len)
  ultimately show ?case by (simp add: f p)
qed

lemma dec_enc_json: "length (enc_json j) \<le> fuel \<Longrightarrow> dec_json fuel (enc_json j @ r) = Some (j, r)"
proof (induction j arbitrary: fuel r)
  case (JArr vs)
  then obtain f where f: "fuel = Suc f" by (cases fuel) auto
  have "dec_arr f (concat (map (\<lambda>v. enc_nat 1 @ enc_json v) vs) @ enc_nat 0 @ r) = Some (vs, r)"
    using JArr f by (intro dec_enc_arr) simp_all
  then show ?case by (simp add: f del: enc_nat.simps)
next
  case (JObj kvs)
  then obtain f where f: "fuel = Suc f" by (cases fuel) auto
  have "dec_obj f (concat (map (\<lambda>(k, v). enc_nat 1 @ enc_bytes k @ enc_json v) kvs) @ enc_nat 0 @ r)
      = Some (kvs, r)"
  proof (rule dec_enc_obj)
    fix k v g q
    assume m: "(k, v) \<in> set kvs" and l: "length (enc_json v) \<le> g"
    show "dec_json g (enc_json v @ q) = Some (v, q)"
      using JObj.IH [OF m, of v] l by (simp add: snds.intros)
  qed (use JObj.prems f in simp)
  then show ?case by (simp add: f del: enc_nat.simps)
next
  case (JStr t)
  then obtain f where f: "fuel = Suc f" by (cases fuel) auto
  have "dec_bytes (length (enc_bytes t @ r)) (enc_bytes t @ r) = Some (t, r)"
    by (simp only: length_append dec_enc_bytes_len)
  then show ?case by (simp add: f del: enc_nat.simps)
qed ((case_tac fuel; simp del: enc_nat.simps)+)

lemma decode_enc_json [simp]:
  "decode_json (enc_json j) = Some j" "decode_json (enc_json j @ [newline]) = Some j"
  using dec_enc_json [of j "length (enc_json j)" "[]"]
    dec_enc_json [of j "length (enc_json j @ [newline])" "[newline]"] by (simp_all add: decode_json_def)

definition binary :: "string \<Rightarrow> bool" where
  "binary s = (set s \<subseteq> {CHR ''0'', CHR ''1''})"

lemma binary_append [simp]: "binary (s @ t) \<longleftrightarrow> binary s \<and> binary t"
  by (auto simp: binary_def)

lemma binary_concat [simp]: "binary (concat xs) \<longleftrightarrow> (\<forall>x \<in> set xs. binary x)"
  by (auto simp: binary_def)

lemma binary_enc_nat [simp]: "binary (enc_nat n)"
  by (induction n) (auto simp: binary_def)

lemma binary_enc_int [simp]: "binary (enc_int i)"
  by (simp add: enc_int_def del: enc_nat.simps)

lemma binary_enc_bytes [simp]: "binary (enc_bytes s)"
  by (induction s) (simp_all del: enc_nat.simps)

lemma binary_enc_json: "binary (enc_json j)"
  by (induction j)
    (auto simp: enc_f64_def simp del: enc_nat.simps split: f64.split)

lemma enc_json_not_Nil: "enc_json j \<noteq> []"
  by (cases j) (simp_all flip: length_0_conv)

lemma binary_no_head:
  assumes "\<forall>w \<in> set ws. w \<noteq> [] \<longrightarrow> hd w \<notin> {CHR ''0'', CHR ''1''}" "binary s"
  shows "head_ws ws s = None"
proof -
  have "\<not> prefix w s" if "w \<in> set ws" "w \<noteq> []" for w
    using assms that by (cases s; cases w) (force simp: binary_def)+
  then show ?thesis by (simp add: head_ws_None)
qed

lemma binary_head_ws: "binary s \<Longrightarrow> head_ws ws_chars s = None"
  by (rule binary_no_head) (simp_all add: ws_chars_def)

lemma binary_head_rev_ws: "binary s \<Longrightarrow> head_ws (map rev ws_chars) (rev s) = None"
  by (rule binary_no_head) (simp_all add: ws_chars_def binary_def)

lemma binary_not_blank: "binary s \<Longrightarrow> s \<noteq> [] \<Longrightarrow> \<not> blank_line s"
  by (simp add: blank_line_def trim_def trim_start_def trim_end_def strip_front_fix
      binary_head_ws binary_head_rev_ws)

lemma binary_clean: "binary s \<Longrightarrow> clean_line s"
  by (cases s rule: rev_cases) (auto simp: clean_line_def binary_def newline_def carriage_return_def)

lemma binary_utf8: "binary s \<Longrightarrow> utf8_valid s"
  by (intro utf8_ascii) (auto simp: binary_def)

lemma serde_ok_demo: "serde_ok demo_crates"
  using dec_enc_int [where r = "[]"]
  by (simp add: serde_ok_def demo_crates_def binary_clean binary_utf8 binary_not_blank
      binary_enc_json enc_json_not_Nil json.map_ident)

end
