(* ===== verification/Binary_Heap.thy ===== *)
theory Binary_Heap
  imports Prelude
begin

text \<open>
  \<open>std::collections::BinaryHeap\<close>, the pool queues of \<open>queue.rs\<close>: an implicit max-heap in a vector.
  \<open>push\<close> appends and sifts up; \<open>pop\<close> takes the last element, swaps it with the root, moves it down
  to a leaf along the greater children and sifts it up again. The contract of a priority queue is
  stated as two locales, the second of which needs a total preorder on the elements.
\<close>

section \<open>Contracts\<close>

locale multiset_queue =
  fixes push :: "'q \<Rightarrow> 'a \<Rightarrow> 'q"
    and pop :: "'q \<Rightarrow> ('a \<times> 'q) option"
    and elems :: "'q \<Rightarrow> 'a multiset"
  assumes elems_push: "elems (push q x) = add_mset x (elems q)"
    and pop_None: "pop q = None \<longleftrightarrow> elems q = {#}"
    and pop_elems: "pop q = Some (x, q') \<Longrightarrow> elems q = add_mset x (elems q')"
begin

lemma pop_mem: "pop q = Some (x, q') \<Longrightarrow> x \<in># elems q"
  by (simp add: pop_elems)

lemma pop_size: "pop q = Some (x, q') \<Longrightarrow> size (elems q) = Suc (size (elems q'))"
  by (simp add: pop_elems)

lemma pop_some_nonempty: "elems q \<noteq> {#} \<Longrightarrow> \<exists>x q'. pop q = Some (x, q')"
  using pop_None [of q] by (cases "pop q") auto

lemma elems_push_all: "elems (foldl push q xs) = elems q + mset xs"
  by (induction xs arbitrary: q) (simp_all add: elems_push)

end

definition preorder_on_set :: "('a \<Rightarrow> 'a \<Rightarrow> bool) \<Rightarrow> 'a set \<Rightarrow> bool" where
  "preorder_on_set le S \<longleftrightarrow>
     (\<forall>x \<in> S. \<forall>y \<in> S. le x y \<or> le y x) \<and>
     (\<forall>x \<in> S. \<forall>y \<in> S. \<forall>z \<in> S. le x y \<longrightarrow> le y z \<longrightarrow> le x z)"

lemma preorder_on_set_subset: "preorder_on_set le S \<Longrightarrow> T \<subseteq> S \<Longrightarrow> preorder_on_set le T"
  unfolding preorder_on_set_def by blast

locale priority_queue = multiset_queue push pop elems
  for push :: "'q \<Rightarrow> 'a \<Rightarrow> 'q" and pop :: "'q \<Rightarrow> ('a \<times> 'q) option" and elems :: "'q \<Rightarrow> 'a multiset" +
  fixes le :: "'a \<Rightarrow> 'a \<Rightarrow> bool"
    and inv :: "'q \<Rightarrow> bool"
  assumes inv_push: "preorder_on_set le (insert x (set_mset (elems q))) \<Longrightarrow> inv q \<Longrightarrow> inv (push q x)"
    and inv_pop: "preorder_on_set le (set_mset (elems q)) \<Longrightarrow> inv q \<Longrightarrow> pop q = Some (x, q') \<Longrightarrow> inv q'"
    and pop_max: "preorder_on_set le (set_mset (elems q)) \<Longrightarrow> inv q \<Longrightarrow> pop q = Some (x, q') \<Longrightarrow>
      y \<in># elems q \<Longrightarrow> le y x"
begin

lemma inv_push_all:
  "preorder_on_set le (set_mset (elems q) \<union> set xs) \<Longrightarrow> inv q \<Longrightarrow> inv (foldl push q xs)"
proof (induction xs arbitrary: q)
  case (Cons x xs)
  have "preorder_on_set le (insert x (set_mset (elems q)))"
    by (rule preorder_on_set_subset [OF Cons.prems(1)]) auto
  then have "inv (push q x)"
    using Cons.prems(2) by (rule inv_push)
  moreover have "preorder_on_set le (set_mset (elems (push q x)) \<union> set xs)"
    using Cons.prems(1) by (simp add: elems_push)
  ultimately show ?case using Cons.IH by simp
qed simp

text \<open>What is popped next is never above what was popped before.\<close>

lemma pop_pop_le:
  assumes "preorder_on_set le (set_mset (elems q))" "inv q"
    and "pop q = Some (x, q')" "pop q' = Some (y, q'')"
  shows "le y x"
  using assms pop_max [of q x q' y] pop_elems [OF assms(3)] pop_mem [OF assms(4)] by simp

end

text \<open>Popping until the queue is empty; \<open>n\<close> bounds the number of pops.\<close>

fun drain :: "('q \<Rightarrow> ('a \<times> 'q) option) \<Rightarrow> nat \<Rightarrow> 'q \<Rightarrow> 'a list" where
  "drain pop 0 q = []"
| "drain pop (Suc n) q = (case pop q of None \<Rightarrow> [] | Some (x, q') \<Rightarrow> x # drain pop n q')"

context multiset_queue begin

lemma drain_mset: "size (elems q) \<le> n \<Longrightarrow> mset (drain pop n q) = elems q"
proof (induction n arbitrary: q)
  case 0
  then show ?case by simp
next
  case (Suc n)
  show ?case
  proof (cases "pop q")
    case None
    then show ?thesis using pop_None [of q] by simp
  next
    case (Some p)
    obtain x q' where p: "p = (x, q')" by fastforce
    with Some have "elems q = add_mset x (elems q')" by (simp add: pop_elems)
    with Suc Some p show ?thesis by simp
  qed
qed

end

context priority_queue begin

lemma drain_sorted:
  "preorder_on_set le (set_mset (elems q)) \<Longrightarrow> inv q \<Longrightarrow> size (elems q) \<le> n \<Longrightarrow>
   sorted_wrt (\<lambda>x y. le y x) (drain pop n q)"
proof (induction n arbitrary: q)
  case (Suc n)
  show ?case
  proof (cases "pop q")
    case (Some p)
    obtain x q' where p: "pop q = Some (x, q')" using Some by (cases p) simp
    note el = pop_elems [OF p]
    have pre: "preorder_on_set le (set_mset (elems q'))"
      by (rule preorder_on_set_subset [OF Suc.prems(1)]) (auto simp: el)
    have sz: "size (elems q') \<le> n" using Suc.prems(3) by (simp add: el)
    have "sorted_wrt (\<lambda>x y. le y x) (drain pop n q')"
      using Suc.IH pre inv_pop [OF Suc.prems(1,2) p] sz by blast
    moreover have "\<forall>y \<in> set (drain pop n q'). le y x"
      using pop_max [OF Suc.prems(1,2) p] drain_mset [OF sz] by (auto simp: el simp flip: set_mset_mset)
    ultimately show ?thesis by (simp add: p)
  qed simp
qed simp

end

section \<open>The heap in a vector\<close>

definition swap :: "'a list \<Rightarrow> nat \<Rightarrow> nat \<Rightarrow> 'a list" where
  "swap v i j = v[i := v ! j, j := v ! i]"

definition parent :: "nat \<Rightarrow> nat" where
  "parent i = (i - 1) div 2"

lemma parent_less: "0 < i \<Longrightarrow> parent i < i"
  by (auto simp: parent_def)

function sift_up :: "('a \<Rightarrow> 'a \<Rightarrow> bool) \<Rightarrow> 'a list \<Rightarrow> nat \<Rightarrow> 'a list" where
  "sift_up le v pos =
     (if pos = 0 then v
      else if le (v ! pos) (v ! parent pos) then v
      else sift_up le (swap v pos (parent pos)) (parent pos))"
  by pat_completeness auto
termination
  by (relation "measure (\<lambda>(le, v, pos). pos)") (auto simp: parent_less)

declare sift_up.simps [simp del]

text \<open>The way down: to the greater of two children, then to an only child, if there is one.\<close>

function descend :: "('a \<Rightarrow> 'a \<Rightarrow> bool) \<Rightarrow> 'a list \<Rightarrow> nat \<Rightarrow> 'a list \<times> nat" where
  "descend le v pos =
     (let child = 2 * pos + 1 in
      if child + 1 < length v then
        let c = (if le (v ! child) (v ! (child + 1)) then child + 1 else child)
        in descend le (swap v pos c) c
      else if child + 1 = length v then (swap v pos child, child)
      else (v, pos))"
  by pat_completeness auto
termination
  by (relation "measure (\<lambda>(le, v, pos). length v - pos)") (auto simp: swap_def Let_def)

declare descend.simps [simp del]

definition sift_down_to_bottom :: "('a \<Rightarrow> 'a \<Rightarrow> bool) \<Rightarrow> 'a list \<Rightarrow> 'a list" where
  "sift_down_to_bottom le v = (case descend le v 0 of (v', pos) \<Rightarrow> sift_up le v' pos)"

definition heap_push :: "('a \<Rightarrow> 'a \<Rightarrow> bool) \<Rightarrow> 'a list \<Rightarrow> 'a \<Rightarrow> 'a list" where
  "heap_push le v x = sift_up le (v @ [x]) (length v)"

definition heap_pop :: "('a \<Rightarrow> 'a \<Rightarrow> bool) \<Rightarrow> 'a list \<Rightarrow> ('a \<times> 'a list) option" where
  "heap_pop le v =
     (if v = [] then None
      else let x = last v; v' = butlast v in
        if v' = [] then Some (x, [])
        else Some (v' ! 0, sift_down_to_bottom le (v'[0 := x])))"

definition heap_inv :: "('a \<Rightarrow> 'a \<Rightarrow> bool) \<Rightarrow> 'a list \<Rightarrow> bool" where
  "heap_inv le v = (\<forall>i < length v. 0 < i \<longrightarrow> le (v ! i) (v ! parent i))"

section \<open>What the vector holds\<close>

lemma length_swap [simp]: "length (swap v i j) = length v"
  by (simp add: swap_def)

lemma mset_swap_eq: "i < length v \<Longrightarrow> j < length v \<Longrightarrow> mset (swap v i j) = mset v"
  by (simp add: swap_def mset_swap)

lemma nth_swap:
  "i < length v \<Longrightarrow> j < length v \<Longrightarrow> k < length v \<Longrightarrow>
   swap v i j ! k = (if k = j then v ! i else if k = i then v ! j else v ! k)"
  by (auto simp: swap_def nth_list_update)

lemma mset_sift_up: "pos < length v \<Longrightarrow> mset (sift_up le v pos) = mset v"
proof (induction le v pos rule: sift_up.induct)
  case (1 le v pos)
  have "parent pos < length v" if "pos \<noteq> 0"
    using parent_less [of pos] that "1.prems" by simp
  with "1" show ?case
    by (simp add: sift_up.simps [of le v pos] mset_swap_eq)
qed

definition greater_child :: "('a \<Rightarrow> 'a \<Rightarrow> bool) \<Rightarrow> 'a list \<Rightarrow> nat \<Rightarrow> nat" where
  "greater_child le v pos =
     (if le (v ! (2 * pos + 1)) (v ! (2 * pos + 2)) then 2 * pos + 2 else 2 * pos + 1)"

lemma descend_two:
  "2 * pos + 2 < length v \<Longrightarrow>
   descend le v pos = descend le (swap v pos (greater_child le v pos)) (greater_child le v pos)"
  by (subst descend.simps) (simp add: Let_def greater_child_def)

lemma descend_one: "2 * pos + 2 = length v \<Longrightarrow>
   descend le v pos = (swap v pos (2 * pos + 1), 2 * pos + 1)"
  by (subst descend.simps) (simp add: Let_def)

lemma descend_leaf: "length v < 2 * pos + 2 \<Longrightarrow> descend le v pos = (v, pos)"
  by (subst descend.simps) (simp add: Let_def)

lemma greater_child_bounds:
  "2 * pos + 2 < length v \<Longrightarrow> pos < greater_child le v pos \<and> greater_child le v pos < length v"
  by (simp add: greater_child_def)

lemma descend_facts:
  "pos < length v \<Longrightarrow> descend le v pos = (v', pos') \<Longrightarrow>
   mset v' = mset v \<and> pos' < length v'"
proof (induction "length v - pos" arbitrary: v pos rule: less_induct)
  case less
  consider "2 * pos + 2 < length v" | "2 * pos + 2 = length v" | "length v < 2 * pos + 2"
    by linarith
  then show ?case
  proof cases
    case 1
    let ?c = "greater_child le v pos"
    note c = greater_child_bounds [OF 1, of le]
    have "mset v' = mset (swap v pos ?c) \<and> pos' < length v'"
      using less.hyps [of "swap v pos ?c" ?c] less.prems c
      by (simp add: descend_two [OF 1] diff_less_mono2)
    with c less.prems(1) show ?thesis by (simp add: mset_swap_eq)
  next
    case 2
    have "v' = swap v pos (2 * pos + 1)" "pos' = 2 * pos + 1"
      using less.prems(2) by (auto simp: descend_one [OF 2])
    with 2 less.prems(1) show ?thesis by (simp add: mset_swap_eq)
  next
    case 3
    with less.prems show ?thesis by (simp add: descend_leaf [OF 3])
  qed
qed

lemma mset_sift_down: "v \<noteq> [] \<Longrightarrow> mset (sift_down_to_bottom le v) = mset v"
proof -
  assume "v \<noteq> []"
  obtain v' pos where d: "descend le v 0 = (v', pos)" by fastforce
  with \<open>v \<noteq> []\<close> have "mset v' = mset v" "pos < length v'"
    using descend_facts [of 0 v le v' pos] by auto
  with d show ?thesis by (simp add: sift_down_to_bottom_def mset_sift_up)
qed

lemma mset_heap_push: "mset (heap_push le v x) = add_mset x (mset v)"
  by (simp add: heap_push_def mset_sift_up)

lemma heap_pop_None: "heap_pop le v = None \<longleftrightarrow> mset v = {#}"
  by (simp add: heap_pop_def Let_def)

lemma heap_pop_snoc:
  "heap_pop le (a # vs @ [x]) = Some (a, sift_down_to_bottom le (x # vs))"
  by (simp add: heap_pop_def Let_def butlast_append)

lemma heap_pop_single [simp]: "heap_pop le [x] = Some (x, [])"
  by (simp add: heap_pop_def)

lemma heap_cases:
  obtains "v = []" | x where "v = [x]" | a vs x where "v = a # vs @ [x]"
  by (metis rev_exhaust append_Cons append_Nil list.exhaust)

lemma heap_pop_mset: "heap_pop le v = Some (x, v') \<Longrightarrow> mset v = add_mset x (mset v')"
  by (cases v rule: heap_cases) (auto simp: heap_pop_snoc mset_sift_down heap_pop_def)

interpretation heap: multiset_queue "heap_push le" "heap_pop le" mset for le
  by unfold_locales (simp_all add: mset_heap_push heap_pop_None heap_pop_mset)

section \<open>The order of the vector\<close>

text \<open>
  The heap condition everywhere but between \<open>pos\<close> and its parent, and the condition that holds
  while the element at \<open>pos\<close> moves down: nothing is known of it, and its children are below its
  parent.
\<close>

definition heap_up :: "('a \<Rightarrow> 'a \<Rightarrow> bool) \<Rightarrow> 'a list \<Rightarrow> nat \<Rightarrow> bool" where
  "heap_up le v pos \<longleftrightarrow>
     (\<forall>i < length v. 0 < i \<longrightarrow> i \<noteq> pos \<longrightarrow> le (v ! i) (v ! parent i)) \<and>
     (\<forall>i < length v. 0 < i \<longrightarrow> parent i = pos \<longrightarrow> 0 < pos \<longrightarrow> le (v ! i) (v ! parent pos))"

definition heap_hole :: "('a \<Rightarrow> 'a \<Rightarrow> bool) \<Rightarrow> 'a list \<Rightarrow> nat \<Rightarrow> bool" where
  "heap_hole le v pos \<longleftrightarrow>
     (\<forall>i < length v. 0 < i \<longrightarrow> i \<noteq> pos \<longrightarrow> parent i \<noteq> pos \<longrightarrow> le (v ! i) (v ! parent i)) \<and>
     (\<forall>i < length v. 0 < i \<longrightarrow> parent i = pos \<longrightarrow> 0 < pos \<longrightarrow> le (v ! i) (v ! parent pos))"

lemma preorder_nth:
  assumes "preorder_on_set le (set v)"
  shows "i < length v \<Longrightarrow> j < length v \<Longrightarrow> le (v ! i) (v ! j) \<or> le (v ! j) (v ! i)"
    and "i < length v \<Longrightarrow> j < length v \<Longrightarrow> k < length v \<Longrightarrow>
      le (v ! i) (v ! j) \<Longrightarrow> le (v ! j) (v ! k) \<Longrightarrow> le (v ! i) (v ! k)"
  using assms unfolding preorder_on_set_def by (meson nth_mem)+

lemma set_swap: "i < length v \<Longrightarrow> j < length v \<Longrightarrow> set (swap v i j) = set v"
  by (metis mset_swap_eq set_mset_mset)

lemma heap_up_step:
  assumes pre: "preorder_on_set le (set v)" and up: "heap_up le v pos"
    and pos: "pos < length v" "pos \<noteq> 0" and gt: "\<not> le (v ! pos) (v ! parent pos)"
  shows "heap_up le (swap v pos (parent pos)) (parent pos)"
proof -
  let ?p = "parent pos" and ?w = "swap v pos (parent pos)"
  have p: "?p < pos" using pos(2) by (simp add: parent_less)
  have pl: "?p < length v" using p pos(1) by simp
  have le_p: "le (v ! ?p) (v ! pos)" using preorder_nth(1) [OF pre pl pos(1)] gt by blast
  have w: "?w ! k = (if k = ?p then v ! pos else if k = pos then v ! ?p else v ! k)"
    if "k < length v" for k using that pos(1) pl by (simp add: nth_swap)
  have par: "parent i < length v" if "0 < i" "i < length v" for i
    using parent_less [OF that(1)] that(2) by simp
  show ?thesis
    unfolding heap_up_def
  proof (intro conjI allI impI)
    fix i assume i: "i < length ?w" "0 < i" "i \<noteq> ?p"
    then have il: "i < length v" by simp
    have h: "i \<noteq> pos \<Longrightarrow> le (v ! i) (v ! parent i)" using up il i(2) by (simp add: heap_up_def)
    have c: "parent i = pos \<Longrightarrow> le (v ! i) (v ! ?p)"
      using up il i(2) pos(2) by (simp add: heap_up_def)
    show "le (?w ! i) (?w ! parent i)"
    proof (cases "i = pos")
      case True
      then show ?thesis using le_p i(3) by (simp add: w pl pos(1))
    next
      case False
      have "parent i = ?p \<Longrightarrow> le (v ! i) (v ! pos)"
        using preorder_nth(2) [OF pre il pl pos(1)] h [OF False] le_p by simp
      then show ?thesis
        using False i(3) h [OF False] c p by (simp add: w il par [OF i(2) il])
    qed
  next
    fix i assume i: "i < length ?w" "0 < i" "parent i = ?p" "0 < ?p"
    then have il: "i < length v" by simp
    have gp: "parent ?p < ?p" using i(4) by (rule parent_less)
    have gl: "parent ?p < length v" using gp pl by simp
    have hp: "le (v ! ?p) (v ! parent ?p)"
      using up pl i(4) p by (simp add: heap_up_def)
    have ip: "i \<noteq> ?p" using i(3) parent_less [OF i(2)] by auto
    have "i \<noteq> pos \<Longrightarrow> le (v ! i) (v ! ?p)"
      using up il i(2,3) unfolding heap_up_def by metis
    then have "i \<noteq> pos \<Longrightarrow> le (v ! i) (v ! parent ?p)"
      using preorder_nth(2) [OF pre il pl gl] hp by blast
    then show "le (?w ! i) (?w ! parent ?p)"
      using hp ip gp p by (simp add: w il gl)
  qed
qed

lemma sift_up_heap:
  "preorder_on_set le (set v) \<Longrightarrow> heap_up le v pos \<Longrightarrow> pos < length v \<Longrightarrow>
   heap_inv le (sift_up le v pos)"
proof (induction le v pos rule: sift_up.induct)
  case (1 le v pos)
  show ?case
  proof (cases "pos = 0 \<or> le (v ! pos) (v ! parent pos)")
    case True
    with "1.prems"(2) have "heap_inv le v" by (auto simp: heap_up_def heap_inv_def)
    with True show ?thesis by (auto simp: sift_up.simps [of le v pos])
  next
    case False
    let ?w = "swap v pos (parent pos)"
    have pl: "parent pos < length v" using parent_less [of pos] False "1.prems"(3) by simp
    have "heap_inv le (sift_up le ?w (parent pos))"
      using False "1.prems" pl heap_up_step [of le v pos] by (intro "1.IH") (simp_all add: set_swap)
    with False show ?thesis by (simp add: sift_up.simps [of le v pos])
  qed
qed

lemma parent_children: "0 < i \<Longrightarrow> parent i = pos \<longleftrightarrow> i = 2 * pos + 1 \<or> i = 2 * pos + 2"
  unfolding parent_def by presburger

lemma heap_hole_swap:
  assumes hole: "heap_hole le v pos" and c: "c < length v" "parent c = pos" "0 < c"
    and sib: "\<And>i. i < length v \<Longrightarrow> 0 < i \<Longrightarrow> parent i = pos \<Longrightarrow> i \<noteq> c \<Longrightarrow> le (v ! i) (v ! c)"
  shows "heap_hole le (swap v pos c) c"
proof -
  have pc: "pos < c" using parent_less [OF c(3)] c(2) by simp
  have pl: "pos < length v" using pc c(1) by simp
  have w: "swap v pos c ! k = (if k = c then v ! pos else if k = pos then v ! c else v ! k)"
    if "k < length v" for k using that pl c(1) by (simp add: nth_swap)
  have par: "parent i < length v" if "0 < i" "i < length v" for i
    using parent_less [OF that(1)] that(2) by simp
  show ?thesis
    unfolding heap_hole_def
  proof (intro conjI allI impI)
    fix i assume i: "i < length (swap v pos c)" "0 < i" "i \<noteq> c" "parent i \<noteq> c"
    then have il: "i < length v" by simp
    have "i = pos \<Longrightarrow> le (v ! c) (v ! parent i)"
      using hole c i(2) by (simp add: heap_hole_def)
    moreover have "parent i = pos \<Longrightarrow> le (v ! i) (v ! c)" using sib il i by blast
    moreover have "i \<noteq> pos \<Longrightarrow> parent i \<noteq> pos \<Longrightarrow> le (v ! i) (v ! parent i)"
      using hole il i(2) by (simp add: heap_hole_def)
    ultimately show "le (swap v pos c ! i) (swap v pos c ! parent i)"
      using i(3,4) parent_less [OF i(2)] by (auto simp: w il par [OF i(2) il])
  next
    fix i assume i: "i < length (swap v pos c)" "0 < i" "parent i = c" "0 < c"
    then have il: "i < length v" and ic: "c < i" using parent_less [OF i(2)] by simp_all
    have "le (v ! i) (v ! c)"
      using hole il i(2,3) pc ic by (auto simp: heap_hole_def)
    then show "le (swap v pos c ! i) (swap v pos c ! parent c)"
      using ic pc c(2) by (simp add: w il pl)
  qed
qed

lemma heap_hole_leaf: "heap_hole le v pos \<Longrightarrow> length v \<le> 2 * pos + 1 \<Longrightarrow> heap_up le v pos"
  unfolding heap_hole_def heap_up_def by (auto simp: parent_children)

lemma descend_heap:
  "preorder_on_set le (set v) \<Longrightarrow> heap_hole le v pos \<Longrightarrow> pos < length v \<Longrightarrow>
   descend le v pos = (v', pos') \<Longrightarrow> heap_up le v' pos'"
proof (induction "length v - pos" arbitrary: v pos rule: less_induct)
  case less
  consider "2 * pos + 2 < length v" | "2 * pos + 2 = length v" | "length v < 2 * pos + 2"
    by linarith
  then show ?case
  proof cases
    case 1
    let ?c = "greater_child le v pos"
    note c = greater_child_bounds [OF 1, of le]
    have pc: "parent ?c = pos" "0 < ?c" by (auto simp: greater_child_def parent_def)
    have "heap_hole le (swap v pos ?c) ?c"
    proof (rule heap_hole_swap [OF less.prems(2) _ pc])
      fix i assume "i < length v" "0 < i" "parent i = pos" "i \<noteq> ?c"
      then show "le (v ! i) (v ! ?c)"
        using preorder_nth(1) [OF less.prems(1), of "2 * pos + 1" "2 * pos + 2"] 1
        by (auto simp: parent_children greater_child_def split: if_splits)
    qed (use c in simp)
    then show ?thesis
      using less.hyps [of "swap v pos ?c" ?c] less.prems c
      by (simp add: descend_two [OF 1] set_swap diff_less_mono2)
  next
    case 2
    let ?c = "2 * pos + 1"
    have "heap_hole le (swap v pos ?c) ?c"
      by (rule heap_hole_swap [OF less.prems(2)]) (use 2 in \<open>auto simp: parent_children parent_def\<close>)
    then have "heap_up le (swap v pos ?c) ?c"
      by (rule heap_hole_leaf) (use 2 in simp)
    with less.prems(4) show ?thesis by (auto simp: descend_one [OF 2])
  next
    case 3
    with less.prems show ?thesis by (auto simp: descend_leaf [OF 3] intro: heap_hole_leaf)
  qed
qed

lemma heap_root_max:
  assumes "preorder_on_set le (set v)" "heap_inv le v" "i < length v"
  shows "le (v ! i) (v ! 0)"
  using assms(3)
proof (induction i rule: less_induct)
  case (less i)
  show ?case
  proof (cases "i = 0")
    case True
    then show ?thesis using preorder_nth(1) [OF assms(1) less.prems less.prems] by simp
  next
    case False
    then have p: "parent i < i" by (simp add: parent_less)
    then have pl: "parent i < length v" using less.prems by simp
    have "le (v ! parent i) (v ! 0)" using less.IH [OF p pl] .
    moreover have "le (v ! i) (v ! parent i)"
      using assms(2) less.prems False by (simp add: heap_inv_def)
    ultimately show ?thesis
      using preorder_nth(2) [OF assms(1) less.prems pl, of 0] pl by fastforce
  qed
qed

lemma heap_push_inv:
  assumes "preorder_on_set le (insert x (set v))" "heap_inv le v"
  shows "heap_inv le (heap_push le v x)"
proof -
  have par: "parent i < length v" if "0 < i" "i < Suc (length v)" for i
    using parent_less [OF that(1)] that(2) by simp
  have "heap_up le (v @ [x]) (length v)"
    using assms(2) par
    by (auto simp: heap_up_def heap_inv_def nth_append parent_children)
  moreover have "preorder_on_set le (set (v @ [x]))" using assms(1) by simp
  ultimately show ?thesis unfolding heap_push_def by (intro sift_up_heap) simp_all
qed

lemma sift_down_inv:
  assumes "preorder_on_set le (set (x # vs))" "heap_inv le (a # vs)"
  shows "heap_inv le (sift_down_to_bottom le (x # vs))"
proof -
  obtain v' pos where d: "descend le (x # vs) 0 = (v', pos)" by fastforce
  have "heap_hole le (x # vs) 0"
    using assms(2) by (auto simp: heap_hole_def heap_inv_def nth_Cons split: nat.splits)
  then have up: "heap_up le v' pos" using descend_heap [OF assms(1) _ _ d] by simp
  have f: "mset v' = mset (x # vs)" "pos < length v'" using descend_facts [OF _ d] by auto
  then have "set v' = set (x # vs)" by (metis set_mset_mset)
  with up f(2) assms(1) have "heap_inv le (sift_up le v' pos)" by (intro sift_up_heap) auto
  with d show ?thesis by (simp add: sift_down_to_bottom_def)
qed

lemma heap_inv_butlast: "heap_inv le (v @ [x]) \<Longrightarrow> heap_inv le v"
proof -
  assume h: "heap_inv le (v @ [x])"
  have "le (v ! i) (v ! parent i)" if "i < length v" "0 < i" for i
  proof -
    have "parent i < length v" using parent_less [OF that(2)] that(1) by simp
    with h that show ?thesis
      by (auto simp: heap_inv_def nth_append dest!: spec [of _ i])
  qed
  then show ?thesis by (simp add: heap_inv_def)
qed

lemma heap_pop_inv:
  assumes "preorder_on_set le (set v)" "heap_inv le v" "heap_pop le v = Some (y, v')"
  shows "heap_inv le v'"
proof (cases v rule: heap_cases)
  case (3 a vs x)
  then have "heap_inv le (a # vs)" using assms(2) heap_inv_butlast [of le "a # vs" x] by simp
  moreover have "preorder_on_set le (set (x # vs))"
    by (rule preorder_on_set_subset [OF assms(1)]) (auto simp: 3)
  ultimately have "heap_inv le (sift_down_to_bottom le (x # vs))" by (intro sift_down_inv)
  with 3 assms(3) show ?thesis by (simp add: heap_pop_snoc)
qed (use assms(3) in \<open>auto simp: heap_pop_def heap_inv_def\<close>)

lemma heap_pop_root: "heap_pop le v = Some (x, v') \<Longrightarrow> v \<noteq> [] \<and> x = v ! 0"
  by (cases v rule: heap_cases) (auto simp: heap_pop_snoc heap_pop_def)

lemma heap_pop_max:
  assumes "preorder_on_set le (set v)" "heap_inv le v" "heap_pop le v = Some (x, v')" "y \<in> set v"
  shows "le y x"
  using heap_root_max [OF assms(1,2)] heap_pop_root [OF assms(3)] assms(4)
  by (auto simp: in_set_conv_nth)

interpretation heap_pq: priority_queue "heap_push le" "heap_pop le" mset le "heap_inv le" for le
  by unfold_locales
    (auto intro: heap_push_inv heap_pop_inv heap_pop_max)

end
