(* ===== verification/Task.thy ===== *)
theory Task
  imports Demo_Crates Binary_Heap
begin

text \<open>
  \<open>src/task.rs\<close>: the task record with its derived JSON form, its constructor and mutators, the
  cron shorthands and the order of tasks in a pool queue.

  \<open>Utc::now()\<close> is an argument per reading. Arithmetic on \<open>i32\<close> wraps, as in a release build. An
  operation that can panic inside \<open>chrono\<close> returns an option.
\<close>

section \<open>Data\<close>

record job_error =
  error_string :: string
  retry_worthy :: bool

record progress_message =
  pm_task_id :: string
  pm_data :: string

record rtask =
  task_id :: string
  retry_count :: i32
  max_retries :: i32
  retry_after_hours :: f64
  retry_after_time :: instant
  task_data :: string
  task_type :: string
  last_error_obj :: "string option"
  last_job_error :: "job_error option"
  rate_limit_group :: "string option"
  max_per_minute :: "i32 option"
  auto_dedupe :: "bool option"
  urgency_score :: "f64 option"
  payload_hash :: "string option"
  deleted_at :: "instant option"
  execute_at :: instant
  cron_expression :: "string option"
  webhook_url :: "string option"
  max_execution_seconds :: "u64 option"
  pool :: "string option"
  trigger_after_ids :: "string list option"
  created_at :: instant
  updated_at :: instant

section \<open>JSON form\<close>

definition job_error_to_json :: "job_error \<Rightarrow> value" where
  "job_error_to_json e =
     JObj [(''error'', JStr (error_string e)), (''retry_worthy'', JBool (retry_worthy e))]"

definition job_error_of_json :: "value \<Rightarrow> job_error option" where
  "job_error_of_json j = do {
     f \<leftarrow> struct_fields [''error'', ''retry_worthy''] j;
     e \<leftarrow> req de_str (f ''error'');
     w \<leftarrow> req de_bool (f ''retry_worthy'');
     Some \<lparr>error_string = e, retry_worthy = w\<rparr> }"

definition task_fields :: "crates \<Rightarrow> rtask \<Rightarrow> (string \<times> value option) list" where
  "task_fields C t =
     [(''taskId'', Some (JStr (task_id t))),
      (''retryCount'', Some (JInt (sint (retry_count t)))),
      (''maxRetries'', Some (JInt (sint (max_retries t)))),
      (''retryAfterHours'', Some (ser_f64 (retry_after_hours t))),
      (''retryAfterTime'', Some (JStr (rfc3339 C (retry_after_time t)))),
      (''taskData'', Some (JStr (task_data t))),
      (''taskType'', Some (JStr (task_type t))),
      (''LastErrorObj'', map_option JStr (last_error_obj t)),
      (''LastJobError'', map_option job_error_to_json (last_job_error t)),
      (''rateLimitGroup'', map_option JStr (rate_limit_group t)),
      (''maxPerMinute'', map_option (\<lambda>n. JInt (sint n)) (max_per_minute t)),
      (''autoDedupe'', map_option JBool (auto_dedupe t)),
      (''urgencyScore'', map_option ser_f64 (urgency_score t)),
      (''payloadHash'', map_option JStr (payload_hash t)),
      (''deletedAt'', map_option (\<lambda>i. JStr (rfc3339 C i)) (deleted_at t)),
      (''executeAt'', Some (JStr (rfc3339 C (execute_at t)))),
      (''cronExpression'', map_option JStr (cron_expression t)),
      (''webhookUrl'', map_option JStr (webhook_url t)),
      (''maxExecutionSeconds'', map_option (\<lambda>n. JInt (uint n)) (max_execution_seconds t)),
      (''pool'', map_option JStr (pool t)),
      (''triggerAfterIds'', map_option (\<lambda>ids. JArr (map JStr ids)) (trigger_after_ids t))]"

definition task_to_json :: "crates \<Rightarrow> rtask \<Rightarrow> value" where
  "task_to_json C t = JObj (present (task_fields C t))"

definition task_field_names :: "string list" where
  "task_field_names =
     [''taskId'', ''retryCount'', ''maxRetries'', ''retryAfterHours'', ''retryAfterTime'',
      ''taskData'', ''taskType'', ''LastErrorObj'', ''LastJobError'', ''rateLimitGroup'',
      ''maxPerMinute'', ''autoDedupe'', ''urgencyScore'', ''payloadHash'', ''deletedAt'',
      ''executeAt'', ''cronExpression'', ''webhookUrl'', ''maxExecutionSeconds'', ''pool'',
      ''triggerAfterIds'']"

text \<open>The skipped fields \<open>created_at\<close> and \<open>updated_at\<close> become the time of reading.\<close>

definition task_of_json :: "crates \<Rightarrow> instant \<Rightarrow> instant \<Rightarrow> value \<Rightarrow> rtask option" where
  "task_of_json C created updated j = do {
     f \<leftarrow> struct_fields task_field_names j;
     v1 \<leftarrow> req de_str (f ''taskId'');
     v2 \<leftarrow> req de_i32 (f ''retryCount'');
     v3 \<leftarrow> req de_i32 (f ''maxRetries'');
     v4 \<leftarrow> req de_f64 (f ''retryAfterHours'');
     v5 \<leftarrow> req (de_time C) (f ''retryAfterTime'');
     v6 \<leftarrow> req de_str (f ''taskData'');
     v7 \<leftarrow> req de_str (f ''taskType'');
     v8 \<leftarrow> opt de_str (f ''LastErrorObj'');
     v9 \<leftarrow> opt job_error_of_json (f ''LastJobError'');
     v10 \<leftarrow> opt de_str (f ''rateLimitGroup'');
     v11 \<leftarrow> opt de_i32 (f ''maxPerMinute'');
     v12 \<leftarrow> opt de_bool (f ''autoDedupe'');
     v13 \<leftarrow> opt de_f64 (f ''urgencyScore'');
     v14 \<leftarrow> opt de_str (f ''payloadHash'');
     v15 \<leftarrow> opt (de_time C) (f ''deletedAt'');
     v16 \<leftarrow> req (de_time C) (f ''executeAt'');
     v17 \<leftarrow> opt de_str (f ''cronExpression'');
     v18 \<leftarrow> opt de_str (f ''webhookUrl'');
     v19 \<leftarrow> opt de_u64 (f ''maxExecutionSeconds'');
     v20 \<leftarrow> opt de_str (f ''pool'');
     v21 \<leftarrow> opt de_strs (f ''triggerAfterIds'');
     Some \<lparr>task_id = v1, retry_count = v2, max_retries = v3, retry_after_hours = v4,
       retry_after_time = v5, task_data = v6, task_type = v7, last_error_obj = v8,
       last_job_error = v9, rate_limit_group = v10, max_per_minute = v11, auto_dedupe = v12,
       urgency_score = v13, payload_hash = v14, deleted_at = v15, execute_at = v16,
       cron_expression = v17, webhook_url = v18, max_execution_seconds = v19, pool = v20,
       trigger_after_ids = v21, created_at = created, updated_at = updated\<rparr> }"

text \<open>\<open>serde_json::to_string(task)\<close> and \<open>serde_json::from_str::<RetryableTask>(line)\<close>.\<close>

definition task_line :: "crates \<Rightarrow> rtask \<Rightarrow> string" where
  "task_line C t = json_text C (task_to_json C t)"

definition line_task :: "crates \<Rightarrow> instant \<Rightarrow> instant \<Rightarrow> string \<Rightarrow> rtask option" where
  "line_task C created updated l = do { j \<leftarrow> json_of_text C l; task_of_json C created updated j }"

section \<open>Cron shorthands\<close>

definition strip_suffix :: "char \<Rightarrow> string \<Rightarrow> string option" where
  "strip_suffix c s = (if s \<noteq> [] \<and> last s = c then Some (butlast s) else None)"

definition cron_shorthand :: "char \<Rightarrow> string \<Rightarrow> string \<Rightarrow> string \<Rightarrow> string option" where
  "cron_shorthand c before after s =
     (case strip_suffix c s of
        None \<Rightarrow> None
      | Some v \<Rightarrow> map_option (\<lambda>n. before @ show_nat n @ after) (parse_u32 v))"

definition parse_cron_syntax :: "string \<Rightarrow> string" where
  "parse_cron_syntax input0 =
     (let input = trim input0 in
      case cron_shorthand (CHR ''s'') ''*/'' '' * * * * *'' input of Some r \<Rightarrow> r | None \<Rightarrow>
      (case cron_shorthand (CHR ''m'') ''0 */'' '' * * * *'' input of Some r \<Rightarrow> r | None \<Rightarrow>
      (case cron_shorthand (CHR ''h'') ''0 0 */'' '' * * *'' input of Some r \<Rightarrow> r | None \<Rightarrow>
      (case cron_shorthand (CHR ''d'') ''0 0 0 */'' '' * *'' input of Some r \<Rightarrow> r | None \<Rightarrow>
      (let parts = split_whitespace input in
       if length parts = 5 then ''0 '' @ input @ '' *''
       else if length parts = 6 then input @ '' *''
       else input)))))"

section \<open>Construction and mutation\<close>

text \<open>\<open>Schedule::from_str(e)\<close> and then \<open>upcoming(Utc).next()\<close>, read at \<open>now\<close>.\<close>

definition first_tick :: "crates \<Rightarrow> string \<Rightarrow> instant \<Rightarrow> instant option" where
  "first_tick C e now = Option.bind (cron_next C e now) (\<lambda>n. n)"

definition compute_hash :: "crates \<Rightarrow> string \<Rightarrow> string \<Rightarrow> string" where
  "compute_hash C ty data = show_hex (unat (xxh64 C (ty @ data)))"

definition task_new ::
  "crates \<Rightarrow> instant \<Rightarrow> instant \<Rightarrow> string \<Rightarrow> string \<Rightarrow> string \<Rightarrow> i32 \<Rightarrow> f64 \<Rightarrow> string option \<Rightarrow>
   i32 option \<Rightarrow> bool option \<Rightarrow> f64 option \<Rightarrow> string option \<Rightarrow> string option \<Rightarrow> string option \<Rightarrow>
   u64 option \<Rightarrow> string option \<Rightarrow> string list option \<Rightarrow> rtask" where
  "task_new C now cron_now tid ty data max_retr hours rl_group per_min dedupe urgency exec_opt cron_opt
     hook max_secs pool_opt deps =
     (let parsed_cron = map_option parse_cron_syntax cron_opt;
          exec =
            (case exec_opt of
               Some s \<Rightarrow> (case parse_from_rfc3339 C s of Some t \<Rightarrow> t | None \<Rightarrow> now)
             | None \<Rightarrow>
                 (case parsed_cron of
                    Some e \<Rightarrow> (case first_tick C e cron_now of Some t \<Rightarrow> t | None \<Rightarrow> now)
                  | None \<Rightarrow> now));
          hash = (if dedupe = Some True then Some (compute_hash C ty data) else None)
      in \<lparr>task_id = tid, retry_count = 0, max_retries = max_retr, retry_after_hours = hours,
          retry_after_time = now, task_data = data, task_type = ty, last_error_obj = None,
          last_job_error = None, rate_limit_group = rl_group, max_per_minute = per_min,
          auto_dedupe = dedupe, urgency_score = urgency, payload_hash = hash, deleted_at = None,
          execute_at = exec, cron_expression = parsed_cron, webhook_url = hook,
          max_execution_seconds = max_secs, pool = pool_opt, trigger_after_ids = deps,
          created_at = now, updated_at = now\<rparr>)"

definition mark_deleted :: "instant \<Rightarrow> instant \<Rightarrow> rtask \<Rightarrow> rtask" where
  "mark_deleted now now' t = t\<lparr>deleted_at := Some now, updated_at := now'\<rparr>"

definition f64_3600 :: f64 where
  "f64_3600 = f64_of_nat 3600"

definition update_retry_config ::
  "crates \<Rightarrow> instant \<Rightarrow> instant \<Rightarrow> string option \<Rightarrow> rtask \<Rightarrow> rtask option" where
  "update_retry_config C now now' msg t =
     (let seconds = f64_as_i64 (f64_mul (retry_after_hours t) f64_3600) in
      case add_seconds C now seconds of
        None \<Rightarrow> None
      | Some due \<Rightarrow> Some (t\<lparr>
          retry_count := retry_count t + 1,
          retry_after_time := due,
          last_error_obj := msg,
          last_job_error :=
            map_option (\<lambda>m. \<lparr>error_string = m, retry_worthy = True\<rparr>) msg,
          updated_at := now'\<rparr>))"

section \<open>Order of tasks in a pool queue\<close>

definition score :: "rtask \<Rightarrow> f64" where
  "score t = (case urgency_score t of None \<Rightarrow> f64_zero | Some u \<Rightarrow> u)"

definition priority_eq :: "rtask \<Rightarrow> rtask \<Rightarrow> bool" where
  "priority_eq a b = (task_id a = task_id b)"

definition priority_cmp :: "rtask \<Rightarrow> rtask \<Rightarrow> ordering" where
  "priority_cmp a b =
     (case partial_cmp (score a) (score b) of None \<Rightarrow> Equal | Some c \<Rightarrow> c)"

text \<open>\<open>a <= b\<close> as \<open>PartialOrd\<close> derives it from \<open>partial_cmp\<close>; the heap uses nothing else.\<close>

definition priority_le :: "rtask \<Rightarrow> rtask \<Rightarrow> bool" where
  "priority_le a b = (priority_cmp a b \<le> Equal)"

section \<open>Serialization round trip\<close>

lemma job_error_roundtrip:
  "job_error_of_json (map_json f (job_error_to_json e)) = Some e"
  by (simp add: job_error_of_json_def job_error_to_json_def struct_fields_def)

lemma job_error_not_null: "map_json f (job_error_to_json e) \<noteq> JNull"
  by (simp add: job_error_to_json_def)

lemma opt_str: "opt de_str (map_option (map_json f) (map_option JStr v)) = Some v"
  by (cases v) (simp_all add: opt_def)

lemma opt_bool: "opt de_bool (map_option (map_json f) (map_option JBool v)) = Some v"
  by (cases v) (simp_all add: opt_def)

lemma opt_i32:
  "opt de_i32 (map_option (map_json f) (map_option (\<lambda>n. JInt (sint n)) v)) = Some v"
  by (cases v) (simp_all add: opt_def del: de_i32.simps)

lemma opt_u64:
  "opt de_u64 (map_option (map_json f) (map_option (\<lambda>n. JInt (uint n)) v)) = Some v"
  by (cases v) (simp_all add: opt_def del: de_u64.simps)

lemma opt_job_error:
  "opt job_error_of_json (map_option (map_json f) (map_option job_error_to_json v)) = Some v"
  by (cases v) (simp_all add: opt_not_null job_error_roundtrip job_error_not_null)

lemma opt_time:
  "serde_ok C \<Longrightarrow>
   opt (de_time C) (map_option (map_json f) (map_option (\<lambda>i. JStr (rfc3339 C i)) v)) = Some v"
  by (cases v) (simp_all add: opt_def serde_okD)

lemma opt_strs:
  "opt de_strs (map_option (map_json f) (map_option (\<lambda>ids. JArr (map JStr ids)) v)) = Some v"
  by (cases v) (simp_all add: opt_def de_list_map)

text \<open>What a double is after a save and a reload, as a plain and as an optional field.\<close>

definition reread_opt :: "crates \<Rightarrow> f64 option \<Rightarrow> f64 option" where
  "reread_opt C v = (case v of Some x \<Rightarrow> if f64_finite x then Some (reread C x) else None | None \<Rightarrow> None)"

lemma opt_f64:
  "opt de_f64 (map_option (map_json (reread C)) (map_option ser_f64 v)) = Some (reread_opt C v)"
  by (cases v) (simp_all add: opt_def ser_f64_def reread_opt_def)

lemma req_f64:
  "req de_f64 (map_option (map_json (reread C)) (Some (ser_f64 x))) =
     (if f64_finite x then Some (reread C x) else None)"
  by (simp add: ser_f64_def)

lemmas field_roundtrips = opt_str opt_bool opt_i32 opt_u64 opt_job_error opt_time opt_strs opt_f64 req_f64

lemma task_field_lookup:
  "struct_fields task_field_names (map_json f (task_to_json C t)) =
     Some (\<lambda>k. map_option (map_json f) (Option.bind (map_of (task_fields C t) k) (\<lambda>v. v)))"
proof -
  let ?l = "map (\<lambda>(k, v). (k, map_option (map_json f) v)) (task_fields C t)"
  have d: "distinct (map fst ?l)" by (simp add: task_fields_def)
  have m: "map_of ?l k = map_option (map_option (map_json f)) (map_of (task_fields C t) k)" for k
    using map_of_map [of "map_option (map_json f)" "task_fields C t"] by simp
  have "Option.bind (map_of ?l k) (\<lambda>v. v) =
      map_option (map_json f) (Option.bind (map_of (task_fields C t) k) (\<lambda>v. v))" for k
    unfolding m by (cases "map_of (task_fields C t) k") simp_all
  then show ?thesis
    unfolding task_to_json_def map_json_present struct_fields_present [OF d] by simp
qed

lemma task_json_roundtrip:
  assumes "serde_ok C"
  shows "task_of_json C created updated (map_json (reread C) (task_to_json C t)) =
    (if f64_finite (retry_after_hours t)
     then Some (t\<lparr>retry_after_hours := reread C (retry_after_hours t),
       urgency_score := reread_opt C (urgency_score t),
       created_at := created, updated_at := updated\<rparr>)
     else None)"
  using assms
  by (simp add: task_of_json_def task_field_lookup task_fields_def field_roundtrips
      ser_f64_def serde_okD del: de_i32.simps de_u64.simps)

section \<open>Cron shorthands\<close>

lemma graphic_digit: "d < 10 \<Longrightarrow> graphic (digit_char d)"
  by (simp add: graphic_def digit_char_def of_char_of)

lemma graphic_show_nat: "\<forall>c \<in> set (show_nat n). graphic c"
proof (induction n rule: show_nat.induct)
  case (1 n)
  then show ?case
    by (cases "n < 10") (auto simp: show_nat.simps [of n] graphic_digit)
qed

lemma strip_suffix_snoc [simp]:
  "strip_suffix c (s @ [d]) = (if c = d then Some s else None)"
  by (simp add: strip_suffix_def)

lemma cron_shorthand_show:
  "n < 2 ^ 32 \<Longrightarrow>
   cron_shorthand c b a (show_nat n @ [d]) = (if c = d then Some (b @ show_nat n @ a) else None)"
  by (simp add: cron_shorthand_def parse_u32_show_nat)

lemma cron_shorthand_big:
  "\<not> n < 2 ^ 32 \<Longrightarrow> cron_shorthand c b a (show_nat n @ [d]) = None"
  using parse_u32_show_big by (simp add: cron_shorthand_def)

lemma trim_show_unit: "d \<in> set ''smhd'' \<Longrightarrow> trim (show_nat n @ [d]) = show_nat n @ [d]"
  using graphic_show_nat [of n] by (intro trim_graphic) (auto simp: graphic_def)

lemma blank_string: "'' '' = [blank]"
  by (simp add: blank_def)

lemma split_words:
  "x \<noteq> [] \<Longrightarrow> \<forall>c \<in> set x. graphic c \<Longrightarrow>
   split_whitespace (x @ blank # t) = x # split_whitespace t"
  by (simp add: split_whitespace_blank split_whitespace_graphic)

lemma split_step:
  assumes "x \<noteq> []" "\<forall>c \<in> set x. graphic c"
  shows "split_whitespace (x @ CHR '' '' # t) = x # split_whitespace t"
  using split_words [OF assms] by (simp add: blank_def)

lemma split_star: "split_whitespace (CHR ''*'' # CHR '' '' # t) = ''*'' # split_whitespace t"
  "split_whitespace ''*'' = [''*'']"
  using split_step [of "''*''"] split_whitespace_graphic [of "''*''"] by (simp_all add: graphic_def)

lemma split_zero: "split_whitespace (CHR ''0'' # CHR '' '' # t) = ''0'' # split_whitespace t"
  using split_step [of "''0''"] by (simp add: graphic_def)

lemma split_every:
  "split_whitespace (CHR ''*'' # CHR ''/'' # show_nat n @ CHR '' '' # t) =
     (''*/'' @ show_nat n) # split_whitespace t"
  using split_step [of "''*/'' @ show_nat n"] graphic_show_nat [of n] by (auto simp: graphic_def)

lemmas split_fields = split_star split_zero split_every

lemma cron_shorthand_fields:
  "cron_shorthand (CHR ''s'') ''*/'' '' * * * * *'' s = Some r \<Longrightarrow> length (split_whitespace r) = 6"
  "cron_shorthand (CHR ''m'') ''0 */'' '' * * * *'' s = Some r \<Longrightarrow> length (split_whitespace r) = 6"
  "cron_shorthand (CHR ''h'') ''0 0 */'' '' * * *'' s = Some r \<Longrightarrow> length (split_whitespace r) = 6"
  "cron_shorthand (CHR ''d'') ''0 0 0 */'' '' * *'' s = Some r \<Longrightarrow> length (split_whitespace r) = 6"
  by (auto simp: cron_shorthand_def split_fields split: option.splits)

lemma split_add_star: "split_whitespace (s @ '' *'') = split_whitespace s @ [''*'']"
  using split_whitespace_blank [of s "''*''"] by (simp add: split_star blank_def)

lemma split_seconds: "split_whitespace (''0 '' @ s) = ''0'' # split_whitespace s"
  by (simp add: split_zero)

section \<open>The order of tasks\<close>

lemma priority_le_score: "priority_le a b \<longleftrightarrow> f64_le (score a) (score b)"
proof (cases "partial_cmp (score a) (score b)")
  case (Some c)
  then show ?thesis
    by (cases c) (simp_all add: priority_le_def priority_cmp_def f64_le_def less_eq_ordering_def)
qed (simp add: priority_le_def priority_cmp_def f64_le_def)

lemma priority_preorder:
  assumes "\<And>t. t \<in> S \<Longrightarrow> score t \<noteq> NaN"
  shows "preorder_on_set priority_le S"
  using assms f64_le_total f64_le_trans
  unfolding preorder_on_set_def priority_le_score by blast

section \<open>The back-off of whole hours\<close>

lemma retry_seconds:
  assumes "k * 3600 < 2 ^ 53"
  shows "f64_as_i64 (f64_mul (f64_of_nat k) f64_3600) = int (k * 3600)"
proof -
  have "f64_mul (f64_of_nat k) f64_3600 = f64_of_nat (k * 3600)"
    unfolding f64_3600_def using assms by (intro f64_mul_nat) simp_all
  then show ?thesis
    using f64_as_i64_exact [OF assms] by (simp add: f64_of_nat_def)
qed

section \<open>Shorthands\<close>

lemma trim_count_unit:
  assumes "d \<in> set ''smhd''"
  shows "trim (replicate i blank @ show_nat n @ [d] @ replicate j blank) = show_nat n @ [d]"
proof -
  have "\<forall>c \<in> set (show_nat n @ [d]). graphic c"
    using assms graphic_show_nat [of n] by (auto simp: graphic_def)
  from trim_blanks [OF _ this, of i j] show ?thesis by simp
qed

lemma show_nat_snoc_not_fields: "d \<in> set ''smhd'' \<Longrightarrow> split_whitespace (show_nat n @ [d]) = [show_nat n @ [d]]"
  using graphic_show_nat [of n] by (intro split_whitespace_graphic) (auto simp: graphic_def)

section \<open>Properties\<close>

text \<open>
  Property C36: a task saved as a line of the log and read back keeps every field but the two
  that serde skips, which become the time of reading; its doubles are what the JSON printer and
  parser make of them. A retry delay that is not finite makes the line unreadable, and an
  urgency score that is not finite is forgotten.
\<close>

theorem task_reload:
  assumes "serde_ok C"
  shows "line_task C created updated (task_line C t) =
    (if f64_finite (retry_after_hours t)
     then Some (t\<lparr>retry_after_hours := reread C (retry_after_hours t),
       urgency_score := reread_opt C (urgency_score t),
       created_at := created, updated_at := updated\<rparr>)
     else None)"
  using assms by (simp add: line_task_def task_line_def serde_okD task_json_roundtrip)

definition demo_task :: rtask where
  "demo_task = task_new demo_crates 0 0 ''a'' ''mail'' ''x'' 3 f64_zero None None (Some True) None
     None None None None None None"

lemma task_reload_witness:
  "\<exists>t. line_task demo_crates 5 6 (task_line demo_crates demo_task) = Some t \<and> task_id t = ''a'' \<and>
     updated_at t = 6"
  using task_reload [OF serde_ok_demo, of 5 6 demo_task]
  by (simp add: demo_task_def task_new_def Let_def f64_zero_def)

text \<open>
  A count with one of the units s, m, h, d, with any blanks around it, becomes the
  six-field cron expression of that period when the count is below 2^32, and is left as it is
  otherwise.
\<close>

lemma parse_cron_shorthand:
  "parse_cron_syntax (replicate i blank @ show_nat n @ ''s'' @ replicate j blank) =
       (if n < 2 ^ 32 then ''*/'' @ show_nat n @ '' * * * * *'' else show_nat n @ ''s'') \<and>
   parse_cron_syntax (replicate i blank @ show_nat n @ ''m'' @ replicate j blank) =
       (if n < 2 ^ 32 then ''0 */'' @ show_nat n @ '' * * * *'' else show_nat n @ ''m'') \<and>
   parse_cron_syntax (replicate i blank @ show_nat n @ ''h'' @ replicate j blank) =
       (if n < 2 ^ 32 then ''0 0 */'' @ show_nat n @ '' * * *'' else show_nat n @ ''h'') \<and>
   parse_cron_syntax (replicate i blank @ show_nat n @ ''d'' @ replicate j blank) =
       (if n < 2 ^ 32 then ''0 0 0 */'' @ show_nat n @ '' * *'' else show_nat n @ ''d'')"
proof -
  have t: "trim (replicate i blank @ show_nat n @ d # replicate j blank) = show_nat n @ [d]"
    "split_whitespace (show_nat n @ [d]) = [show_nat n @ [d]]" if "d \<in> set ''smhd''" for d
    using trim_count_unit [OF that] show_nat_snoc_not_fields [OF that] by simp_all
  show ?thesis
    by (cases "n < 2 ^ 32")
      (simp_all add: parse_cron_syntax_def t cron_shorthand_show cron_shorthand_big Let_def)
qed

text \<open>
  Whatever the input, the expression that is stored has six fields (a shorthand),
  seven fields (a five- or six-field expression with the missing ones added), or is the trimmed
  input, which then has neither five nor six fields.
\<close>

lemma parse_cron_fields:
  "length (split_whitespace (parse_cron_syntax s)) \<in> {6, 7} \<or>
   (parse_cron_syntax s = trim s \<and> length (split_whitespace (trim s)) \<notin> {5, 6})"
proof -
  have add: "length (split_whitespace (''0 '' @ u @ '' *'')) = length (split_whitespace u) + 2"
    "length (split_whitespace (u @ '' *'')) = length (split_whitespace u) + 1" for u
    using split_seconds [of "u @ '' *''"] split_add_star [of u] by simp_all
  show ?thesis
    unfolding parse_cron_syntax_def Let_def
    using cron_shorthand_fields [of "trim s"] add [of "trim s"]
    by (simp split: option.splits)
qed

text \<open>
  A failure of a task whose retry delay is a whole number \<open>k\<close> of hours puts its next
  attempt exactly \<open>3600 * k\<close> seconds after the clock reading, counts the failure (wrapping at
  2^31) and records the message; nothing else changes.
\<close>

lemma retry_backoff_hours:
  assumes "k * 3600 < 2 ^ 53" "retry_after_hours t = f64_of_nat k"
    and "secs_ok C (int (k * 3600))" "date_ok C (now + nanos (int (k * 3600)))"
  shows "update_retry_config C now now' msg t = Some (t\<lparr>
      retry_count := retry_count t + 1,
      retry_after_time := now + nanos (int (k * 3600)),
      last_error_obj := msg,
      last_job_error := map_option (\<lambda>m. \<lparr>error_string = m, retry_worthy = True\<rparr>) msg,
      updated_at := now'\<rparr>)"
  using assms(2-) unfolding update_retry_config_def
  by (simp only: retry_seconds [OF assms(1)] add_seconds_def Let_def) simp

lemma retry_backoff_hours_example:
  "update_retry_config demo_crates 7 9 (Some ''e'') (demo_task\<lparr>retry_after_hours := f64_of_nat 2\<rparr>) =
   Some (demo_task\<lparr>retry_after_hours := f64_of_nat 2, retry_count := 1,
     retry_after_time := 7 + nanos 7200, last_error_obj := Some ''e'',
     last_job_error := Some \<lparr>error_string = ''e'', retry_worthy = True\<rparr>, updated_at := 9\<rparr>)"
  using retry_backoff_hours [of 2 "demo_task\<lparr>retry_after_hours := f64_of_nat 2\<rparr>" demo_crates 7 9 "Some ''e''"]
  by (simp add: demo_crates_def nanos_def demo_task_def task_new_def)

end
