(* ===== verification/File_Store.thy ===== *)
theory File_Store
  imports Task
begin

text \<open>
  \<open>src/file_store.rs\<close>: one shard's append-only log of task lines with its cache of live tasks.

  A store is the content of \<open>tasks.log\<close> (\<^const>\<open>None\<close> while it does not exist), the three counters,
  the \<open>compacting\<close> flag and the cache. An operation that holds \<open>file_lock\<close> is one step. What the
  operating system answers is an argument of type \<open>io\<close>. Reading a line reads the clock twice (for
  the skipped fields \<open>created_at\<close> and \<open>updated_at\<close>): \<open>clk n\<close> are the readings at line \<open>n\<close>. \<open>ord\<close> is
  the order in which the compaction's hash map is iterated.
\<close>

section \<open>State\<close>

record file_store =
  log_file :: "string option"
  total_tasks :: nat
  deleted_tasks :: nat
  append_count :: nat
  compacting :: bool
  tasks_cache :: "(string, rtask) hashmap"

type_synonym clock = "nat \<Rightarrow> instant \<times> instant"

section \<open>Loading\<close>

definition log_entries :: "crates \<Rightarrow> clock \<Rightarrow> string \<Rightarrow> rtask list" where
  "log_entries C clk f =
     List.map_filter
       (\<lambda>(n, l). if blank_line l then None else line_task C (fst (clk n)) (snd (clk n)) l)
       (enumerate 0 (read_lines f))"

definition apply_entry :: "rtask \<Rightarrow> (string, rtask) hashmap \<Rightarrow> (string, rtask) hashmap" where
  "apply_entry t m =
     (if deleted_at t \<noteq> None then hm_remove (task_id t) m else hm_insert (task_id t) t m)"

definition rebuild_step ::
  "nat \<times> nat \<times> nat \<times> (string, rtask) hashmap \<Rightarrow> rtask \<Rightarrow> nat \<times> nat \<times> nat \<times> (string, rtask) hashmap"
where
  "rebuild_step = (\<lambda>(live, dead, appended, m) t.
     if deleted_at t \<noteq> None then (live, dead + 1, appended + 1, apply_entry t m)
     else (live + 1, dead, appended + 1, apply_entry t m))"

definition rebuild_metadata ::
  "crates \<Rightarrow> io \<Rightarrow> clock \<Rightarrow> file_store \<Rightarrow> (io_error + unit) \<times> file_store" where
  "rebuild_metadata C w clk s0 =
     (let s = s0\<lparr>tasks_cache := []\<rparr> in
      case log_file s of
        None \<Rightarrow> (Inr (), s)
      | Some f \<Rightarrow>
          if w = Open_Fails then (Inl (Io_Error w), s)
          else
            (case foldl rebuild_step (0, 0, 0, []) (log_entries C clk f) of
               (live, dead, appended, m) \<Rightarrow>
                 (Inr (), s\<lparr>total_tasks := live, deleted_tasks := dead, append_count := appended,
                   tasks_cache := m\<rparr>)))"

definition store_new ::
  "crates \<Rightarrow> io \<Rightarrow> clock \<Rightarrow> string option \<Rightarrow> (io_error + unit) \<times> file_store" where
  "store_new C w clk f =
     rebuild_metadata C w clk
       \<lparr>log_file = f, total_tasks = 0, deleted_tasks = 0, append_count = 0, compacting = False,
        tasks_cache = []\<rparr>"

section \<open>Saving\<close>

definition should_compact :: "file_store \<Rightarrow> bool" where
  "should_compact s =
     ((case log_file s of None \<Rightarrow> False | Some f \<Rightarrow> length f > 20 * 1024 * 1024) \<or>
      (total_tasks s > 0 \<and>
        f64_gt (f64_div (f64_of_nat (deleted_tasks s)) (f64_of_nat (total_tasks s))) f64_half) \<or>
      append_count s \<ge> 10000)"

definition append_log :: "string \<Rightarrow> file_store \<Rightarrow> file_store" where
  "append_log bytes s =
     s\<lparr>log_file := Some ((case log_file s of None \<Rightarrow> [] | Some f \<Rightarrow> f) @ bytes)\<rparr>"

text \<open>The result of a save says whether a compaction was spawned.\<close>

definition save_task_inner ::
  "crates \<Rightarrow> io \<Rightarrow> rtask \<Rightarrow> bool \<Rightarrow> file_store \<Rightarrow> (io_error + bool) \<times> file_store" where
  "save_task_inner C w t check_compact s0 =
     (if w \<in> {Dir_Fails, Open_Fails} then (Inl (Io_Error w), s0)
      else
        let line = task_line C t @ [newline] in
        case w of
          Write_Torn n \<Rightarrow> (Inl (Io_Error w), append_log (take n line) s0)
        | Sync_Fails \<Rightarrow> (Inl (Io_Error w), append_log line s0)
        | _ \<Rightarrow>
            let s1 = append_log line s0;
                s2 = s1\<lparr>tasks_cache := apply_entry t (tasks_cache s1)\<rparr>;
                s3 = s2\<lparr>append_count := append_count s2 + 1\<rparr>;
                s4 = (if deleted_at t \<noteq> None then s3\<lparr>deleted_tasks := deleted_tasks s3 + 1\<rparr>
                      else s3\<lparr>total_tasks := total_tasks s3 + 1\<rparr>)
            in (Inr (check_compact \<and> should_compact s4), s4))"

definition save_task :: "crates \<Rightarrow> io \<Rightarrow> rtask \<Rightarrow> file_store \<Rightarrow> (io_error + bool) \<times> file_store" where
  "save_task C w t s = save_task_inner C w t True s"

definition delete_task ::
  "crates \<Rightarrow> io \<Rightarrow> instant \<Rightarrow> instant \<Rightarrow> string \<Rightarrow> file_store \<Rightarrow> (io_error + bool) \<times> file_store" where
  "delete_task C w now now' tid s =
     (case hm_get (tasks_cache s) tid of
        Some t \<Rightarrow>
          if deleted_at t = None then save_task_inner C w (mark_deleted now now' t) False s
          else (Inr False, s)
      | None \<Rightarrow> (Inr False, s))"

section \<open>Reading\<close>

definition read_tasks :: "file_store \<Rightarrow> rtask list" where
  "read_tasks s = hm_values (tasks_cache s)"

definition get_latest_task :: "string \<Rightarrow> file_store \<Rightarrow> rtask option" where
  "get_latest_task tid s = hm_get (tasks_cache s) tid"

definition are_tasks_completed :: "string list \<Rightarrow> file_store \<Rightarrow> bool" where
  "are_tasks_completed ids s = (\<forall>i \<in> set ids. \<not> hm_contains (tasks_cache s) i)"

section \<open>Cycles\<close>

definition deps_of :: "(string, rtask) hashmap \<Rightarrow> string \<Rightarrow> string list" where
  "deps_of m i =
     (case hm_get m i of
        None \<Rightarrow> []
      | Some t \<Rightarrow> (case trigger_after_ids t of None \<Rightarrow> [] | Some ds \<Rightarrow> ds))"

lemma deps_of_key: "deps_of m i \<noteq> [] \<Longrightarrow> i \<in> set (hm_keys m)"
  by (auto simp: deps_of_def set_hm_keys split: option.splits)

lemma unvisited_shrinks:
  "i \<in> set (hm_keys m) \<Longrightarrow> i \<notin> set visited \<Longrightarrow>
   card (set (hm_keys m) - set (i # visited)) < card (set (hm_keys m) - set visited)"
  by (rule psubset_card_mono) auto

text \<open>The stack has its top first; \<open>visited\<close> lists the visited identifiers. True is \<open>Err\<close>.\<close>

function cycle_loop :: "(string, rtask) hashmap \<Rightarrow> string \<Rightarrow> string list \<Rightarrow> string list \<Rightarrow> bool" where
  "cycle_loop m new visited [] = False"
| "cycle_loop m new visited (i # stack) =
     (if i = new then True
      else if i \<in> set visited then cycle_loop m new visited stack
      else cycle_loop m new (i # visited) (rev (deps_of m i) @ stack))"
  by pat_completeness auto

termination
proof (relation "measures [\<lambda>(m, new, visited, stack). card (set (hm_keys m) - set visited),
    \<lambda>(m, new, visited, stack). length stack]", goal_cases)
  case (3 m new visited i stack)
  show ?case
  proof (cases "i \<in> set (hm_keys m)")
    case True
    then show ?thesis using unvisited_shrinks [OF True 3(2)] by simp
  next
    case False
    then have "deps_of m i = []" using deps_of_key by blast
    moreover have "set (hm_keys m) - set (i # visited) = set (hm_keys m) - set visited"
      using False by auto
    ultimately show ?thesis by simp
  qed
qed simp_all

definition detect_cycle :: "string \<Rightarrow> string list \<Rightarrow> file_store \<Rightarrow> bool" where
  "detect_cycle new ids s = cycle_loop (tasks_cache s) new [] (rev ids)"

section \<open>Compaction\<close>

definition compact_step :: "(string, rtask) hashmap \<Rightarrow> rtask \<Rightarrow> (string, rtask) hashmap" where
  "compact_step m t =
     (if deleted_at t \<noteq> None then hm_remove (task_id t) m
      else case hm_get m (task_id t) of
             Some old \<Rightarrow> if updated_at t > updated_at old then hm_insert (task_id t) t m else m
           | None \<Rightarrow> hm_insert (task_id t) t m)"

definition log_text :: "crates \<Rightarrow> rtask list \<Rightarrow> string" where
  "log_text C ts = concat (map (\<lambda>t. task_line C t @ [newline]) ts)"

definition compact_log ::
  "crates \<Rightarrow> io \<Rightarrow> clock \<Rightarrow> ((string, rtask) hashmap \<Rightarrow> rtask list) \<Rightarrow> file_store \<Rightarrow>
   (io_error + unit) \<times> file_store" where
  "compact_log C w clk ord s0 =
     (if compacting s0 then (Inr (), s0)
      else
        let s = s0\<lparr>compacting := True\<rparr>;
            (r, s') =
              (case log_file s of
                 None \<Rightarrow> (Inl (Io_Error Open_Fails), s)
               | Some f \<Rightarrow>
                   if w \<noteq> Io_Ok then (Inl (Io_Error w), s)
                   else
                     let m = foldl compact_step [] (log_entries C clk f) in
                     (Inr (), s\<lparr>log_file := Some (log_text C (ord m)),
                        total_tasks := length m, deleted_tasks := 0, append_count := 0,
                        tasks_cache := m\<rparr>))
        in (r, s'\<lparr>compacting := False\<rparr>))"

section \<open>The cycle search\<close>

definition dep_rel :: "(string, rtask) hashmap \<Rightarrow> (string \<times> string) set" where
  "dep_rel m = {(i, d). d \<in> set (deps_of m i)}"

lemma in_deps_of:
  "d \<in> set (deps_of m i) \<longleftrightarrow>
   (\<exists>t ds. hm_get m i = Some t \<and> trigger_after_ids t = Some ds \<and> d \<in> set ds)"
proof (cases "hm_get m i")
  case (Some t)
  then show ?thesis by (cases "trigger_after_ids t") (simp_all add: deps_of_def)
qed (simp add: deps_of_def)

lemma reach_leaves_visited:
  assumes "(v, new) \<in> (dep_rel m)\<^sup>*" "v \<in> V" "new \<notin> V" "dep_rel m `` V \<subseteq> V \<union> S"
  shows "\<exists>s \<in> S. (s, new) \<in> (dep_rel m)\<^sup>*"
  using assms(1,2)
proof (induction rule: converse_rtrancl_induct)
  case base
  then show ?case using assms(3) by simp
next
  case (step y z)
  then have "z \<in> V \<union> S" using assms(4) by blast
  then show ?case using step by blast
qed

lemma cycle_loop_reaches:
  assumes "new \<notin> set visited" "dep_rel m `` set visited \<subseteq> set visited \<union> set stack"
  shows "cycle_loop m new visited stack \<longleftrightarrow> (\<exists>s \<in> set stack. (s, new) \<in> (dep_rel m)\<^sup>*)"
  using assms
proof (induction m new visited stack rule: cycle_loop.induct)
  case (2 m new visited i stack)
  show ?case
  proof (cases "i = new \<or> i \<in> set visited")
    case True
    show ?thesis
    proof (cases "i = new")
      case False
      with True have i: "i \<in> set visited" by simp
      then have cl: "dep_rel m `` set visited \<subseteq> set visited \<union> set stack"
        using 2(4) by auto
      have "(\<exists>s \<in> set stack. (s, new) \<in> (dep_rel m)\<^sup>*)" if "(i, new) \<in> (dep_rel m)\<^sup>*"
        using reach_leaves_visited [OF that i 2(3) cl] .
      then show ?thesis using 2(1) [OF False i 2(3) cl] False i by auto
    qed simp
  next
    case False
    have "(i, new) \<in> (dep_rel m)\<^sup>* \<longleftrightarrow> (\<exists>d \<in> set (deps_of m i). (d, new) \<in> (dep_rel m)\<^sup>*)"
      using False by (auto simp: dep_rel_def elim: converse_rtranclE intro: converse_rtrancl_into_rtrancl)
    moreover have "dep_rel m `` set (i # visited) \<subseteq> set (i # visited) \<union> set (rev (deps_of m i) @ stack)"
      using 2(4) by (auto simp: dep_rel_def)
    ultimately show ?thesis using 2 False by auto
  qed
qed simp

lemma detect_cycle_reaches:
  "detect_cycle new ids s \<longleftrightarrow> (\<exists>i \<in> set ids. (i, new) \<in> (dep_rel (tasks_cache s))\<^sup>*)"
  unfolding detect_cycle_def by (subst cycle_loop_reaches) simp_all

text \<open>Replacing the edges out of a node that its new successors do not reach.\<close>

lemma acyclic_replace_edges:
  assumes "acyclic R" "R' \<subseteq> R \<union> {x} \<times> set ds" "\<forall>z. (x, z) \<in> R' \<longrightarrow> z \<in> set ds"
    and "\<And>d. d \<in> set ds \<Longrightarrow> (d, x) \<notin> R\<^sup>*"
  shows "acyclic R'"
proof -
  define R0 where "R0 = R - {x} \<times> UNIV"
  have apart: "(d, x) \<notin> (R0 \<union> {x} \<times> S)\<^sup>*" if "d \<in> set ds" for d S
  proof
    assume "(d, x) \<in> (R0 \<union> {x} \<times> S)\<^sup>*"
    then have "(d, x) \<in> R\<^sup>*"
    proof (induction rule: converse_rtrancl_induct)
      case (step y z)
      then show ?case by (cases "y = x") (auto simp: R0_def intro: converse_rtrancl_into_rtrancl)
    qed simp
    with assms(4) that show False by blast
  qed
  have "acyclic R0" using assms(1) by (rule acyclic_subset) (auto simp: R0_def)
  then have "set es \<subseteq> set ds \<Longrightarrow> acyclic (R0 \<union> {x} \<times> set es)" for es
  proof (induction es)
    case (Cons e es)
    have "R0 \<union> {x} \<times> set (e # es) = insert (x, e) (R0 \<union> {x} \<times> set es)" by auto
    then show ?case using Cons apart [of e "set es"] by simp
  qed simp
  then have "acyclic (R0 \<union> {x} \<times> set ds)" by simp
  then show ?thesis by (rule acyclic_subset) (use assms(2,3) in \<open>auto simp: R0_def\<close>)
qed

section \<open>What the log and the cache promise\<close>

text \<open>A store of live tasks: putting a version in, and reading the live version of an identifier.\<close>

locale live_map =
  fixes lookup :: "'s \<Rightarrow> string \<Rightarrow> rtask option"
    and put :: "rtask \<Rightarrow> 's \<Rightarrow> 's"
    and wf :: "'s \<Rightarrow> bool"
  assumes wf_put: "wf s \<Longrightarrow> wf (put t s)"
    and lookup_put:
      "wf s \<Longrightarrow> lookup (put t s) i =
        (if i = task_id t then (if deleted_at t = None then Some t else None) else lookup s i)"
begin

definition replay :: "rtask list \<Rightarrow> 's \<Rightarrow> 's" where
  "replay ts s = foldl (\<lambda>s t. put t s) s ts"

lemma replay_simps [simp]:
  "replay [] s = s" "replay (t # ts) s = replay ts (put t s)"
  "replay (ts @ us) s = replay us (replay ts s)"
  by (simp_all add: replay_def)

lemma wf_replay: "wf s \<Longrightarrow> wf (replay ts s)"
  by (induction ts arbitrary: s) (simp_all add: wf_put)

text \<open>The last version of an identifier decides.\<close>

lemma lookup_replay:
  "wf s \<Longrightarrow> lookup (replay ts s) i =
     (case find (\<lambda>t. task_id t = i) (rev ts) of
        Some t \<Rightarrow> if deleted_at t = None then Some t else None
      | None \<Rightarrow> lookup s i)"
proof (induction ts rule: rev_induct)
  case (snoc t ts)
  then show ?case using lookup_put [OF wf_replay [OF snoc.prems], of t ts i] by (cases "task_id t = i") auto
qed simp

lemma lookup_live:
  assumes "wf s" "\<And>j t. lookup s j = Some t \<Longrightarrow> task_id t = j \<and> deleted_at t = None"
    and "lookup (replay ts s) i = Some t"
  shows "task_id t = i \<and> deleted_at t = None"
  using assms(2,3) unfolding lookup_replay [OF assms(1)]
  by (auto simp: find_Some_iff split: option.splits if_splits)

end

lemma hm_get_apply_entry:
  "hm_get (apply_entry t m) i =
     (if i = task_id t then (if deleted_at t = None then Some t else None) else hm_get m i)"
  by (simp add: apply_entry_def)

lemma hm_ok_apply_entry: "hm_ok m \<Longrightarrow> hm_ok (apply_entry t m)"
  by (simp add: apply_entry_def)

interpretation log_map: live_map hm_get apply_entry hm_ok
  by unfold_locales (simp_all add: hm_get_apply_entry hm_ok_apply_entry)

section \<open>The log read back\<close>

definition as_read :: "crates \<Rightarrow> instant \<Rightarrow> instant \<Rightarrow> rtask \<Rightarrow> rtask" where
  "as_read C created updated t =
     t\<lparr>retry_after_hours := reread C (retry_after_hours t),
       urgency_score := reread_opt C (urgency_score t),
       created_at := created, updated_at := updated\<rparr>"

lemma as_read_simps [simp]:
  "task_id (as_read C c u t) = task_id t" "deleted_at (as_read C c u t) = deleted_at t"
  "updated_at (as_read C c u t) = u" "retry_after_hours (as_read C c u t) = reread C (retry_after_hours t)"
  by (simp_all add: as_read_def)

lemma line_task_task_line:
  "serde_ok C \<Longrightarrow> line_task C c u (task_line C t) =
     (if f64_finite (retry_after_hours t) then Some (as_read C c u t) else None)"
  by (simp add: line_task_def task_line_def serde_okD task_json_roundtrip as_read_def)

lemma task_line_clean:
  assumes "serde_ok C"
  shows "clean_line (task_line C t)" "utf8_valid (task_line C t)" "\<not> blank_line (task_line C t)"
    "task_line C t \<noteq> []" "newline \<notin> set (task_line C t)"
  using serde_okD [OF assms] serde_ok_clean [OF assms] by (simp_all add: task_line_def)

definition whole_log :: "string \<Rightarrow> bool" where
  "whole_log f = (newline_ended f \<and> (\<forall>l \<in> set (raw_lines f). utf8_valid l))"

lemma whole_log_Nil [simp]: "whole_log []"
  by (simp add: whole_log_def)

lemma read_lines_whole: "whole_log f \<Longrightarrow> read_lines f = raw_lines f"
  by (simp add: read_lines_def whole_log_def takeWhile_eq_all_conv)

lemma whole_log_snoc:
  "serde_ok C \<Longrightarrow> whole_log f \<Longrightarrow> whole_log (f @ task_line C t @ [newline])"
  by (simp add: whole_log_def raw_lines_snoc task_line_clean newline_ended_def)

lemma log_entries_snoc:
  assumes "serde_ok C" "whole_log f"
  shows "log_entries C clk (f @ task_line C t @ [newline]) =
    log_entries C clk f @
      (let (c, u) = clk (length (raw_lines f)) in
       if f64_finite (retry_after_hours t) then [as_read C c u t] else [])"
proof -
  have "read_lines (f @ task_line C t @ [newline]) = raw_lines f @ [task_line C t]"
    using whole_log_snoc [OF assms, of t] assms(2)
    by (simp add: read_lines_whole raw_lines_snoc task_line_clean assms(1) whole_log_def)
  then show ?thesis
    unfolding log_entries_def read_lines_whole [OF assms(2)]
    by (simp add: enumerate_append_eq List.map_filter_def task_line_clean line_task_task_line assms(1)
        split: prod.splits)
qed

definition log_view :: "crates \<Rightarrow> clock \<Rightarrow> string \<Rightarrow> string \<Rightarrow> rtask option" where
  "log_view C clk f = hm_get (log_map.replay (log_entries C clk f) [])"

lemma log_view_Nil [simp]: "log_view C clk [] = (\<lambda>i. None)"
  by (simp add: log_view_def log_entries_def read_lines_def List.map_filter_def fun_eq_iff)

lemma log_view_snoc:
  assumes "serde_ok C" "whole_log f" "f64_finite (retry_after_hours t)"
  shows "log_view C clk (f @ task_line C t @ [newline]) i =
    (if i = task_id t then
       (if deleted_at t = None
        then Some (as_read C (fst (clk (length (raw_lines f)))) (snd (clk (length (raw_lines f)))) t)
        else None)
     else log_view C clk f i)"
  using assms(3)
  by (cases "clk (length (raw_lines f))")
    (simp add: log_view_def log_entries_snoc [OF assms(1,2)] hm_get_apply_entry)

lemma rebuild_fold:
  "foldl rebuild_step (a, b, c, m) ts =
     (a + length (filter (\<lambda>t. deleted_at t = None) ts),
      b + length (filter (\<lambda>t. deleted_at t \<noteq> None) ts),
      c + length ts, log_map.replay ts m)"
  by (induction ts arbitrary: a b c m) (simp_all add: rebuild_step_def)

section \<open>Invariant\<close>

text \<open>
  The version \<open>t'\<close> of a task that a reload finds for the version \<open>t\<close> in memory: the skipped fields
  differ, and its doubles may have gone through the JSON printer and parser.
\<close>

definition stored_as :: "crates \<Rightarrow> rtask \<Rightarrow> rtask \<Rightarrow> bool" where
  "stored_as C t t' \<longleftrightarrow>
     (\<exists>c u. t' = t\<lparr>created_at := c, updated_at := u\<rparr> \<or> t' = as_read C c u t)"

definition recovers :: "crates \<Rightarrow> (string \<Rightarrow> rtask option) \<Rightarrow> (string \<Rightarrow> rtask option) \<Rightarrow> bool" where
  "recovers C mem disk \<longleftrightarrow> (\<forall>i. rel_option (stored_as C) (mem i) (disk i))"

definition cache_inv :: "(string, rtask) hashmap \<Rightarrow> bool" where
  "cache_inv m \<longleftrightarrow> hm_ok m \<and>
     (\<forall>i t. hm_get m i = Some t \<longrightarrow>
        task_id t = i \<and> deleted_at t = None \<and> f64_finite (retry_after_hours t))"

definition store_inv :: "crates \<Rightarrow> file_store \<Rightarrow> bool" where
  "store_inv C s \<longleftrightarrow> cache_inv (tasks_cache s) \<and>
     (case log_file s of
        None \<Rightarrow> tasks_cache s = []
      | Some f \<Rightarrow> whole_log f \<and> (\<forall>clk. recovers C (hm_get (tasks_cache s)) (log_view C clk f)))"

definition file_bytes :: "file_store \<Rightarrow> string" where
  "file_bytes s = (case log_file s of None \<Rightarrow> [] | Some f \<Rightarrow> f)"

lemma append_log_bytes [simp]:
  "append_log b s = s\<lparr>log_file := Some (file_bytes s @ b)\<rparr>"
  by (simp add: append_log_def file_bytes_def)

lemma store_inv_bytes:
  "store_inv C s \<Longrightarrow>
   cache_inv (tasks_cache s) \<and> whole_log (file_bytes s) \<and>
   recovers C (hm_get (tasks_cache s)) (log_view C clk (file_bytes s))"
  by (cases "log_file s") (auto simp: store_inv_def file_bytes_def recovers_def)

lemma stored_as_read: "stored_as C t (as_read C c u t)"
  by (auto simp: stored_as_def)

lemma stored_as_same:
  "serde_ok C \<Longrightarrow> stored_as C t t' \<Longrightarrow>
   task_id t' = task_id t \<and> deleted_at t' = deleted_at t \<and>
   (f64_finite (retry_after_hours t) \<longrightarrow> f64_finite (retry_after_hours t'))"
  by (auto simp: stored_as_def serde_okD)

lemma cache_inv_apply_entry:
  "cache_inv m \<Longrightarrow> f64_finite (retry_after_hours t) \<Longrightarrow> cache_inv (apply_entry t m)"
  by (auto simp: cache_inv_def hm_ok_apply_entry hm_get_apply_entry split: if_splits)

lemma save_task_ok:
  "save_task_inner C Io_Ok t chk s =
     (let s' = s\<lparr>log_file := Some (file_bytes s @ task_line C t @ [newline]),
                tasks_cache := apply_entry t (tasks_cache s),
                append_count := append_count s + 1,
                deleted_tasks := (if deleted_at t = None then deleted_tasks s else deleted_tasks s + 1),
                total_tasks := (if deleted_at t = None then total_tasks s + 1 else total_tasks s)\<rparr>
      in (Inr (chk \<and> should_compact s'), s'))"
  by (simp add: save_task_inner_def Let_def)

lemma store_inv_save:
  assumes C: "serde_ok C" and s: "store_inv C s" and fin: "f64_finite (retry_after_hours t)"
  shows "store_inv C (snd (save_task_inner C Io_Ok t chk s))"
proof -
  note b = store_inv_bytes [OF s]
  have "recovers C (hm_get (apply_entry t (tasks_cache s)))
      (log_view C clk (file_bytes s @ task_line C t @ [newline]))" for clk
    using b [of clk] fin
    by (auto simp: recovers_def log_view_snoc [OF C] hm_get_apply_entry stored_as_read)
  then show ?thesis
    using b fin whole_log_snoc [OF C]
    by (simp add: save_task_ok Let_def store_inv_def cache_inv_apply_entry)
qed

section \<open>The clock of a reload\<close>

lemma map_option_bind_assoc:
  "map_option f (Option.bind x g) = Option.bind x (\<lambda>y. map_option f (g y))"
  by (cases x) simp_all

lemma line_task_clock:
  "line_task C c' u' l = map_option (\<lambda>t. t\<lparr>created_at := c', updated_at := u'\<rparr>) (line_task C c u l)"
  by (simp add: line_task_def task_of_json_def map_option_bind_assoc)

lemma line_task_updated: "line_task C c u l = Some t \<Longrightarrow> updated_at t = u"
  using line_task_clock [of C c u l c u] by (auto dest: arg_cong [where f = updated_at])

definition same_but_read :: "rtask \<Rightarrow> rtask \<Rightarrow> bool" where
  "same_but_read a b \<longleftrightarrow> (\<exists>c u. b = a\<lparr>created_at := c, updated_at := u\<rparr>)"

lemma same_but_readI: "same_but_read a (a\<lparr>created_at := c, updated_at := u\<rparr>)"
  by (auto simp: same_but_read_def)

lemma log_entries_clock:
  "list_all2 same_but_read (log_entries C clk f) (log_entries C clk' f)"
proof -
  have "list_all2 same_but_read
      (List.map_filter (\<lambda>(n, l). if blank_line l then None else line_task C (fst (clk n)) (snd (clk n)) l) xs)
      (List.map_filter (\<lambda>(n, l). if blank_line l then None else line_task C (fst (clk' n)) (snd (clk' n)) l) xs)"
    for xs
  proof (induction xs)
    case (Cons x xs)
    obtain n l where x: "x = (n, l)" by fastforce
    show ?case
      using Cons line_task_clock [of C "fst (clk' n)" "snd (clk' n)" l "fst (clk n)" "snd (clk n)"]
      by (cases "blank_line l"; cases "line_task C (fst (clk n)) (snd (clk n)) l")
        (simp_all add: x List.map_filter_simps same_but_readI)
  qed (simp add: List.map_filter_simps)
  then show ?thesis by (simp add: log_entries_def)
qed

lemma replay_clock:
  assumes "list_all2 same_but_read ts ts'" "\<And>i. rel_option same_but_read (hm_get m i) (hm_get m' i)"
  shows "rel_option same_but_read (hm_get (log_map.replay ts m) i) (hm_get (log_map.replay ts' m') i)"
  using assms
proof (induction ts ts' arbitrary: m m' rule: list_all2_induct)
  case (Cons t ts t' ts')
  from Cons(1) have "task_id t' = task_id t" "deleted_at t' = deleted_at t"
    by (auto simp: same_but_read_def)
  then show ?case using Cons by (simp add: hm_get_apply_entry)
qed simp

lemma log_view_clock:
  "rel_option same_but_read (log_view C clk f i) (log_view C clk' f i)"
  unfolding log_view_def by (rule replay_clock [OF log_entries_clock]) simp

lemma rel_option_SomeD: "rel_option R (Some a) b \<Longrightarrow> \<exists>b'. b = Some b' \<and> R a b'"
  by (cases b) auto

text \<open>A cache that is what the log says passes for a store's cache.\<close>

lemma store_inv_reloaded:
  assumes C: "serde_ok C" and m: "cache_inv m" and f: "whole_log f"
    and v: "recovers C (hm_get m) (log_view C clk f)"
  shows "cache_inv (log_map.replay (log_entries C clk f) [])"
    and "recovers C (log_view C clk f) (log_view C clk' f)"
proof -
  have "task_id t' = i \<and> deleted_at t' = None \<and> f64_finite (retry_after_hours t')"
    if "log_view C clk f i = Some t'" for i t'
  proof -
    from v that obtain t where "hm_get m i = Some t" "stored_as C t t'"
      unfolding recovers_def by (metis option.rel_distinct(1) option.rel_inject(2) option.exhaust)
    then show ?thesis using m stored_as_same [OF C] by (auto simp: cache_inv_def)
  qed
  then show "cache_inv (log_map.replay (log_entries C clk f) [])"
    unfolding cache_inv_def by (simp add: log_map.wf_replay flip: log_view_def)
  have "same_but_read a b \<Longrightarrow> stored_as C a b" for a b
    by (auto simp: same_but_read_def stored_as_def)
  then show "recovers C (log_view C clk f) (log_view C clk' f)"
    unfolding recovers_def using log_view_clock option.rel_mono_strong by blast
qed

section \<open>Compaction on a running clock\<close>

definition clock_runs :: "clock \<Rightarrow> bool" where
  "clock_runs clk \<longleftrightarrow> (\<forall>m n. m < n \<longrightarrow> snd (clk m) < snd (clk n))"

lemma log_entries_rising:
  assumes "clock_runs clk"
  shows "sorted_wrt (\<lambda>a b. updated_at a < updated_at b) (log_entries C clk f)"
proof -
  let ?g = "\<lambda>(n, l). if blank_line l then None else line_task C (fst (clk n)) (snd (clk n)) l"
  have "sorted_wrt (\<lambda>a b. updated_at a < updated_at b) (List.map_filter ?g (enumerate k ls)) \<and>
      (\<forall>t \<in> set (List.map_filter ?g (enumerate k ls)). \<exists>n \<ge> k. updated_at t = snd (clk n))" for k ls
  proof (induction ls arbitrary: k)
    case (Cons l ls)
    have later: "snd (clk k) < updated_at t" if "t \<in> set (List.map_filter ?g (enumerate (Suc k) ls))" for t
      using Cons [of "Suc k"] that assms unfolding clock_runs_def by fastforce
    have ks: "\<exists>n \<ge> k. updated_at t = snd (clk n)"
      if "t \<in> set (List.map_filter ?g (enumerate (Suc k) ls))" for t
      using Cons [of "Suc k"] that Suc_leD by blast
    show ?case
      using Cons [of "Suc k"] later ks line_task_updated [of C "fst (clk k)" "snd (clk k)" l]
      by (cases "?g (k, l)") (auto simp: List.map_filter_simps split: if_splits)
  qed (simp add: List.map_filter_simps)
  then show ?thesis by (simp add: log_entries_def)
qed

lemma compact_fold:
  assumes "sorted_wrt (\<lambda>a b. updated_at a < updated_at b) ts"
    and "\<And>i t t'. hm_get m i = Some t \<Longrightarrow> t' \<in> set ts \<Longrightarrow> updated_at t < updated_at t'"
  shows "foldl compact_step m ts = log_map.replay ts m"
  using assms
proof (induction ts arbitrary: m)
  case (Cons t ts)
  have st: "compact_step m t = apply_entry t m"
    using Cons.prems(2) [of "task_id t" _ t] by (auto simp: compact_step_def apply_entry_def split: option.splits)
  have "foldl compact_step (apply_entry t m) ts = log_map.replay ts (apply_entry t m)"
    using Cons by (intro Cons.IH) (auto simp: hm_get_apply_entry split: if_splits)
  then show ?case by (simp add: st)
qed simp

lemma compact_fold_log:
  "clock_runs clk \<Longrightarrow>
   foldl compact_step [] (log_entries C clk f) = log_map.replay (log_entries C clk f) []"
  by (rule compact_fold [OF log_entries_rising]) simp_all

lemma log_text_snoc: "log_text C (ts @ [t]) = log_text C ts @ task_line C t @ [newline]"
  by (simp add: log_text_def)

lemma log_text_whole: "serde_ok C \<Longrightarrow> whole_log (log_text C ts)"
proof (induction ts rule: rev_induct)
  case Nil
  then show ?case by (simp add: log_text_def)
qed (simp add: log_text_snoc whole_log_snoc)

lemma raw_lines_log_text: "serde_ok C \<Longrightarrow> raw_lines (log_text C ts) = map (task_line C) ts"
proof (induction ts rule: rev_induct)
  case Nil
  then show ?case by (simp add: log_text_def)
next
  case (snoc t ts)
  then show ?case
    using log_text_whole [OF snoc.prems, of ts]
    by (simp add: log_text_snoc raw_lines_snoc task_line_clean whole_log_def)
qed

lemma log_view_log_text:
  assumes C: "serde_ok C" and d: "distinct (map task_id ts)"
    and live: "\<forall>t \<in> set ts. deleted_at t = None \<and> f64_finite (retry_after_hours t)"
  shows "rel_option (stored_as C) (map_of (map (\<lambda>t. (task_id t, t)) ts) i) (log_view C clk (log_text C ts) i)"
  using d live
proof (induction ts rule: rev_induct)
  case Nil
  then show ?case by (simp add: log_text_def)
next
  case (snoc t ts)
  have "map_of (map (\<lambda>t. (task_id t, t)) ts) (task_id t) = None"
    using snoc.prems(1) by (force simp: map_of_eq_None_iff)
  then show ?case
    using snoc log_text_whole [OF C, of ts]
    by (auto simp: log_text_snoc log_view_snoc [OF C] stored_as_read map_add_def split: option.splits)
qed

lemma cache_pairs: "cache_inv m \<Longrightarrow> map (\<lambda>t. (task_id t, t)) (hm_values m) = m"
proof -
  assume m: "cache_inv m"
  have "(task_id t, t) = (i, t)" if "(i, t) \<in> set m" for i t
    using m that by (auto simp: cache_inv_def hm_ok_def hm_get_def)
  then show ?thesis by (auto simp: hm_values_def intro!: map_idI)
qed

lemma cache_order:
  assumes "cache_inv m" "mset ts = mset (hm_values m)"
  shows "map_of (map (\<lambda>t. (task_id t, t)) ts) = hm_get m"
    and "distinct (map task_id ts)" "length ts = length m"
    and "\<forall>t \<in> set ts. deleted_at t = None \<and> f64_finite (retry_after_hours t)"
proof -
  let ?p = "map (\<lambda>t. (task_id t, t))"
  have "mset (?p ts) = mset m"
    using assms cache_pairs by (metis mset_map)
  then have s: "set (?p ts) = set m" and d: "distinct (map fst (?p ts)) \<longleftrightarrow> distinct (map fst m)"
    and l: "length (?p ts) = length m"
    by (metis mset_eq_setD, metis mset_eq_imp_distinct_iff mset_map, metis mset_eq_length)
  have dm: "distinct (map fst m)" using assms(1) by (simp add: cache_inv_def hm_ok_def)
  show "map_of (?p ts) = hm_get m"
  proof
    fix i
    show "map_of (?p ts) i = hm_get m i"
      using map_of_eq_Some_iff [OF d [THEN iffD2, OF dm], of i] map_of_eq_Some_iff [OF dm, of i] s
      unfolding hm_get_def by (metis option.exhaust)
  qed
  show "distinct (map task_id ts)" using d dm by (simp add: comp_def)
  show "length ts = length m" using l by simp
  show "\<forall>t \<in> set ts. deleted_at t = None \<and> f64_finite (retry_after_hours t)"
  proof
    fix t assume "t \<in> set ts"
    then have "(task_id t, t) \<in> set m" using s by force
    then have "hm_get m (task_id t) = Some t" using dm by (simp add: hm_get_def)
    then show "deleted_at t = None \<and> f64_finite (retry_after_hours t)"
      using assms(1) by (simp add: cache_inv_def)
  qed
qed

lemma store_inv_compact:
  assumes C: "serde_ok C" and s: "store_inv C s" and f: "log_file s = Some f" and idle: "\<not> compacting s"
    and clk: "clock_runs clk" and ord: "\<And>m. mset (ord m) = mset (hm_values m)"
  shows "compact_log C Io_Ok clk ord s =
      (Inr (), s\<lparr>log_file := Some (log_text C (ord (log_map.replay (log_entries C clk f) []))),
         total_tasks := length (log_map.replay (log_entries C clk f) []),
         deleted_tasks := 0, append_count := 0,
         tasks_cache := log_map.replay (log_entries C clk f) []\<rparr>)"
    and "store_inv C (snd (compact_log C Io_Ok clk ord s))"
    and "recovers C (hm_get (tasks_cache s)) (hm_get (tasks_cache (snd (compact_log C Io_Ok clk ord s))))"
proof -
  let ?m = "log_map.replay (log_entries C clk f) []"
  show eq: "compact_log C Io_Ok clk ord s =
      (Inr (), s\<lparr>log_file := Some (log_text C (ord ?m)), total_tasks := length ?m,
         deleted_tasks := 0, append_count := 0, tasks_cache := ?m\<rparr>)"
    using f idle by (simp add: compact_log_def Let_def compact_fold_log [OF clk])
  have b: "cache_inv (tasks_cache s)" "whole_log f" "recovers C (hm_get (tasks_cache s)) (log_view C clk f)"
    using store_inv_bytes [OF s, of clk] f by (simp_all add: file_bytes_def)
  note m = store_inv_reloaded(1) [OF C b]
  note o = cache_order [OF m ord]
  have "recovers C (hm_get ?m) (log_view C clk' (log_text C (ord ?m)))" for clk'
    using log_view_log_text [OF C o(2,4), of _ clk'] unfolding o(1) recovers_def by blast
  then show "store_inv C (snd (compact_log C Io_Ok clk ord s))"
    using m log_text_whole [OF C] by (simp add: eq store_inv_def)
  show "recovers C (hm_get (tasks_cache s)) (hm_get (tasks_cache (snd (compact_log C Io_Ok clk ord s))))"
    using b(3) by (simp add: eq log_view_def)
qed

lemma store_inv_rebuild:
  assumes C: "serde_ok C" and s: "store_inv C s"
  shows "store_inv C (snd (rebuild_metadata C Io_Ok clk s))"
    and "recovers C (hm_get (tasks_cache s)) (hm_get (tasks_cache (snd (rebuild_metadata C Io_Ok clk s))))"
proof -
  let ?ts = "log_entries C clk (file_bytes s)"
  have b: "cache_inv (tasks_cache s)" "whole_log (file_bytes s)"
    "recovers C (hm_get (tasks_cache s)) (log_view C clk (file_bytes s))"
    using store_inv_bytes [OF s, of clk] by simp_all
  have cache: "tasks_cache (snd (rebuild_metadata C Io_Ok clk s)) = log_map.replay ?ts []"
    and fl: "log_file (snd (rebuild_metadata C Io_Ok clk s)) = log_file s"
    by (simp_all add: rebuild_metadata_def Let_def rebuild_fold file_bytes_def log_entries_def
        read_lines_def List.map_filter_simps split: option.splits)
  show "recovers C (hm_get (tasks_cache s)) (hm_get (tasks_cache (snd (rebuild_metadata C Io_Ok clk s))))"
    using b(3) by (simp add: cache log_view_def)
  show "store_inv C (snd (rebuild_metadata C Io_Ok clk s))"
    using store_inv_reloaded [OF C b] b(2)
    by (auto simp: store_inv_def cache fl file_bytes_def log_view_def log_entries_def read_lines_def
        List.map_filter_simps split: option.splits)
qed

text \<open>Loading a log gives what a reload of the store that wrote it gives.\<close>

lemma load_written_log:
  assumes "serde_ok C" "store_inv C s" "store_new C Io_Ok clk (log_file s) = (r, s')"
  shows "r = Inr ()" "store_inv C s'"
    "recovers C (\<lambda>i. get_latest_task i s) (\<lambda>i. get_latest_task i s')"
proof -
  let ?b = "snd (rebuild_metadata C Io_Ok clk s)"
  have e: "tasks_cache s' = tasks_cache ?b \<and> log_file s' = log_file ?b \<and> r = Inr ()"
    using assms(3) by (auto simp: store_new_def rebuild_metadata_def Let_def rebuild_fold split: option.splits)
  then show "r = Inr ()" by simp
  show "store_inv C s'"
    using store_inv_rebuild(1) [OF assms(1,2), of clk]
    unfolding store_inv_def e [THEN conjunct1] e [THEN conjunct2, THEN conjunct1] .
  show "recovers C (\<lambda>i. get_latest_task i s) (\<lambda>i. get_latest_task i s')"
    using store_inv_rebuild(2) [OF assms(1,2), of clk] e by (simp add: get_latest_task_def recovers_def)
qed

section \<open>Damaged logs\<close>

lemma log_entries_parts:
  assumes "whole_log f" "read_lines g = raw_lines f @ ls"
  shows "log_entries C clk g = log_entries C clk f @ List.map_filter
    (\<lambda>(n, l). if blank_line l then None else line_task C (fst (clk n)) (snd (clk n)) l)
    (enumerate (length (raw_lines f)) ls)"
  using assms(2) unfolding log_entries_def read_lines_whole [OF assms(1)]
  by (simp add: enumerate_append_eq List.map_filter_def)

lemma log_entries_glued:
  assumes "serde_ok C" "whole_log f" "newline \<notin> set torn"
    and "json_of_text C (torn @ task_line C t) = None"
  shows "log_entries C clk ((f @ torn) @ task_line C t @ [newline]) = log_entries C clk f"
proof -
  let ?l = "torn @ task_line C t"
  have "raw_lines ((f @ torn) @ task_line C t @ [newline]) = raw_lines f @ [?l]"
    using assms(2,3) task_line_clean [OF assms(1)]
    by (intro raw_lines_snoc_torn) (simp_all add: whole_log_def)
  then have "read_lines ((f @ torn) @ task_line C t @ [newline]) = raw_lines f @ takeWhile utf8_valid [?l]"
    using assms(2) unfolding read_lines_def whole_log_def by (simp add: takeWhile_append2)
  from log_entries_parts [OF assms(2) this] show ?thesis
    using assms(4) by (simp add: List.map_filter_simps line_task_def)
qed

lemma log_entries_hidden:
  assumes "whole_log f" "clean_line bad" "\<not> utf8_valid bad"
  shows "log_entries C clk (f @ bad @ newline # g) = log_entries C clk f"
proof -
  have "strip_cr bad = bad" using assms(2) by (auto simp: clean_line_def strip_cr_def)
  then have "raw_lines (f @ bad @ newline # g) = raw_lines f @ bad # raw_lines g"
    using assms(1,2) by (simp add: raw_lines_append raw_lines_first whole_log_def clean_line_def)
  then have "read_lines (f @ bad @ newline # g) = raw_lines f @ []"
    using assms(1,3) unfolding read_lines_def whole_log_def by (simp add: takeWhile_append2)
  from log_entries_parts [OF assms(1) this] show ?thesis
    by (simp add: List.map_filter_simps)
qed

lemma rebuild_lookup:
  "get_latest_task i (snd (rebuild_metadata C Io_Ok clk s)) = log_view C clk (file_bytes s) i"
  by (simp add: rebuild_metadata_def Let_def rebuild_fold file_bytes_def log_view_def log_entries_def
      read_lines_def List.map_filter_simps get_latest_task_def split: option.splits)

section \<open>The store as a live map\<close>

definition store_put :: "crates \<Rightarrow> rtask \<Rightarrow> file_store \<Rightarrow> file_store" where
  "store_put C t s = snd (save_task C Io_Ok t s)"

lemma store_put_cache:
  "tasks_cache (snd (save_task_inner C Io_Ok t chk s)) = apply_entry t (tasks_cache s)"
  by (simp add: save_task_ok Let_def)

interpretation store_map: live_map "\<lambda>s i. get_latest_task i s" "store_put C" "\<lambda>s. hm_ok (tasks_cache s)" for C
  by unfold_locales
    (simp_all add: store_put_def save_task_def store_put_cache get_latest_task_def
      hm_get_apply_entry hm_ok_apply_entry)

section \<open>Properties\<close>

text \<open>
  Property C2: a successful save keeps the invariant of the store, makes the version that was
  saved the latest one (or removes the task if it is a tombstone), touches no other task, and
  survives a restart: the metadata rebuilt from the file hold the same tasks.
\<close>

theorem save_task_durable:
  assumes "serde_ok C" "store_inv C s" "f64_finite (retry_after_hours t)"
  shows "is_ok (fst (save_task C Io_Ok t s)) \<and> store_inv C (snd (save_task C Io_Ok t s)) \<and>
    (\<lambda>i. get_latest_task i (snd (save_task C Io_Ok t s))) =
      (\<lambda>i. get_latest_task i s)(task_id t := (if deleted_at t = None then Some t else None)) \<and>
    recovers C (\<lambda>i. get_latest_task i (snd (save_task C Io_Ok t s)))
      (\<lambda>i. get_latest_task i (snd (rebuild_metadata C Io_Ok clk (snd (save_task C Io_Ok t s)))))"
proof -
  have i: "store_inv C (snd (save_task C Io_Ok t s))"
    using assms by (simp add: save_task_def store_inv_save)
  have "hm_ok (tasks_cache s)" using store_inv_bytes [OF assms(2)] by (simp add: cache_inv_def)
  then have "(\<lambda>i. get_latest_task i (snd (save_task C Io_Ok t s))) =
      (\<lambda>i. get_latest_task i s)(task_id t := (if deleted_at t = None then Some t else None))"
    using store_map.lookup_put [where C = C and s = s and t = t]
    by (simp add: fun_eq_iff store_put_def)
  moreover have "is_ok (fst (save_task C Io_Ok t s))"
    by (simp add: save_task_def save_task_ok Let_def)
  moreover note store_inv_rebuild(2) [OF assms(1) i, of clk, folded get_latest_task_def]
  ultimately show ?thesis using i by (simp only: get_latest_task_def [abs_def] simp_thms)
qed

definition empty_store :: "string option \<Rightarrow> file_store" where
  "empty_store f = \<lparr>log_file = f, total_tasks = 0, deleted_tasks = 0, append_count = 0,
     compacting = False, tasks_cache = []\<rparr>"

lemma store_inv_empty: "store_inv C (empty_store None)"
  by (simp add: empty_store_def store_inv_def cache_inv_def)

lemma demo_task_finite: "f64_finite (retry_after_hours demo_task)"
  by (simp add: demo_task_def task_new_def f64_zero_def)

lemma save_task_durable_witness:
  "store_inv demo_crates (snd (save_task demo_crates Io_Ok demo_task (empty_store None)))"
  using save_task_durable [OF serde_ok_demo store_inv_empty demo_task_finite] by blast

text \<open>
  Property C6: compacting a log while the clock advances from line to line loses nothing: every
  live task is still the latest one, in memory and in the new file, the invariant of the store is
  kept, the new file has one line per live task, and the counters restart from it.
\<close>

theorem compact_log_preserves:
  assumes "serde_ok C" "store_inv C s" "log_file s \<noteq> None" "\<not> compacting s"
    and "clock_runs clk" "\<And>m. mset (ord m) = mset (hm_values m)"
  defines "s' \<equiv> snd (compact_log C Io_Ok clk ord s)"
  shows "is_ok (fst (compact_log C Io_Ok clk ord s)) \<and> store_inv C s' \<and>
    recovers C (\<lambda>i. get_latest_task i s) (\<lambda>i. get_latest_task i s') \<and>
    length (raw_lines (file_bytes s')) = length (read_tasks s') \<and>
    total_tasks s' = length (read_tasks s') \<and> deleted_tasks s' = 0 \<and> append_count s' = 0 \<and>
    \<not> compacting s'"
proof -
  from assms(3) obtain f where f: "log_file s = Some f" by blast
  note c = store_inv_compact [OF assms(1,2) f assms(4,5,6)]
  let ?m = "log_map.replay (log_entries C clk f) []"
  have "length (ord ?m) = length ?m"
    using assms(6) [of ?m] by (metis hm_values_def length_map size_mset)
  then show ?thesis
    using c(2,3) assms(4) unfolding s'_def c(1)
    by (simp add: file_bytes_def raw_lines_log_text assms(1) read_tasks_def hm_values_def get_latest_task_def)
qed

definition tick_clock :: clock where
  "tick_clock n = (int n, int n)"

lemma clock_runs_tick: "clock_runs tick_clock"
  by (simp add: clock_runs_def tick_clock_def)

definition demo_store :: file_store where
  "demo_store = snd (save_task demo_crates Io_Ok demo_task (empty_store None))"

lemma store_inv_demo: "store_inv demo_crates demo_store"
  unfolding demo_store_def save_task_def
  by (rule store_inv_save [OF serde_ok_demo store_inv_empty demo_task_finite])

lemma demo_store_simps:
  "log_file demo_store = Some (task_line demo_crates demo_task @ [newline])"
  "\<not> compacting demo_store" "hm_get (tasks_cache demo_store) = [task_id demo_task \<mapsto> demo_task]"
  by (auto simp: demo_store_def save_task_def save_task_ok Let_def empty_store_def file_bytes_def
      hm_get_apply_entry fun_eq_iff demo_task_def task_new_def)

lemma compact_log_preserves_witness:
  "store_inv demo_crates (snd (compact_log demo_crates Io_Ok tick_clock hm_values demo_store))"
  using compact_log_preserves [OF serde_ok_demo store_inv_demo _ _ clock_runs_tick, of hm_values]
  by (simp add: demo_store_simps)

text \<open>
  Compaction decides between two lines of one task by the time at which the lines
  are read, as the stored update time is not part of a line. If the clock gives the same
  reading for both, the older version wins: after two successful saves and a compaction, memory and
  file hold the first version.
\<close>

lemma compact_log_equal_clock:
  assumes "serde_ok C" "task_id b = task_id a" "deleted_at a = None" "deleted_at b = None"
    and "f64_finite (retry_after_hours a)" "f64_finite (retry_after_hours b)"
  defines "s \<equiv> snd (save_task C Io_Ok b (snd (save_task C Io_Ok a (empty_store None))))"
  shows "get_latest_task (task_id a) s = Some b \<and>
    get_latest_task (task_id a) (snd (compact_log C Io_Ok (\<lambda>n. (now, now)) hm_values s)) =
      Some (as_read C now now a) \<and>
    log_file (snd (compact_log C Io_Ok (\<lambda>n. (now, now)) hm_values s)) =
      Some (task_line C (as_read C now now a) @ [newline])"
proof -
  let ?clk = "\<lambda>n::nat. (now, now)"
  have f: "log_file s = Some ((task_line C a @ [newline]) @ task_line C b @ [newline])"
    by (simp add: s_def save_task_def save_task_ok Let_def empty_store_def file_bytes_def)
  have w: "whole_log (task_line C a @ [newline])"
    using whole_log_snoc [OF assms(1) whole_log_Nil, of a] by simp
  have "log_entries C ?clk (task_line C a @ [newline]) = [as_read C now now a]"
    using log_entries_snoc [OF assms(1) whole_log_Nil, of ?clk a] assms(5)
    by (simp add: log_entries_def read_lines_def List.map_filter_simps)
  then have e: "log_entries C ?clk (the (log_file s)) = [as_read C now now a, as_read C now now b]"
    unfolding f using log_entries_snoc [OF assms(1) w, of ?clk b] assms(6) by simp
  have m: "compact_step (compact_step [] (as_read C now now a)) (as_read C now now b) =
      [(task_id a, as_read C now now a)]"
    using assms(2-4) by (simp add: compact_step_def hm_insert_def hm_get_def)
  have "\<not> compacting s" by (simp add: s_def save_task_def save_task_ok Let_def empty_store_def)
  then have "compact_log C Io_Ok ?clk hm_values s =
      (Inr (), s\<lparr>log_file := Some (log_text C [as_read C now now a]), total_tasks := 1,
         deleted_tasks := 0, append_count := 0,
         tasks_cache := [(task_id a, as_read C now now a)], compacting := False\<rparr>)"
    using e f by (simp add: compact_log_def Let_def m hm_values_def)
  then show ?thesis
    using assms(2,4) by (simp add: get_latest_task_def log_text_def s_def save_task_def
        save_task_ok Let_def hm_get_apply_entry hm_get_def [of "[(x, y)]" for x y])
qed

lemma compact_log_equal_clock_example:
  "\<exists>s. get_latest_task ''a'' s = Some (demo_task\<lparr>task_data := ''new''\<rparr>) \<and>
     get_latest_task ''a'' (snd (compact_log demo_crates Io_Ok (\<lambda>n. (7, 7)) hm_values s)) =
       Some (as_read demo_crates 7 7 demo_task)"
  using compact_log_equal_clock [OF serde_ok_demo, of "demo_task\<lparr>task_data := ''new''\<rparr>" demo_task 7]
    demo_task_finite
  by (auto simp: demo_task_def task_new_def)

text \<open>
  Property C37: when a write or a crash has left the first bytes of a line at the end of the log, the
  next save appends to that torn line. It reports success and the task is in memory, but
  if the glued text is not a task, a restart finds exactly the tasks there were before: the task
  is lost.
\<close>

theorem torn_line_swallows_next_save:
  assumes "serde_ok C" "store_inv C s" "n \<le> length (task_line C a)" "deleted_at b = None"
    and "json_of_text C (take n (task_line C a) @ task_line C b) = None"
  defines "s2 \<equiv> save_task C Io_Ok b (snd (save_task C (Write_Torn n) a s))"
  shows "is_ok (fst s2) \<and> get_latest_task (task_id b) (snd s2) = Some b \<and>
    (\<forall>i. get_latest_task i (snd (rebuild_metadata C Io_Ok clk (snd s2))) =
         get_latest_task i (snd (rebuild_metadata C Io_Ok clk s)))"
proof -
  let ?torn = "take n (task_line C a)"
  have w: "whole_log (file_bytes s)" using store_inv_bytes [OF assms(2)] by simp
  have "newline \<notin> set ?torn" using task_line_clean(5) [OF assms(1)] by (meson in_set_takeD)
  note g = log_entries_glued [OF assms(1) w this assms(5), of clk]
  have s1: "snd (save_task C (Write_Torn n) a s) = s\<lparr>log_file := Some (file_bytes s @ ?torn)\<rparr>"
    using assms(3) by (simp add: save_task_def save_task_inner_def Let_def)
  have "file_bytes (snd s2) = (file_bytes s @ ?torn) @ task_line C b @ [newline]"
    unfolding s2_def s1 by (simp add: save_task_def save_task_ok Let_def file_bytes_def)
  then have "log_view C clk (file_bytes (snd s2)) = log_view C clk (file_bytes s)"
    unfolding log_view_def by (simp only: g)
  then show ?thesis
    using assms(4) unfolding rebuild_lookup s2_def s1
    by (simp add: save_task_def save_task_ok Let_def get_latest_task_def hm_get_apply_entry)
qed

lemma demo_line_glued: "json_of_text demo_crates (take 1 (task_line demo_crates a) @ task_line demo_crates b) = None"
  by (simp add: task_line_def task_to_json_def demo_crates_def decode_json_def numeral_eq_Suc)

lemma torn_line_swallows_next_save_witness:
  "\<exists>s. get_latest_task ''b'' s \<noteq> None \<and>
     get_latest_task ''b'' (snd (rebuild_metadata demo_crates Io_Ok tick_clock s)) =
     get_latest_task ''b'' (snd (rebuild_metadata demo_crates Io_Ok tick_clock demo_store))"
proof -
  have "1 \<le> length (task_line demo_crates demo_task)"
    using task_line_clean(4) [OF serde_ok_demo, of demo_task] by (cases "task_line demo_crates demo_task") auto
  from torn_line_swallows_next_save [OF serde_ok_demo store_inv_demo this _ demo_line_glued,
      of "demo_task\<lparr>task_id := ''b''\<rparr>" tick_clock]
  show ?thesis by (auto simp: demo_task_def task_new_def)
qed

text \<open>
  A line that is not UTF-8 ends the reading of the log. Whatever is saved
  behind it is acknowledged and in memory, and unknown after a restart.
\<close>

lemma invalid_utf8_hides_later_saves:
  assumes "whole_log f" "clean_line bad" "\<not> utf8_valid bad"
    and "log_file s = Some (f @ bad @ newline # g)"
  shows "is_ok (fst (save_task C Io_Ok t s)) \<and>
    get_latest_task i (snd (rebuild_metadata C Io_Ok clk (snd (save_task C Io_Ok t s)))) =
    get_latest_task i (snd (rebuild_metadata C Io_Ok clk (s\<lparr>log_file := Some f\<rparr>)))"
proof -
  have "file_bytes (snd (save_task C Io_Ok t s)) = f @ bad @ newline # (g @ task_line C t @ [newline])"
    using assms(4) by (simp add: save_task_def save_task_ok Let_def file_bytes_def)
  then have "log_view C clk (file_bytes (snd (save_task C Io_Ok t s))) = log_view C clk f"
    unfolding log_view_def by (simp only: log_entries_hidden [OF assms(1-3)])
  then show ?thesis
    unfolding rebuild_lookup by (simp add: save_task_def save_task_ok Let_def file_bytes_def [of "s\<lparr>log_file := Some f\<rparr>"])
qed

lemma invalid_utf8_hides_later_saves_example:
  "get_latest_task ''a'' (snd (rebuild_metadata demo_crates Io_Ok tick_clock
     (snd (save_task demo_crates Io_Ok demo_task (empty_store (Some [CHR 0xFF, CHR 0x0A])))))) = None"
proof -
  have "clean_line [CHR 0xFF]" "\<not> utf8_valid [CHR 0xFF]"
    by (simp_all add: clean_line_def newline_def carriage_return_def utf8_valid_def)
  from invalid_utf8_hides_later_saves [OF whole_log_Nil this, of "empty_store (Some [CHR 0xFF, CHR 0x0A])" "[]"
      demo_crates demo_task "''a''" tick_clock]
  show ?thesis
    unfolding rebuild_lookup by (simp add: empty_store_def newline_def file_bytes_def)
qed

text \<open>
  Property C18: the cycle check rejects a task exactly if one of the tasks it waits for leads back
  to it through the dependencies of the live tasks, and it ends on every cache, cyclic ones
  included.
\<close>

theorem detect_cycle_exact:
  "detect_cycle new ids s \<longleftrightarrow>
   (\<exists>i \<in> set ids. (i, new) \<in> {(a, b). \<exists>t ds. get_latest_task a s = Some t \<and>
       trigger_after_ids t = Some ds \<and> b \<in> set ds}\<^sup>*)"
proof -
  have "dep_rel (tasks_cache s) = {(a, b). \<exists>t ds. get_latest_task a s = Some t \<and>
      trigger_after_ids t = Some ds \<and> b \<in> set ds}"
    unfolding dep_rel_def get_latest_task_def by (simp add: in_deps_of)
  then show ?thesis by (simp only: detect_cycle_reaches)
qed

text \<open>
  Property C19: if the dependencies of the live tasks have no cycle and a task passes the cycle
  check, they have none after the task is saved, whether its identifier is new or not.
\<close>

theorem checked_save_keeps_acyclic:
  assumes "acyclic (dep_rel (tasks_cache s))"
    and "\<not> detect_cycle (task_id t) (case trigger_after_ids t of None \<Rightarrow> [] | Some ds \<Rightarrow> ds) s"
  shows "acyclic (dep_rel (tasks_cache (snd (save_task C Io_Ok t s))))"
proof -
  define ds where "ds = (case trigger_after_ids t of None \<Rightarrow> [] | Some ds \<Rightarrow> ds)"
  define m where "m = apply_entry t (tasks_cache s)"
  have d: "deps_of m i =
      (if i = task_id t then if deleted_at t = None then ds else [] else deps_of (tasks_cache s) i)" for i
    by (simp add: deps_of_def hm_get_apply_entry ds_def m_def)
  have "dep_rel m \<subseteq> dep_rel (tasks_cache s) \<union> {task_id t} \<times> set ds"
    and "\<forall>z. (task_id t, z) \<in> dep_rel m \<longrightarrow> z \<in> set ds"
    by (auto simp: dep_rel_def d split: if_splits)
  moreover have "(i, task_id t) \<notin> (dep_rel (tasks_cache s))\<^sup>*" if "i \<in> set ds" for i
    using assms(2) that unfolding detect_cycle_reaches ds_def by blast
  ultimately have "acyclic (dep_rel m)" by (rule acyclic_replace_edges [OF assms(1)])
  then show ?thesis by (simp add: save_task_def store_put_cache m_def)
qed

lemma checked_save_keeps_acyclic_witness:
  "acyclic (dep_rel (tasks_cache (snd (save_task demo_crates Io_Ok
     (demo_task\<lparr>trigger_after_ids := Some [''b'']\<rparr>) (empty_store None)))))"
proof -
  have "dep_rel (tasks_cache (empty_store None)) = {}"
    by (simp add: dep_rel_def deps_of_def empty_store_def)
  then show ?thesis
    using checked_save_keeps_acyclic [of "empty_store None" "demo_task\<lparr>trigger_after_ids := Some [''b'']\<rparr>"]
    by (simp add: detect_cycle_reaches demo_task_def task_new_def acyclic_def)
qed

text \<open>
  Property C17: deleting a task that is live removes it from the store, for good and also after a
  restart, leaves the other tasks, never spawns a compaction, and completes what waits for it alone;
  deleting again does nothing.
\<close>

theorem delete_task_completes:
  fixes now now' :: instant
  assumes "serde_ok C" "store_inv C s" "get_latest_task i s = Some t"
  defines "s' \<equiv> snd (delete_task C Io_Ok now now' i s)"
  shows "fst (delete_task C Io_Ok now now' i s) = Inr False \<and> store_inv C s' \<and>
    (\<lambda>j. get_latest_task j s') = (\<lambda>j. get_latest_task j s)(i := None) \<and>
    get_latest_task i (snd (rebuild_metadata C Io_Ok clk s')) = None \<and>
    are_tasks_completed [i] s' \<and> delete_task C Io_Ok now2 now3 i s' = (Inr False, s')"
proof -
  have c: "cache_inv (tasks_cache s)" using store_inv_bytes [OF assms(2)] by simp
  then have t: "task_id t = i" "deleted_at t = None" "f64_finite (retry_after_hours t)"
    using assms(3) by (auto simp: cache_inv_def get_latest_task_def)
  let ?t = "mark_deleted now now' t"
  have d: "task_id ?t = i" "deleted_at ?t = Some now" "f64_finite (retry_after_hours ?t)"
    using t by (simp_all add: mark_deleted_def)
  have del: "delete_task C Io_Ok now now' i s = save_task_inner C Io_Ok ?t False s"
    using assms(3) t(2) by (simp add: delete_task_def get_latest_task_def)
  then have s': "s' = snd (save_task_inner C Io_Ok ?t False s)" by (simp add: s'_def)
  have inv: "store_inv C s'" unfolding s' by (rule store_inv_save [OF assms(1,2) d(3)])
  have look: "get_latest_task j s' = (if j = i then None else get_latest_task j s)" for j
    unfolding s' get_latest_task_def store_put_cache using d by (simp add: hm_get_apply_entry)
  have "rel_option (stored_as C) (get_latest_task i s') (get_latest_task i (snd (rebuild_metadata C Io_Ok clk s')))"
    using store_inv_rebuild(2) [OF assms(1) inv, of clk] by (simp add: recovers_def get_latest_task_def)
  then have "get_latest_task i (snd (rebuild_metadata C Io_Ok clk s')) = None"
    by (simp add: look)
  then show ?thesis
    using inv look del look [of i]
    by (auto simp: fun_eq_iff save_task_ok Let_def are_tasks_completed_def hm_contains_get
        delete_task_def get_latest_task_def)
qed

lemma delete_task_completes_witness:
  "are_tasks_completed [''a''] (snd (delete_task demo_crates Io_Ok 1 2 ''a'' demo_store))"
  using delete_task_completes [OF serde_ok_demo store_inv_demo, of "''a''" demo_task]
  by (simp add: get_latest_task_def demo_store_simps demo_task_def task_new_def)

text \<open>
  The size, ratio and count tests that trigger a compaction, in whole numbers: the log is
  larger than 20 MiB, more than half as many tombstones as live lines were appended, or ten
  thousand lines were appended since the last compaction. The division of doubles decides the
  ratio exactly.
\<close>

lemma should_compact_exact:
  assumes "total_tasks s < 2 ^ 53" "deleted_tasks s < 2 ^ 53"
  shows "should_compact s \<longleftrightarrow>
    (log_file s \<noteq> None \<and> 20971520 < length (the (log_file s))) \<or>
    (0 < total_tasks s \<and> total_tasks s < 2 * deleted_tasks s) \<or> 10000 \<le> append_count s"
  using f64_ratio_half [OF assms(2) _ assms(1)]
  by (cases "total_tasks s = 0") (auto simp: should_compact_def split: option.splits)

text \<open>
  A save that fails, at whatever call, changes neither the tasks in memory nor the
  counters, and what is in the file before stays there. If only the final sync fails, the task
  is in the file nevertheless, and a restart brings it to life although the caller was told
  that it was not saved.
\<close>

lemma failed_save:
  assumes "w \<notin> {Io_Ok, Rename_Fails}"
  shows "fst (save_task C w t s) = Inl (Io_Error w) \<and>
    tasks_cache (snd (save_task C w t s)) = tasks_cache s \<and>
    (total_tasks (snd (save_task C w t s)), deleted_tasks (snd (save_task C w t s)),
      append_count (snd (save_task C w t s))) = (total_tasks s, deleted_tasks s, append_count s) \<and>
    prefix (file_bytes s) (file_bytes (snd (save_task C w t s))) \<and>
    (serde_ok C \<and> store_inv C s \<and> f64_finite (retry_after_hours t) \<and> deleted_at t = None \<and> w = Sync_Fails \<longrightarrow>
      (\<exists>t'. get_latest_task (task_id t) (snd (rebuild_metadata C Io_Ok clk (snd (save_task C w t s)))) = Some t' \<and>
        stored_as C t t'))"
proof -
  have "\<exists>t'. get_latest_task (task_id t) (snd (rebuild_metadata C Io_Ok clk (snd (save_task C Sync_Fails t s)))) =
      Some t' \<and> stored_as C t t'"
    if "serde_ok C" "store_inv C s" "f64_finite (retry_after_hours t)" "deleted_at t = None"
  proof -
    have b: "file_bytes (snd (save_task C Sync_Fails t s)) = file_bytes s @ task_line C t @ [newline]"
      by (simp add: save_task_def save_task_inner_def Let_def file_bytes_def)
    have "whole_log (file_bytes s)" using store_inv_bytes [OF that(2)] by simp
    from log_view_snoc [OF that(1) this that(3), of clk "task_id t"] that(4) show ?thesis
      unfolding rebuild_lookup b by (auto simp: stored_as_read)
  qed
  then show ?thesis
    using assms by (cases w) (auto simp: save_task_def save_task_inner_def Let_def file_bytes_def)
qed

lemma failed_save_example:
  "fst (save_task demo_crates (Write_Torn 3) demo_task demo_store) = Inl (Io_Error (Write_Torn 3)) \<and>
   get_latest_task ''a'' (snd (rebuild_metadata demo_crates Io_Ok tick_clock
     (snd (save_task demo_crates Sync_Fails demo_task demo_store)))) \<noteq> None"
  using failed_save [of "Write_Torn 3"] failed_save [of Sync_Fails demo_crates demo_task demo_store tick_clock]
    serde_ok_demo store_inv_demo demo_task_finite
  by (auto simp: demo_task_def task_new_def)

end
