(* ===== verification/Rate_Limiter.thy ===== *)
theory Rate_Limiter
  imports Demo_Crates
begin

text \<open>
  \<open>src/rate_limiter.rs\<close>: the windows of the rate-limit groups in \<open>rate_limits.json\<close>.

  The state is the content of that file. A call holds the file's exclusive lock from the read to
  the write, so it is one step; the time it reads the clock is an argument.
\<close>

section \<open>The path of the file\<close>

text \<open>
  A path is the list of its components. \<open>PathBuf::set_file_name\<close> replaces the last one, unless there is none or it
  is \<open>.\<close> or \<open>..\<close>.
\<close>

definition has_file_name :: "string list \<Rightarrow> bool" where
  "has_file_name p = (p \<noteq> [] \<and> last p \<noteq> ''.'' \<and> last p \<noteq> ''..'')"

definition set_file_name :: "string \<Rightarrow> string list \<Rightarrow> string list" where
  "set_file_name n p = (if has_file_name p then butlast p else p) @ [n]"

definition rate_limiter_new :: "string list \<Rightarrow> string list" where
  "rate_limiter_new tasks_path = set_file_name ''rate_limits.json'' tasks_path"

section \<open>Data\<close>

record rate_window =
  rw_count :: i32
  window_start :: instant

definition window_to_json :: "crates \<Rightarrow> rate_window \<Rightarrow> value" where
  "window_to_json C w =
     JObj [(''count'', JInt (sint (rw_count w))), (''window_start'', JStr (rfc3339 C (window_start w)))]"

definition window_of_json :: "crates \<Rightarrow> value \<Rightarrow> rate_window option" where
  "window_of_json C j = do {
     f \<leftarrow> struct_fields [''count'', ''window_start''] j;
     c \<leftarrow> req de_i32 (f ''count'');
     s \<leftarrow> req (de_time C) (f ''window_start'');
     Some \<lparr>rw_count = c, window_start = s\<rparr> }"

section \<open>One call\<close>

text \<open>\<open>BufReader::read_line\<close>: up to and with the first newline.\<close>

definition first_line :: "string \<Rightarrow> string" where
  "first_line f = takeWhile (\<lambda>c. c \<noteq> newline) f @ (if newline \<in> set f then [newline] else [])"

definition load_limits :: "crates \<Rightarrow> string \<Rightarrow> (string, rate_window) hashmap" where
  "load_limits C f =
     (let line = first_line f in
      if utf8_valid line \<and> line \<noteq> [] then
        (case Option.bind (json_of_text C line) (de_map (window_of_json C)) of
           Some parsed \<Rightarrow> parsed
         | None \<Rightarrow> [])
      else [])"

text \<open>\<open>chrono::Duration::num_seconds\<close>, towards zero.\<close>

definition num_seconds :: "duration \<Rightarrow> int" where
  "num_seconds d = (if d < 0 then - (- d div 1000000000) else d div 1000000000)"

definition rate_step ::
  "instant \<Rightarrow> string \<Rightarrow> i32 \<Rightarrow> (string, rate_window) hashmap \<Rightarrow> bool \<times> (string, rate_window) hashmap"
where
  "rate_step now grp limit m =
     (let w = (case hm_get m grp of Some w \<Rightarrow> w | None \<Rightarrow> \<lparr>rw_count = 0, window_start = now\<rparr>);
          w = (if num_seconds (now - window_start w) \<ge> 60
               then w\<lparr>rw_count := 0, window_start := now\<rparr> else w);
          allow = (sint (rw_count w) < sint limit);
          w = (if allow then w\<lparr>rw_count := rw_count w + 1\<rparr> else w)
      in (allow, hm_insert grp w m))"

definition limits_line :: "crates \<Rightarrow> (string, rate_window) hashmap \<Rightarrow> string" where
  "limits_line C m = json_text C (ser_map (window_to_json C) m) @ [newline]"

definition check_and_increment ::
  "crates \<Rightarrow> io \<Rightarrow> instant \<Rightarrow> string \<Rightarrow> i32 \<Rightarrow> string option \<Rightarrow> (io_error + bool) \<times> string option"
where
  "check_and_increment C w now grp limit f =
     (if w \<in> {Dir_Fails, Open_Fails} then (Inl (Io_Error w), f)
      else
        let limits = load_limits C (case f of None \<Rightarrow> [] | Some b \<Rightarrow> b);
            (allow, limits') = rate_step now grp limit limits;
            line = limits_line C limits'
        in case w of
             Write_Torn n \<Rightarrow> (Inl (Io_Error w), Some (take n line))
           | Sync_Fails \<Rightarrow> (Inl (Io_Error w), Some line)
           | _ \<Rightarrow> (Inr allow, Some line))"

text \<open>A sequence of calls \<open>(time, grp, limit)\<close> on one file, without faults.\<close>

type_synonym rate_call = "instant \<times> string \<times> i32"

fun check_run :: "crates \<Rightarrow> rate_call list \<Rightarrow> string option \<Rightarrow> bool list" where
  "check_run C [] f = []"
| "check_run C ((now, grp, limit) # calls) f =
     (let (r, f') = check_and_increment C Io_Ok now grp limit f
      in (r = Inr True) # check_run C calls f')"

definition granted :: "string \<Rightarrow> rate_call list \<Rightarrow> bool list \<Rightarrow> nat" where
  "granted g calls rs = length (filter (\<lambda>((now, grp, limit), r). grp = g \<and> r) (zip calls rs))"

definition calls_of :: "string \<Rightarrow> rate_call list \<Rightarrow> nat" where
  "calls_of g calls = length (filter (\<lambda>(now, grp, limit). grp = g) calls)"

section \<open>The file stands for the table\<close>

lemma window_roundtrip: "serde_ok C \<Longrightarrow> window_of_json C (map_json f (window_to_json C w)) = Some w"
  by (cases w) (simp add: window_of_json_def window_to_json_def struct_fields_def serde_okD del: de_i32.simps)

lemma load_limits_line:
  assumes "serde_ok C" "hm_ok m"
  shows "load_limits C (limits_line C m) = m"
proof -
  let ?j = "ser_map (window_to_json C) m"
  have n: "newline \<notin> set (json_text C ?j)" using serde_ok_clean [OF assms(1)] by blast
  then have "takeWhile (\<lambda>c. c \<noteq> newline) (json_text C ?j @ [newline]) = json_text C ?j"
    by (subst takeWhile_append2) auto
  then have l: "first_line (limits_line C m) = json_text C ?j @ [newline]"
    by (simp add: first_line_def limits_line_def)
  have "utf8_valid (json_text C ?j @ [newline])"
    by (intro utf8_valid_newline serde_okD [OF assms(1)])
  then show ?thesis
    using de_ser_map [OF assms(2), of "window_of_json C" "reread C" "window_to_json C"]
    by (simp add: load_limits_def l serde_okD [OF assms(1)] window_roundtrip [OF assms(1)])
qed

lemma hm_ok_rate_step: "hm_ok m \<Longrightarrow> hm_ok (snd (rate_step now grp limit m))"
  by (simp add: rate_step_def Let_def)

lemma check_and_increment_line:
  "serde_ok C \<Longrightarrow> hm_ok m \<Longrightarrow>
   check_and_increment C Io_Ok now grp limit (Some (limits_line C m)) =
     (Inr (fst (rate_step now grp limit m)), Some (limits_line C (snd (rate_step now grp limit m))))"
  by (simp add: check_and_increment_def load_limits_line Let_def split: prod.splits)

lemma check_and_increment_none:
  "check_and_increment C Io_Ok now grp limit None =
     (Inr (fst (rate_step now grp limit [])), Some (limits_line C (snd (rate_step now grp limit []))))"
  by (simp add: check_and_increment_def load_limits_def first_line_def Let_def split: prod.splits)

fun rate_run :: "rate_call list \<Rightarrow> (string, rate_window) hashmap \<Rightarrow> bool list" where
  "rate_run [] m = []"
| "rate_run ((now, grp, limit) # calls) m =
     fst (rate_step now grp limit m) # rate_run calls (snd (rate_step now grp limit m))"

lemma check_run_line:
  "serde_ok C \<Longrightarrow> hm_ok m \<Longrightarrow> check_run C calls (Some (limits_line C m)) = rate_run calls m"
  by (induction calls m rule: rate_run.induct) (simp_all add: check_and_increment_line hm_ok_rate_step)

lemma check_run_none: "serde_ok C \<Longrightarrow> check_run C calls None = rate_run calls []"
  by (cases calls) (auto simp add: check_and_increment_none check_run_line hm_ok_rate_step)

section \<open>Windows\<close>

lemma num_seconds_60: "num_seconds d \<ge> 60 \<longleftrightarrow> nanos 60 \<le> d"
  using div_mult_mod_eq [of d 1000000000] pos_mod_bound [of 1000000000 d] pos_mod_sign [of 1000000000 d]
    pos_imp_zdiv_nonneg_iff [of 1000000000 "- d"]
  by (auto simp: num_seconds_def nanos_def)

text \<open>What a call does to its group while the window is open, and to the others.\<close>

lemma rate_step_other:
  "grp \<noteq> g \<Longrightarrow> hm_get (snd (rate_step now grp limit m)) g = hm_get m g"
  by (simp add: rate_step_def Let_def)

lemma rate_step_open:
  assumes "hm_get m g = Some w" "now - window_start w < nanos 60"
  shows "rate_step now g limit m =
    (sint (rw_count w) < sint limit,
     hm_insert g (if sint (rw_count w) < sint limit then w\<lparr>rw_count := rw_count w + 1\<rparr> else w) m)"
  using assms by (simp add: rate_step_def Let_def num_seconds_60 not_le)

lemma rate_step_reset:
  assumes "hm_get m g = Some w" "nanos 60 \<le> now - window_start w"
  shows "rate_step now g limit m =
    (0 < sint limit,
     hm_insert g \<lparr>rw_count = (if 0 < sint limit then 1 else 0), window_start = now\<rparr> m)"
  using assms by (cases w) (simp add: rate_step_def Let_def num_seconds_60)

lemma rate_step_new:
  assumes "hm_get m g = None"
  shows "rate_step now g limit m =
    (0 < sint limit,
     hm_insert g \<lparr>rw_count = (if 0 < sint limit then 1 else 0), window_start = now\<rparr> m)"
  using assms by (simp add: rate_step_def Let_def num_seconds_def)

lemma sint_inc:
  assumes "sint (c :: i32) < sint (l :: i32)"
  shows "sint (c + 1) = sint c + 1"
proof -
  have "sint l < 2 ^ 31" "- (2 ^ 31) \<le> sint c"
    using sint_lt [of l] sint_ge [of c] by simp_all
  then have "signed_take_bit 31 (sint c + 1) = sint c + 1"
    using assms by (intro signed_take_bit_int_eq_self) simp_all
  then show ?thesis by (simp add: sint_word_ariths)
qed

lemma length_rate_run [simp]: "length (rate_run calls m) = length calls"
  by (induction calls m rule: rate_run.induct) simp_all

lemma granted_Cons [simp]:
  "granted g ((now, grp, limit) # calls) (r # rs) = (if grp = g \<and> r then 1 else 0) + granted g calls rs"
  "granted g [] rs = 0"
  by (simp_all add: granted_def)

lemma calls_of_Cons [simp]:
  "calls_of g ((now, grp, limit) # calls) = (if grp = g then 1 else 0) + calls_of g calls"
  "calls_of g [] = 0"
  by (simp_all add: calls_of_def)

definition calls_within :: "string \<Rightarrow> i32 \<Rightarrow> (instant \<Rightarrow> bool) \<Rightarrow> rate_call list \<Rightarrow> bool" where
  "calls_within g limit P calls = (\<forall>(now, grp, l) \<in> set calls. grp = g \<longrightarrow> l = limit \<and> P now)"

lemma calls_within_Cons [simp]:
  "calls_within g limit P ((now, grp, l) # calls) \<longleftrightarrow>
   (grp = g \<longrightarrow> l = limit \<and> P now) \<and> calls_within g limit P calls"
  "calls_within g limit P []"
  by (auto simp: calls_within_def)

lemma calls_within_mono:
  "calls_within g limit P calls \<Longrightarrow> (\<And>t. P t \<Longrightarrow> Q t) \<Longrightarrow> calls_within g limit Q calls"
  by (auto simp: calls_within_def)

lemma granted_open:
  assumes "hm_get m g = Some w" "calls_within g limit (\<lambda>t. t - window_start w < nanos 60) calls"
  shows "granted g calls (rate_run calls m) =
    min (calls_of g calls) (nat (sint limit - sint (rw_count w)))"
  using assms
proof (induction calls m arbitrary: w rule: rate_run.induct)
  case (2 now grp l calls m)
  let ?m = "snd (rate_step now grp l m)"
  show ?case
  proof (cases "grp = g")
    case False
    then show ?thesis using 2 by (simp add: rate_step_other)
  next
    case True
    define w' where "w' = (if sint (rw_count w) < sint limit then w\<lparr>rw_count := rw_count w + 1\<rparr> else w)"
    have l: "l = limit" using 2(3) True by simp
    have st: "rate_step now g limit m = (sint (rw_count w) < sint limit, hm_insert g w' m)"
      using 2(2,3) True by (simp add: rate_step_open w'_def)
    have "granted g calls (rate_run calls ?m) = min (calls_of g calls) (nat (sint limit - sint (rw_count w')))"
      by (rule "2.IH") (use 2(3) True l st in \<open>simp_all add: w'_def\<close>)
    then show ?thesis
      using True l st by (auto simp: w'_def sint_inc min_def)
  qed
qed simp

lemma granted_fresh:
  assumes "hm_get m g = Some \<lparr>rw_count = (if 0 < sint limit then 1 else 0), window_start = s\<rparr>"
    and "calls_within g limit (\<lambda>t. t - s < nanos 60) calls"
  shows "granted g calls (rate_run calls m) \<le> nat (sint limit) - (if 0 < sint limit then 1 else 0)"
  using granted_open [of m g _ limit calls, OF assms(1)] assms(2) by auto

lemma granted_rolling:
  assumes "calls_within g limit (\<lambda>t. a \<le> t \<and> t < a + nanos 60) calls"
    and "\<And>w. hm_get m g = Some w \<Longrightarrow> 1 \<le> sint (rw_count w)"
  shows "granted g calls (rate_run calls m) \<le> 2 * nat (sint limit) - 1"
proof -
  have "granted g calls (rate_run calls m) \<le> nat (sint limit) + (case hm_get m g of None \<Rightarrow> 0
      | Some w \<Rightarrow> nat (sint limit - sint (rw_count w)))"
    using assms(1)
  proof (induction calls m rule: rate_run.induct)
    case (2 now grp l calls m)
    let ?m = "snd (rate_step now grp l m)"
    show ?case
    proof (cases "grp = g")
      case False
      then show ?thesis using 2 by (simp add: rate_step_other)
    next
      case True
      have near: "calls_within g limit (\<lambda>t. t - now < nanos 60) calls"
        using 2(2) True by (auto elim!: calls_within_mono)
      consider (fresh) "rate_step now g limit m = (0 < sint limit,
          hm_insert g \<lparr>rw_count = (if 0 < sint limit then 1 else 0), window_start = now\<rparr> m)"
        | (open_w) w where "hm_get m g = Some w" "now - window_start w < nanos 60"
        using rate_step_new [of m g now limit] rate_step_reset [of m g _ now limit]
        by (cases "hm_get m g") (auto simp: not_less [symmetric])
      then show ?thesis
      proof cases
        case fresh
        have "granted g calls (rate_run calls ?m) \<le> nat (sint limit) - (if 0 < sint limit then 1 else 0)"
          by (rule granted_fresh [OF _ near]) (use fresh 2(2) True in simp)
        then show ?thesis using True 2(2) fresh by (auto split: option.split)
      next
        case open_w
        have "granted g calls (rate_run calls ?m) \<le> nat (sint limit) + (case hm_get ?m g of None \<Rightarrow> 0
            | Some w \<Rightarrow> nat (sint limit - sint (rw_count w)))"
          using 2 by simp
        then show ?thesis
          using True 2(2) open_w by (simp add: rate_step_open sint_inc split: if_splits)
      qed
    qed
  qed simp
  then show ?thesis
    using assms(2) by (cases "hm_get m g") fastforce+
qed

lemma rate_run_burst:
  assumes "hm_get m g = Some w" "t - window_start w < nanos 60"
    and "sint (rw_count w) + int k \<le> sint limit"
  shows "\<exists>m' w'. hm_get m' g = Some w' \<and> window_start w' = window_start w \<and>
    rate_run (replicate k (t, g, limit) @ rest) m = replicate k True @ rate_run rest m'"
  using assms
proof (induction k arbitrary: m w)
  case (Suc k)
  let ?w = "w\<lparr>rw_count := rw_count w + 1\<rparr>"
  have lt: "sint (rw_count w) < sint limit" using Suc.prems(3) by simp
  then have st: "rate_step t g limit m = (True, hm_insert g ?w m)"
    using Suc.prems by (simp add: rate_step_open)
  have "\<exists>m' w'. hm_get m' g = Some w' \<and> window_start w' = window_start ?w \<and>
      rate_run (replicate k (t, g, limit) @ rest) (hm_insert g ?w m) = replicate k True @ rate_run rest m'"
    by (rule Suc.IH) (use Suc.prems sint_inc [OF lt] in simp_all)
  then show ?case by (simp add: st)
qed auto

section \<open>Properties\<close>

text \<open>
  Property C35: while a group's window is open, the limiter grants exactly as many of its calls as
  the window has left, the first ones, whatever the other groups do in between.
\<close>

theorem open_window_grants:
  assumes "serde_ok C" "hm_ok m" "hm_get m g = Some w"
    and "calls_within g limit (\<lambda>t. t - window_start w < nanos 60) calls"
  shows "granted g calls (check_run C calls (Some (limits_line C m))) =
    min (calls_of g calls) (nat (sint limit - sint (rw_count w)))"
  using granted_open [OF assms(3,4)] by (simp add: check_run_line [OF assms(1,2)])

lemma open_window_grants_witness:
  "granted ''g'' [(5, ''g'', 2), (6, ''h'', 9), (7, ''g'', 2)]
     (check_run demo_crates [(5, ''g'', 2), (6, ''h'', 9), (7, ''g'', 2)]
       (Some (limits_line demo_crates [(''g'', \<lparr>rw_count = 1, window_start = 4\<rparr>)]))) = 1"
  using open_window_grants [OF serde_ok_demo, of "[(''g'', \<lparr>rw_count = 1, window_start = 4\<rparr>)]" "''g''"
      "\<lparr>rw_count = 1, window_start = 4\<rparr>" 2 "[(5, ''g'', 2), (6, ''h'', 9), (7, ''g'', 2)]"]
  by (simp add: hm_ok_def hm_get_def nanos_def)

text \<open>
  Of the calls of a group that fall into any 60 seconds, at most \<open>2 * limit - 1\<close> are
  granted.
\<close>

lemma any_minute_grants:
  assumes "serde_ok C" "hm_ok m" "\<And>w. hm_get m g = Some w \<Longrightarrow> 1 \<le> sint (rw_count w)"
    and "calls_within g limit (\<lambda>t. a \<le> t \<and> t < a + nanos 60) calls"
  shows "granted g calls (check_run C calls (Some (limits_line C m))) \<le> 2 * nat (sint limit) - 1"
  using granted_rolling [OF assms(4,3)] by (simp add: check_run_line [OF assms(1,2)])

lemma any_minute_grants_example:
  "granted ''g'' [(5, ''g'', 2), (7, ''g'', 2)]
     (check_run demo_crates [(5, ''g'', 2), (7, ''g'', 2)] (Some (limits_line demo_crates []))) \<le> 3"
  using any_minute_grants [OF serde_ok_demo, of "[]" "''g''" 2 0 "[(5, ''g'', 2), (7, ''g'', 2)]"]
  by (simp add: nanos_def)

text \<open>
  That bound is met: the window is not a rolling one. One call opens it, the
  others of the limit come in its last nanosecond and the next full limit right after it, and all
  of them are granted: \<open>2 * limit - 1\<close> calls within one nanosecond.
\<close>

lemma window_boundary_burst:
  assumes "serde_ok C" "sint limit = int (Suc n)"
  shows "check_run C ((t, g, limit) # replicate n (t + nanos 60 - 1, g, limit) @
      replicate (Suc n) (t + nanos 60, g, limit)) None = replicate (2 * Suc n) True"
proof -
  let ?m = "hm_insert g \<lparr>rw_count = 1, window_start = t\<rparr> []"
  have one: "rate_step t g limit [] = (True, ?m)"
    using rate_step_new [of "[]" g t limit] assms(2) by simp
  obtain m' w' where m': "hm_get m' g = Some w'" "window_start w' = t"
    and run: "rate_run (replicate n (t + nanos 60 - 1, g, limit) @ replicate (Suc n) (t + nanos 60, g, limit)) ?m =
      replicate n True @ rate_run (replicate (Suc n) (t + nanos 60, g, limit)) m'"
    using rate_run_burst [of ?m g "\<lparr>rw_count = 1, window_start = t\<rparr>" "t + nanos 60 - 1" n limit
        "replicate (Suc n) (t + nanos 60, g, limit)"] assms(2) by auto
  let ?w2 = "\<lparr>rw_count = 1, window_start = t + nanos 60\<rparr>"
  have two: "rate_step (t + nanos 60) g limit m' = (True, hm_insert g ?w2 m')"
    using rate_step_reset [OF m'(1), of "t + nanos 60" limit] m'(2) assms(2) by simp
  have "rate_run (replicate n (t + nanos 60, g, limit) @ []) (hm_insert g ?w2 m') = replicate n True"
    using rate_run_burst [of "hm_insert g ?w2 m'" g ?w2 "t + nanos 60" n limit "[]"] assms(2)
    by (auto simp: nanos_def)
  then have last: "rate_run (replicate (Suc n) (t + nanos 60, g, limit)) m' = True # replicate n True"
    by (simp only: replicate_Suc rate_run.simps two fst_conv snd_conv append_Nil2)
  have "check_run C ((t, g, limit) # replicate n (t + nanos 60 - 1, g, limit) @
      replicate (Suc n) (t + nanos 60, g, limit)) None = True # replicate n True @ True # replicate n True"
    by (simp only: check_run_none [OF assms(1)] rate_run.simps one fst_conv snd_conv run last)
  then show ?thesis by (simp add: mult_2 replicate_add replicate_app_Cons_same)
qed

lemma window_boundary_burst_example:
  "check_run demo_crates [(0, ''g'', 2), (nanos 60 - 1, ''g'', 2), (nanos 60, ''g'', 2), (nanos 60, ''g'', 2)] None =
   [True, True, True, True]"
  using window_boundary_burst [OF serde_ok_demo, of 2 1 0 "''g''"] by (simp add: numeral_eq_Suc)

end
