(* ===== verification/Queue.thy ===== *)
theory Queue
  imports File_Store Rate_Limiter "HOL-Library.List_Lexorder" "HOL-Library.Char_ord"
begin

text \<open>
  \<open>src/queue.rs\<close>: one queue over one store: enqueueing, the periodic processor, the dispatchers of
  the pools and the execution of a task.

  A step is what happens between two points where other threads of the program can interfere in a
  way that the model follows: an \<open>enqueue\<close>, a run of the processor over a list of tasks it has read,
  one turn of a dispatcher, the check before an execution, and the end of an execution. Handlers
  and HTTP calls are outside the program: their result is the argument \<open>outcome\<close>. \<open>clk n\<close> is the
  \<open>n\<close>-th reading of \<open>Utc::now()\<close> in the step, \<open>io n\<close> the answer of the operating system to its
  \<open>n\<close>-th save, and \<open>mtime\<close> a reading of the monotonic clock. The compaction that a save may spawn is
  a step of its own.
\<close>

section \<open>State\<close>

record queue =
  q_store :: file_store
  q_limits :: "string option"
  task_handlers :: "string set"
  max_retry_handlers :: "string set"
  active_hashes :: "string set"
  executing_tasks :: "string set"
  queued_tasks :: "string set"
  completed_tasks :: "(string, instant) hashmap"
  worker_pools :: "(string, nat) hashmap"
  shared_pqs :: "(string, rtask list) hashmap"
  dispatcher_counts :: "(string, nat) hashmap"

text \<open>\<open>worker_pools\<close> holds the free permits of each pool's semaphore.\<close>

definition completed_ttl :: duration where
  "completed_ttl = nanos 60"

definition evict_expired_completed ::
  "(string, instant) hashmap \<Rightarrow> instant \<Rightarrow> duration \<Rightarrow> (string, instant) hashmap" where
  "evict_expired_completed completed now ttl = filter (\<lambda>(i, at_time). now - at_time < ttl) completed"

definition add_pool :: "string \<Rightarrow> nat \<Rightarrow> queue \<Rightarrow> queue" where
  "add_pool p capacity q = q\<lparr>
     worker_pools := hm_insert p capacity (worker_pools q),
     shared_pqs := hm_insert p [] (shared_pqs q),
     dispatcher_counts := hm_insert p 0 (dispatcher_counts q)\<rparr>"

definition store_hashes :: "file_store \<Rightarrow> string set" where
  "store_hashes s =
     set (List.map_filter (\<lambda>t. if deleted_at t = None then payload_hash t else None) (read_tasks s))"

text \<open>\<^const>\<open>None\<close>: the storage's lock file is held by another queue, and the constructor panics.\<close>

definition new_with_pools ::
  "bool \<Rightarrow> file_store \<Rightarrow> string option \<Rightarrow> (string, nat) hashmap \<Rightarrow> queue option" where
  "new_with_pools lock_free st limits pools =
     (let q = \<lparr>q_store = st, q_limits = limits, task_handlers = {}, max_retry_handlers = {},
            active_hashes = store_hashes st, executing_tasks = {}, queued_tasks = {},
            completed_tasks = [], worker_pools = [], shared_pqs = [], dispatcher_counts = []\<rparr>;
          q = foldl (\<lambda>q (p, n). add_pool p n q) q pools;
          q = (if hm_contains pools ''default'' then q else add_pool ''default'' 100 q)
      in if lock_free then Some q else None)"

definition register_task_handler :: "string \<Rightarrow> queue \<Rightarrow> queue" where
  "register_task_handler ty q = q\<lparr>task_handlers := insert ty (task_handlers q)\<rparr>"

definition register_max_retry_handler :: "string \<Rightarrow> queue \<Rightarrow> queue" where
  "register_max_retry_handler ty q = q\<lparr>max_retry_handlers := insert ty (max_retry_handlers q)\<rparr>"

section \<open>Enqueueing\<close>

datatype queue_error = Cycle_Detected string | Save_Failed io_error

definition save_in :: "crates \<Rightarrow> io \<Rightarrow> rtask \<Rightarrow> queue \<Rightarrow> (io_error + bool) \<times> queue" where
  "save_in C w t q =
     (let (r, st) = save_task C w t (q_store q) in (r, q\<lparr>q_store := st\<rparr>))"

definition enqueue :: "crates \<Rightarrow> io \<Rightarrow> rtask \<Rightarrow> queue \<Rightarrow> (queue_error + unit) \<times> queue" where
  "enqueue C w t q =
     (if (case payload_hash t of Some h \<Rightarrow> h \<in> active_hashes q | None \<Rightarrow> False) then (Inr (), q)
      else
        let q = (case payload_hash t of
                   Some h \<Rightarrow> q\<lparr>active_hashes := insert h (active_hashes q)\<rparr> | None \<Rightarrow> q)
        in if (case trigger_after_ids t of
                 Some deps \<Rightarrow> detect_cycle (task_id t) deps (q_store q) | None \<Rightarrow> False)
           then (Inl (Cycle_Detected (task_id t)), q)
           else (case save_in C w (t\<lparr>deleted_at := None\<rparr>) q of
                   (Inl e, q') \<Rightarrow> (Inl (Save_Failed e), q')
                 | (Inr _, q') \<Rightarrow> (Inr (), q')))"

section \<open>The processor\<close>

definition waits :: "queue \<Rightarrow> rtask \<Rightarrow> bool" where
  "waits q t =
     (case trigger_after_ids t of
        Some deps \<Rightarrow> \<not> are_tasks_completed deps (q_store q) | None \<Rightarrow> False)"

definition due :: "instant \<Rightarrow> queue \<Rightarrow> rtask \<Rightarrow> bool" where
  "due now q t =
     (execute_at t \<le> now \<and> retry_after_time t \<le> now \<and> deleted_at t = None \<and>
      task_id t \<notin> executing_tasks q \<and> task_id t \<notin> queued_tasks q)"

definition target_pool :: "queue \<Rightarrow> rtask \<Rightarrow> string option" where
  "target_pool q t =
     (let p = (case pool t of Some p \<Rightarrow> p | None \<Rightarrow> ''default'') in
      if hm_contains (shared_pqs q) p then Some p
      else if hm_contains (shared_pqs q) ''default'' then Some ''default'' else None)"

definition heap_of :: "queue \<Rightarrow> string \<Rightarrow> rtask list" where
  "heap_of q p = (case hm_get (shared_pqs q) p of Some h \<Rightarrow> h | None \<Rightarrow> [])"

definition push_due :: "instant \<Rightarrow> queue \<times> string list \<Rightarrow> rtask \<Rightarrow> queue \<times> string list" where
  "push_due now = (\<lambda>(q, ps) t.
     if \<not> waits q t \<and> due now q t then
       (case target_pool q t of
          Some p \<Rightarrow>
            (q\<lparr>queued_tasks := insert (task_id t) (queued_tasks q),
               shared_pqs := hm_insert p (heap_push priority_le (heap_of q p) t) (shared_pqs q)\<rparr>,
             ps @ [p])
        | None \<Rightarrow> (q, ps))
     else (q, ps))"

text \<open>At most two dispatchers per pool; the result lists the dispatchers that are spawned.\<close>

definition start_dispatcher :: "queue \<times> string list \<Rightarrow> string \<Rightarrow> queue \<times> string list" where
  "start_dispatcher = (\<lambda>(q, spawned) p.
     let count = (case hm_get (dispatcher_counts q) p of Some c \<Rightarrow> c | None \<Rightarrow> 0) in
     if count < 2
     then (q\<lparr>dispatcher_counts := hm_insert p (count + 1) (dispatcher_counts q)\<rparr>, spawned @ [p])
     else (q\<lparr>dispatcher_counts := hm_insert p count (dispatcher_counts q)\<rparr>, spawned))"

definition process_due_tasks :: "rtask list \<Rightarrow> instant \<Rightarrow> queue \<Rightarrow> queue \<times> string list" where
  "process_due_tasks tasks now q =
     (let (q1, ps) = foldl (push_due now) (q, []) tasks
      in foldl start_dispatcher (q1, []) (remdups_adj (sort ps)))"

section \<open>Dispatchers\<close>

datatype dispatch_result =
    No_Permit
  | Dispatcher_Exits
  | Rate_Limited rtask
  | Already_Executing rtask
  | Starts rtask

definition leave_dispatcher :: "string \<Rightarrow> queue \<Rightarrow> queue" where
  "leave_dispatcher p q = q\<lparr>dispatcher_counts :=
     (case hm_get (dispatcher_counts q) p of
        Some c \<Rightarrow> hm_insert p (c - 1) (dispatcher_counts q) | None \<Rightarrow> dispatcher_counts q)\<rparr>"

definition rate_check ::
  "crates \<Rightarrow> io \<Rightarrow> instant \<Rightarrow> rtask \<Rightarrow> string option \<Rightarrow> bool \<times> string option" where
  "rate_check C w now t f =
     (case (rate_limit_group t, max_per_minute t) of
        (Some g, Some limit) \<Rightarrow>
          (case check_and_increment C w now g limit f of (r, f') \<Rightarrow> (r = Inr True, f'))
      | _ \<Rightarrow> (True, f))"

text \<open>
  One turn of a dispatcher of pool \<open>p\<close>. Without a free permit it waits. \<open>clk 0\<close> is the rate
  limiter's reading, \<open>clk 1\<close> the one for the delay.
\<close>

definition dispatch ::
  "crates \<Rightarrow> (nat \<Rightarrow> io) \<Rightarrow> (nat \<Rightarrow> instant) \<Rightarrow> string \<Rightarrow> queue \<Rightarrow> dispatch_result \<times> queue" where
  "dispatch C w clk p q =
     (case hm_get (worker_pools q) p of
        None \<Rightarrow> (Dispatcher_Exits, leave_dispatcher p q)
      | Some 0 \<Rightarrow> (No_Permit, q)
      | Some (Suc free) \<Rightarrow>
          (case heap_pop priority_le (heap_of q p) of
             None \<Rightarrow> (Dispatcher_Exits, leave_dispatcher p q)
           | Some (t, h) \<Rightarrow>
               let (allowed, f) = rate_check C (w 0) (clk 0) t (q_limits q);
                   q = q\<lparr>shared_pqs := hm_insert p h (shared_pqs q), q_limits := f\<rparr>
               in if \<not> allowed then
                    let t = t\<lparr>retry_after_time := clk 1 + nanos 60\<rparr>;
                        q = snd (save_in C (w 1) t q)
                    in (Rate_Limited t, q\<lparr>queued_tasks := queued_tasks q - {task_id t}\<rparr>)
                  else
                    let q = q\<lparr>queued_tasks := queued_tasks q - {task_id t}\<rparr> in
                    if task_id t \<in> executing_tasks q then (Already_Executing t, q)
                    else (Starts t, q\<lparr>executing_tasks := insert (task_id t) (executing_tasks q),
                            worker_pools := hm_insert p free (worker_pools q)\<rparr>)))"

section \<open>Execution\<close>

definition release_permit :: "string \<Rightarrow> queue \<Rightarrow> queue" where
  "release_permit p q = q\<lparr>worker_pools :=
     (case hm_get (worker_pools q) p of
        Some n \<Rightarrow> hm_insert p (n + 1) (worker_pools q) | None \<Rightarrow> worker_pools q)\<rparr>"

text \<open>
  The check at the start of \<open>execute_task\<close>. It comes before the guard that removes the task
  from the executing ones: a task that is skipped here only gives its permit back.
\<close>

definition already_completed :: "rtask \<Rightarrow> queue \<Rightarrow> bool" where
  "already_completed t q = hm_contains (completed_tasks q) (task_id t)"

definition skip_completed :: "string \<Rightarrow> rtask \<Rightarrow> queue \<Rightarrow> queue" where
  "skip_completed p t q = release_permit p q"

definition end_execution :: "string \<Rightarrow> rtask \<Rightarrow> queue \<Rightarrow> queue" where
  "end_execution p t q =
     release_permit p (q\<lparr>executing_tasks := executing_tasks q - {task_id t}\<rparr>)"

text \<open>What the program asks of the outside in the course of a final failure.\<close>

datatype dlq_call = Dlq_Webhook string string | Dlq_Handler string string

definition dlq_payload :: "crates \<Rightarrow> rtask \<Rightarrow> string" where
  "dlq_payload C t = json_text C (JObj
     [(''data'', JStr (task_data t)), (''taskId'', JStr (task_id t)), (''taskType'', JStr (task_type t))])"

definition dlq_calls :: "crates \<Rightarrow> rtask \<Rightarrow> queue \<Rightarrow> dlq_call list" where
  "dlq_calls C t q =
     (case webhook_url t of
        Some url \<Rightarrow> [Dlq_Webhook url (dlq_payload C t)]
      | None \<Rightarrow>
          if task_type t \<in> max_retry_handlers q then [Dlq_Handler (task_type t) (dlq_payload C t)] else [])"

definition complete_task ::
  "crates \<Rightarrow> io \<Rightarrow> instant \<Rightarrow> instant \<Rightarrow> instant \<Rightarrow> rtask \<Rightarrow> queue \<Rightarrow> queue" where
  "complete_task C w now now' mtime t q =
     q\<lparr>completed_tasks := hm_insert (task_id t) mtime (completed_tasks q),
       q_store := snd (delete_task C w now now' (task_id t) (q_store q)),
       active_hashes :=
         (case payload_hash t of Some h \<Rightarrow> active_hashes q - {h} | None \<Rightarrow> active_hashes q)\<rparr>"

definition exec_success ::
  "crates \<Rightarrow> (nat \<Rightarrow> io) \<Rightarrow> (nat \<Rightarrow> instant) \<Rightarrow> instant \<Rightarrow> rtask \<Rightarrow> queue \<Rightarrow> queue" where
  "exec_success C w clk mtime t q =
     (case Option.bind (cron_expression t) (\<lambda>e. first_tick C e (clk 0)) of
        Some tick \<Rightarrow>
          snd (save_in C (w 0)
            (t\<lparr>execute_at := tick, retry_count := 0, last_error_obj := None, last_job_error := None\<rparr>) q)
      | None \<Rightarrow> complete_task C (w 0) (clk 1) (clk 2) mtime t q)"

definition blocked_message :: "string \<Rightarrow> string" where
  "blocked_message tid = ''blocked_by_failed_parent: '' @ tid"

text \<open>The children of a task that failed for good; False when \<open>chrono\<close> panics on the way.\<close>

fun fail_children ::
  "crates \<Rightarrow> (nat \<Rightarrow> io) \<Rightarrow> (nat \<Rightarrow> instant) \<Rightarrow> nat \<Rightarrow> string \<Rightarrow> rtask list \<Rightarrow> queue \<Rightarrow> bool \<times> queue" where
  "fail_children C w clk k tid [] q = (True, q)"
| "fail_children C w clk k tid (c # cs) q =
     (case update_retry_config C (clk (4 * k)) (clk (4 * k + 1)) (Some (blocked_message tid)) c of
        None \<Rightarrow> (False, q)
      | Some c' \<Rightarrow>
          fail_children C w clk (Suc k) tid cs
            (snd (save_in C (w k) (mark_deleted (clk (4 * k + 2)) (clk (4 * k + 3)) c') q)))"

definition children_of :: "string \<Rightarrow> queue \<Rightarrow> rtask list" where
  "children_of tid q =
     filter (\<lambda>t. case trigger_after_ids t of Some deps \<Rightarrow> tid \<in> set deps | None \<Rightarrow> False)
       (read_tasks (q_store q))"

definition exec_failure ::
  "crates \<Rightarrow> (nat \<Rightarrow> io) \<Rightarrow> (nat \<Rightarrow> instant) \<Rightarrow> instant \<Rightarrow> string \<Rightarrow> rtask \<Rightarrow> queue \<Rightarrow> dlq_call list \<times> queue"
where
  "exec_failure C w clk mtime e t q =
     (if sint (retry_count t) < sint (max_retries t - 1) then
        (case update_retry_config C (clk 0) (clk 1) (Some e) t of
           None \<Rightarrow> ([], q)
         | Some t' \<Rightarrow> ([], snd (save_in C (w 0) t' q)))
      else
        let kids = children_of (task_id t) q;
            (ok, q') = fail_children C w clk 0 (task_id t) kids q;
            n = length kids
        in if \<not> ok then ([], q')
           else (dlq_calls C t q', complete_task C (w n) (clk (4 * n)) (clk (4 * n + 1)) mtime t q'))"

text \<open>
  From the guard to the end of \<open>execute_task\<close>. \<open>outcome\<close> is what the webhook or the handler
  returned; it is not used when there is neither.
\<close>

definition execute_task ::
  "crates \<Rightarrow> (nat \<Rightarrow> io) \<Rightarrow> (nat \<Rightarrow> instant) \<Rightarrow> instant \<Rightarrow> string + unit \<Rightarrow> string \<Rightarrow> rtask \<Rightarrow> queue \<Rightarrow>
   dlq_call list \<times> queue" where
  "execute_task C w clk mtime outcome p t q =
     (let (calls, q') =
        (if webhook_url t = None \<and> task_type t \<notin> task_handlers q then ([], q)
         else case outcome of
                Inr _ \<Rightarrow> ([], exec_success C w clk mtime t q)
              | Inl e \<Rightarrow> exec_failure C w clk mtime e t q)
      in (calls, end_execution p t q'))"

text \<open>
  Where the outcome comes from: what the HTTP client or the thread of the handler answers. A status
  and the errors come with their text. A handler that is out of time runs on in its thread: the
  answer is only that the wait is over.
\<close>

datatype http_answer = Http_Status bool string | Http_Timeout | Http_Error string

datatype handler_answer = Handler_Returns "string + unit" | Handler_Panics string | Handler_Late

definition show_secs :: "u64 \<Rightarrow> string" where
  "show_secs n = show_nat (unat n)"

definition webhook_outcome :: "rtask \<Rightarrow> http_answer \<Rightarrow> string + unit" where
  "webhook_outcome t a =
     (case a of
        Http_Status success status \<Rightarrow>
          if success then Inr () else Inl (''Webhook returned non-2xx status: '' @ status)
      | Http_Timeout \<Rightarrow> Inl (''Webhook execution timed out after '' @
          show_secs (case max_execution_seconds t of Some n \<Rightarrow> n | None \<Rightarrow> 0) @ '' seconds'')
      | Http_Error e \<Rightarrow> Inl (''Webhook request failed: '' @ e))"

text \<open>Without a limit the handler is waited for, however late.\<close>

definition handler_outcome :: "rtask \<Rightarrow> handler_answer \<Rightarrow> (string + unit) option" where
  "handler_outcome t a =
     (case a of
        Handler_Returns r \<Rightarrow> Some r
      | Handler_Panics e \<Rightarrow> Some (Inl (''Task panic: '' @ e))
      | Handler_Late \<Rightarrow>
          map_option (\<lambda>n. Inl (''Task execution timed out after '' @ show_secs n @ '' seconds''))
            (max_execution_seconds t))"

lemma late_handler_fails:
  "max_execution_seconds t = Some n \<Longrightarrow> \<exists>e. handler_outcome t Handler_Late = Some (Inl e)"
  by (simp add: handler_outcome_def)

section \<open>Which identifier is where\<close>

text \<open>
  Over the heaps as a function of the pool: every queued identifier stands in exactly one heap,
  once, and is not executing.
\<close>

definition ids_of :: "rtask list \<Rightarrow> string set" where
  "ids_of h = task_id ` set h"

definition queues_inv :: "(string \<Rightarrow> rtask list) \<Rightarrow> string set \<Rightarrow> string set \<Rightarrow> bool" where
  "queues_inv hp Q E \<longleftrightarrow>
     (\<forall>p. distinct (map task_id (hp p))) \<and> (\<Union>p. ids_of (hp p)) = Q \<and>
     (\<forall>p p'. p \<noteq> p' \<longrightarrow> ids_of (hp p) \<inter> ids_of (hp p') = {}) \<and> Q \<inter> E = {}"

lemma mset_ids:
  assumes "mset h' = add_mset t (mset h)"
  shows "ids_of h' = insert (task_id t) (ids_of h)"
    and "distinct (map task_id h') \<longleftrightarrow> task_id t \<notin> ids_of h \<and> distinct (map task_id h)"
proof -
  have "mset h' = mset (t # h)" using assms by simp
  then have "set h' = set (t # h)" and "mset (map task_id h') = mset (map task_id (t # h))"
    by (metis mset_eq_setD, metis mset_map)
  then show "ids_of h' = insert (task_id t) (ids_of h)"
    and "distinct (map task_id h') \<longleftrightarrow> task_id t \<notin> ids_of h \<and> distinct (map task_id h)"
    using mset_eq_imp_distinct_iff [of "map task_id h'" "map task_id (t # h)"] by (auto simp: ids_of_def)
qed

lemma disjoint_update:
  assumes "\<forall>p p'. p \<noteq> p' \<longrightarrow> f p \<inter> f p' = {}" "\<And>r. r \<noteq> p \<Longrightarrow> A \<inter> f r = {}"
  shows "r \<noteq> r' \<Longrightarrow> (f(p := A)) r \<inter> (f(p := A)) r' = {}"
  using assms(1) assms(2) [of r] assms(2) [of r'] by (cases "r = p"; cases "r' = p") (simp_all add: Int_commute)

lemma ids_update: "(\<lambda>r. ids_of ((hp(p := h')) r)) = (\<lambda>r. ids_of (hp r))(p := ids_of h')"
  by (rule ext) simp

lemma queues_inv_push:
  assumes "queues_inv hp Q E" "task_id t \<notin> Q" "task_id t \<notin> E" "mset h' = add_mset t (mset (hp p))"
  shows "queues_inv (hp(p := h')) (insert (task_id t) Q) E"
proof -
  let ?f = "\<lambda>r. ids_of (hp r)"
  note m = mset_ids [OF assms(4)]
  have a: "\<forall>p. distinct (map task_id (hp p))" "(\<Union>p. ?f p) = Q"
    "\<forall>p p'. p \<noteq> p' \<longrightarrow> ?f p \<inter> ?f p' = {}" "Q \<inter> E = {}"
    using assms(1) by (simp_all add: queues_inv_def)
  have new: "task_id t \<notin> ?f r" for r using a(2) assms(2) by blast
  have dis: "(?f(p := ids_of h')) r \<inter> (?f(p := ids_of h')) r' = {}" if "r \<noteq> r'" for r r'
  proof (rule disjoint_update [OF a(3) _ that])
    show "ids_of h' \<inter> ?f r = {}" if "r \<noteq> p" for r
      using a(3) new [of r] that unfolding m(1) by blast
  qed
  have un: "(\<Union>r. (?f(p := ids_of h')) r) = insert (task_id t) Q"
    unfolding a(2) [symmetric] m(1) by (auto split: if_splits)
  have d: "distinct (map task_id ((hp(p := h')) r))" for r
    using a(1) m(2) new by simp
  show ?thesis
    unfolding queues_inv_def using d dis un a(4) assms(3) by (simp only: fun_cong [OF ids_update]) blast
qed

lemma queues_inv_pop:
  assumes "queues_inv hp Q E" "mset (hp p) = add_mset t (mset h')"
  shows "queues_inv (hp(p := h')) (Q - {task_id t}) (insert (task_id t) E)"
    and "task_id t \<in> Q" "task_id t \<notin> E"
proof -
  let ?f = "\<lambda>r. ids_of (hp r)"
  note m = mset_ids [OF assms(2)]
  have a: "\<forall>p. distinct (map task_id (hp p))" "(\<Union>p. ?f p) = Q"
    "\<forall>p p'. p \<noteq> p' \<longrightarrow> ?f p \<inter> ?f p' = {}" "Q \<inter> E = {}"
    using assms(1) by (simp_all add: queues_inv_def)
  have h': "task_id t \<notin> ids_of h'" "distinct (map task_id h')" using m(2) a(1) by auto
  show q: "task_id t \<in> Q" using m(1) a(2) by blast
  then show "task_id t \<notin> E" using a(4) by blast
  have other: "task_id t \<notin> ?f r" if "r \<noteq> p" for r using a(3) that m(1) by blast
  have dis: "(?f(p := ids_of h')) r \<inter> (?f(p := ids_of h')) r' = {}" if "r \<noteq> r'" for r r'
  proof (rule disjoint_update [OF a(3) _ that])
    show "ids_of h' \<inter> ?f r = {}" if "r \<noteq> p" for r using a(3) that m(1) by blast
  qed
  have "(?f(p := ids_of h')) r = ?f r - {task_id t}" for r
    using other [of r] h'(1) m(1) by (cases "r = p") auto
  then have "(\<Union>r. (?f(p := ids_of h')) r) = (\<Union>r. ?f r - {task_id t})" by (simp only:)
  then have un: "(\<Union>r. (?f(p := ids_of h')) r) = Q - {task_id t}"
    unfolding a(2) [symmetric] by blast
  have d: "distinct (map task_id ((hp(p := h')) r))" for r using a(1) h'(2) by simp
  have "(Q - {task_id t}) \<inter> insert (task_id t) E = {}" using a(4) by blast
  then show "queues_inv (hp(p := h')) (Q - {task_id t}) (insert (task_id t) E)"
    unfolding queues_inv_def using d dis un by (simp only: fun_cong [OF ids_update]) blast
qed

lemma queues_inv_shrink: "queues_inv hp Q E \<Longrightarrow> E' \<subseteq> E \<Longrightarrow> queues_inv hp Q E'"
  unfolding queues_inv_def by blast

section \<open>What the operations leave alone\<close>

definition control :: "queue \<Rightarrow> (string, rtask list) hashmap \<times> string set \<times> string set \<times> (string, nat) hashmap" where
  "control q = (shared_pqs q, queued_tasks q, executing_tasks q, worker_pools q)"

lemma control_save_in [simp]: "control (snd (save_in C w t q)) = control q"
  by (simp add: save_in_def control_def split: prod.split)

lemma control_enqueue [simp]: "control (snd (enqueue C w t q)) = control q"
proof -
  have "control (snd (case save_in C w u q' of (Inl e, q'') \<Rightarrow> (Inl (Save_Failed e), q'')
      | (Inr _, q'') \<Rightarrow> (Inr (), q''))) = control q'" for u q'
    using control_save_in [of C w u q'] by (cases "save_in C w u q'"; cases "fst (save_in C w u q')") simp_all
  then show ?thesis
    by (simp add: enqueue_def Let_def) (simp add: control_def split: option.split)
qed

lemma control_complete [simp]: "control (complete_task C w now now' mt t q) = control q"
  by (simp add: complete_task_def control_def)

lemma control_fail_children [simp]: "control (snd (fail_children C w clk k tid cs q)) = control q"
  by (induction C w clk k tid cs q rule: fail_children.induct) (simp_all split: option.split)

lemma control_exec_success [simp]: "control (exec_success C w clk mt t q) = control q"
  by (simp add: exec_success_def split: option.split)

lemma control_exec_failure [simp]: "control (snd (exec_failure C w clk mt e t q)) = control q"
proof -
  obtain ok q' where f: "fail_children C w clk 0 (task_id t) (children_of (task_id t) q) q = (ok, q')"
    by fastforce
  then have "control q' = control q"
    using control_fail_children [of C w clk 0 "task_id t" "children_of (task_id t) q" q] by simp
  then show ?thesis by (simp add: exec_failure_def Let_def f split: option.split)
qed

lemma control_execute:
  "control (snd (execute_task C w clk mt outcome p t q)) = control (end_execution p t q)"
proof -
  have e: "control (end_execution p t q') = control (end_execution p t q)" if "control q' = control q" for q'
    using that by (simp add: control_def end_execution_def release_permit_def split: option.split)
  have s: "snd (let (calls, q') = r in (calls, end_execution p t q')) = end_execution p t (snd r)" for r
    by (simp add: split_beta)
  have "control (snd (if webhook_url t = None \<and> task_type t \<notin> task_handlers q then ([], q)
      else case outcome of Inr u \<Rightarrow> ([], exec_success C w clk mt t q)
           | Inl e \<Rightarrow> exec_failure C w clk mt e t q)) = control q"
    by (simp split: sum.split)
  then show ?thesis unfolding execute_task_def s by (rule e)
qed

section \<open>The processor and the dispatchers\<close>

lemma heap_of_update:
  "shared_pqs q' = hm_insert p h (shared_pqs q) \<Longrightarrow> heap_of q' = (heap_of q)(p := h)"
  by (simp add: heap_of_def fun_eq_iff)

lemma heap_of_pqs: "shared_pqs q = shared_pqs q' \<Longrightarrow> heap_of q = heap_of q'"
  by (rule ext) (simp add: heap_of_def)

definition control_inv :: "queue \<Rightarrow> bool" where
  "control_inv q \<longleftrightarrow> queues_inv (heap_of q) (queued_tasks q) (executing_tasks q)"

lemma control_inv_same: "control q' = control q \<Longrightarrow> control_inv q \<Longrightarrow> control_inv q'"
  using heap_of_pqs [of q' q] by (simp add: control_inv_def control_def)

lemma push_due_inv: "control_inv q \<Longrightarrow> control_inv (fst (push_due now (q, ps) t))"
proof (cases "\<not> waits q t \<and> due now q t \<and> target_pool q t \<noteq> None")
  case True
  then obtain p where p: "target_pool q t = Some p" by blast
  let ?h = "heap_push priority_le (heap_of q p) t"
  assume "control_inv q"
  then have "queues_inv ((heap_of q)(p := ?h)) (insert (task_id t) (queued_tasks q)) (executing_tasks q)"
    using True unfolding control_inv_def due_def by (intro queues_inv_push) (simp_all add: mset_heap_push)
  then show ?thesis
    using True p by (simp add: push_due_def control_inv_def heap_of_update [of _ p ?h q])
qed (auto simp: push_due_def)

lemma foldl_push_due_inv: "control_inv q \<Longrightarrow> control_inv (fst (foldl (push_due now) (q, ps) ts))"
proof (induction ts arbitrary: q ps)
  case (Cons t ts)
  obtain q' ps' where "push_due now (q, ps) t = (q', ps')" by fastforce
  then show ?case using Cons.IH [of q' ps'] push_due_inv [OF Cons.prems, of now ps t] by simp
qed simp

lemma start_dispatchers_control:
  "control (fst (foldl start_dispatcher (q, sp) ps)) = control q"
proof (induction ps arbitrary: q sp)
  case (Cons p ps)
  obtain q' sp' where s: "start_dispatcher (q, sp) p = (q', sp')" by fastforce
  then have "control q' = control q" by (auto simp: start_dispatcher_def Let_def control_def split: if_splits)
  then show ?case using Cons.IH [of q' sp'] s by simp
qed simp

lemma process_due_inv: "control_inv q \<Longrightarrow> control_inv (fst (process_due_tasks ts now q))"
proof -
  assume q: "control_inv q"
  obtain q1 ps where f: "foldl (push_due now) (q, []) ts = (q1, ps)" by fastforce
  then have "control_inv q1" using foldl_push_due_inv [OF q, of now "[]" ts] by simp
  then show ?thesis
    using start_dispatchers_control [of q1 "[]" "remdups_adj (sort ps)"]
    by (auto simp: process_due_tasks_def f intro: control_inv_same)
qed

text \<open>What a turn of a dispatcher does to the identifiers and the permits.\<close>

lemma dispatch_control:
  assumes "dispatch C w clk p q = (r, q')" "control_inv q"
  shows "control_inv q' \<and>
    (case r of
       Starts t \<Rightarrow> task_id t \<notin> executing_tasks q \<and> executing_tasks q' = insert (task_id t) (executing_tasks q) \<and>
         (\<exists>n. hm_get (worker_pools q) p = Some (Suc n) \<and> worker_pools q' = hm_insert p n (worker_pools q))
     | Already_Executing t \<Rightarrow> False
     | _ \<Rightarrow> executing_tasks q' = executing_tasks q \<and> worker_pools q' = worker_pools q)"
proof (cases "\<exists>n. hm_get (worker_pools q) p = Some (Suc n)")
  case False
  have "control (leave_dispatcher p q) = control q"
    by (simp add: leave_dispatcher_def control_def)
  then show ?thesis
    using assms False control_inv_same [of "leave_dispatcher p q" q]
    by (auto simp: dispatch_def leave_dispatcher_def split: option.splits nat.splits)
next
  case True
  then obtain n where n: "hm_get (worker_pools q) p = Some (Suc n)" by blast
  show ?thesis
  proof (cases "heap_pop priority_le (heap_of q p)")
    case None
    have "control (leave_dispatcher p q) = control q"
      by (simp add: leave_dispatcher_def control_def)
    then show ?thesis
      using assms n None control_inv_same [of "leave_dispatcher p q" q]
      by (auto simp: dispatch_def leave_dispatcher_def)
  next
    case (Some th)
    then obtain t h where th: "heap_pop priority_le (heap_of q p) = Some (t, h)" by (cases th) auto
    obtain allowed f where rc: "rate_check C (w 0) (clk 0) t (q_limits q) = (allowed, f)" by fastforce
    note pop = queues_inv_pop [OF assms(2) [unfolded control_inv_def] heap_pop_mset [OF th]]
    let ?q1 = "q\<lparr>shared_pqs := hm_insert p h (shared_pqs q), q_limits := f\<rparr>"
    let ?t = "t\<lparr>retry_after_time := clk 1 + nanos 60\<rparr>"
    note hp = heap_of_update [of _ p h q]
    have c: "control (snd (save_in C (w 1) ?t ?q1)) = control ?q1" by simp
    show ?thesis
    proof (cases allowed)
      case True
      have "q' = ?q1\<lparr>queued_tasks := queued_tasks q - {task_id t},
          executing_tasks := insert (task_id t) (executing_tasks q),
          worker_pools := hm_insert p n (worker_pools q)\<rparr>" "r = Starts t"
        using assms(1) n th rc pop(3) True by (simp_all add: dispatch_def)
      then show ?thesis using pop n by (auto simp: control_inv_def hp)
    next
      case False
      have r: "r = Rate_Limited ?t" and q': "q' = (snd (save_in C (w 1) ?t ?q1))\<lparr>queued_tasks := queued_tasks q - {task_id t}\<rparr>"
        using assms(1) n th rc False c by (simp_all add: dispatch_def Let_def control_def)
      have "queues_inv ((heap_of q)(p := h)) (queued_tasks q - {task_id t}) (executing_tasks q)"
        using pop(1) by (rule queues_inv_shrink) blast
      then show ?thesis using c by (simp add: r q' control_inv_def hp control_def)
    qed
  qed
qed

section \<open>The running queue\<close>

text \<open>
  The queue with the executions that its dispatchers have spawned, each with its pool, its task
  and whether the check at its start has been passed. The processor may work on any list of
  tasks: what it read may be outdated when it takes the locks.
\<close>

record queue_system =
  sys_queue :: queue
  sys_running :: "(string \<times> rtask \<times> bool) list"

definition with_queue :: "queue_system \<Rightarrow> queue \<Rightarrow> queue_system" where
  "with_queue S q = S\<lparr>sys_queue := q\<rparr>"

inductive sys_step :: "crates \<Rightarrow> queue_system \<Rightarrow> queue_system \<Rightarrow> bool" for C where
  enqueue_step: "sys_step C S (with_queue S (snd (enqueue C w t (sys_queue S))))"
| process_step: "sys_step C S (with_queue S (fst (process_due_tasks ts now (sys_queue S))))"
| start_step: "dispatch C w clk p (sys_queue S) = (Starts t, q) \<Longrightarrow>
    sys_step C S \<lparr>sys_queue = q, sys_running = sys_running S @ [(p, t, False)]\<rparr>"
| turn_step: "dispatch C w clk p (sys_queue S) = (r, q) \<Longrightarrow> (\<And>t. r \<noteq> Starts t) \<Longrightarrow>
    sys_step C S (with_queue S q)"
| begin_step: "sys_running S = xs @ (p, t, False) # ys \<Longrightarrow> \<not> already_completed t (sys_queue S) \<Longrightarrow>
    sys_step C S (S\<lparr>sys_running := xs @ (p, t, True) # ys\<rparr>)"
| skip_step: "sys_running S = xs @ (p, t, False) # ys \<Longrightarrow> already_completed t (sys_queue S) \<Longrightarrow>
    sys_step C S \<lparr>sys_queue = skip_completed p t (sys_queue S), sys_running = xs @ ys\<rparr>"
| finish_step: "sys_running S = xs @ (p, t, True) # ys \<Longrightarrow>
    sys_step C S \<lparr>sys_queue = snd (execute_task C w clk mt outcome p t (sys_queue S)), sys_running = xs @ ys\<rparr>"
| evict_step: "sys_step C S (with_queue S ((sys_queue S)\<lparr>completed_tasks :=
      evict_expired_completed (completed_tasks (sys_queue S)) now completed_ttl\<rparr>))"
| compact_step: "sys_step C S (with_queue S ((sys_queue S)\<lparr>q_store :=
      snd (compact_log C io clk2 ord (q_store (sys_queue S)))\<rparr>))"
| register_step: "sys_step C S (with_queue S (register_task_handler ty (register_max_retry_handler ty2 (sys_queue S))))"

definition running_ids :: "queue_system \<Rightarrow> string list" where
  "running_ids S = map (\<lambda>(p, t, b). task_id t) (sys_running S)"

definition running_in :: "string \<Rightarrow> queue_system \<Rightarrow> nat" where
  "running_in p S = length (filter (\<lambda>(p', t, b). p' = p) (sys_running S))"

definition sys_inv :: "(string \<Rightarrow> nat option) \<Rightarrow> queue_system \<Rightarrow> bool" where
  "sys_inv cap S \<longleftrightarrow>
     control_inv (sys_queue S) \<and> distinct (running_ids S) \<and>
     set (running_ids S) \<subseteq> executing_tasks (sys_queue S) \<and>
     (\<forall>p. cap p = map_option (\<lambda>n. n + running_in p S) (hm_get (worker_pools (sys_queue S)) p))"

lemma sys_inv_same:
  "sys_inv cap S \<Longrightarrow> control q = control (sys_queue S) \<Longrightarrow> sys_inv cap (with_queue S q)"
  using control_inv_same [of q "sys_queue S"]
  by (simp add: sys_inv_def with_queue_def running_ids_def running_in_def control_def)

text \<open>An execution leaves: its permit goes back, and its identifier may leave the executing ones.\<close>

lemma sys_inv_leave:
  assumes S: "sys_inv cap S" and r: "sys_running S = xs @ (p, t, b) # ys"
    and E: "E = executing_tasks (sys_queue S) \<or> E = executing_tasks (sys_queue S) - {task_id t}"
    and q: "control q = control (release_permit p ((sys_queue S)\<lparr>executing_tasks := E\<rparr>))"
  shows "sys_inv cap \<lparr>sys_queue = q, sys_running = xs @ ys\<rparr>"
proof -
  let ?q = "sys_queue S" and ?S' = "\<lparr>sys_queue = q, sys_running = xs @ ys\<rparr>"
  have ids: "running_ids S = running_ids \<lparr>sys_queue = q, sys_running = xs\<rparr> @ task_id t # running_ids \<lparr>sys_queue = q, sys_running = ys\<rparr>"
    and ids': "running_ids ?S' = running_ids \<lparr>sys_queue = q, sys_running = xs\<rparr> @ running_ids \<lparr>sys_queue = q, sys_running = ys\<rparr>"
    by (simp_all add: running_ids_def r)
  have qs: "queued_tasks q = queued_tasks ?q" "shared_pqs q = shared_pqs ?q" "executing_tasks q = E"
    "worker_pools q = worker_pools (release_permit p ?q)"
    using q by (simp_all add: control_def release_permit_def split: option.split)
  have "control_inv q"
    using S E unfolding sys_inv_def control_inv_def heap_of_pqs [OF qs(2)] qs
    by (auto elim: queues_inv_shrink)
  moreover have "distinct (running_ids ?S') \<and> set (running_ids ?S') \<subseteq> executing_tasks q"
    using S E unfolding sys_inv_def ids ids' qs by auto
  moreover have "cap p' = map_option (\<lambda>n. n + running_in p' ?S') (hm_get (worker_pools q) p')" for p'
  proof -
    have c: "cap p' = map_option (\<lambda>n. n + running_in p' S) (hm_get (worker_pools ?q) p')"
      using S by (simp add: sys_inv_def)
    have n: "running_in p' S = running_in p' ?S' + (if p' = p then 1 else 0)"
      by (simp add: running_in_def r)
    show ?thesis unfolding c n qs
      by (cases "hm_get (worker_pools ?q) p"; cases "p' = p") (simp_all add: release_permit_def)
  qed
  ultimately show ?thesis by (simp add: sys_inv_def)
qed

lemma control_evict [simp]: "control (q\<lparr>completed_tasks := m\<rparr>) = control q"
  and control_store [simp]: "control (q\<lparr>q_store := s\<rparr>) = control q"
  and control_register [simp]: "control (register_task_handler ty q) = control q"
    "control (register_max_retry_handler ty q) = control q"
  by (simp_all add: control_def register_task_handler_def register_max_retry_handler_def)

lemma process_due_frame:
  "executing_tasks (fst (process_due_tasks ts now q)) = executing_tasks q \<and>
   worker_pools (fst (process_due_tasks ts now q)) = worker_pools q"
proof -
  have a: "executing_tasks (fst (foldl (push_due now) (q, ps) ts)) = executing_tasks q \<and>
      worker_pools (fst (foldl (push_due now) (q, ps) ts)) = worker_pools q" for ps
  proof (induction ts arbitrary: q ps)
    case (Cons t ts)
    obtain q' ps' where p: "push_due now (q, ps) t = (q', ps')" by fastforce
    then have "executing_tasks q' = executing_tasks q \<and> worker_pools q' = worker_pools q"
      by (auto simp: push_due_def split: if_splits option.splits)
    then show ?case using Cons.IH [of q' ps'] p by simp
  qed simp
  obtain q1 ps where f: "foldl (push_due now) (q, []) ts = (q1, ps)" by fastforce
  show ?thesis
    using a [of "[]"] start_dispatchers_control [of q1 "[]" "remdups_adj (sort ps)"]
    by (simp add: process_due_tasks_def f control_def)
qed

lemma sys_inv_step:
  assumes "sys_step C S S'" "sys_inv cap S"
  shows "sys_inv cap S'"
  using assms
proof (induction rule: sys_step.induct)
  case (process_step S ts now)
  let ?q = "fst (process_due_tasks ts now (sys_queue S))"
  have "control_inv ?q" using process_due_inv process_step by (simp add: sys_inv_def)
  then show ?case
    using process_step process_due_frame [of ts now "sys_queue S"]
    by (simp add: sys_inv_def with_queue_def running_ids_def running_in_def)
next
  case (start_step w clk p S t q)
  have ci: "control_inv (sys_queue S)" using start_step by (simp add: sys_inv_def)
  from dispatch_control [OF start_step(1) ci] obtain n where
    d: "control_inv q" "task_id t \<notin> executing_tasks (sys_queue S)"
      "executing_tasks q = insert (task_id t) (executing_tasks (sys_queue S))"
      "hm_get (worker_pools (sys_queue S)) p = Some (Suc n)"
      "worker_pools q = hm_insert p n (worker_pools (sys_queue S))"
    by auto
  show ?case
    using start_step(2) d by (auto simp: sys_inv_def running_ids_def running_in_def)
next
  case (turn_step w clk p S r q)
  have ci: "control_inv (sys_queue S)" using turn_step by (simp add: sys_inv_def)
  have "control_inv q \<and> executing_tasks q = executing_tasks (sys_queue S) \<and>
      worker_pools q = worker_pools (sys_queue S)"
    using dispatch_control [OF turn_step(1) ci] turn_step(2) by (cases r) auto
  then show ?case
    using turn_step(3) by (simp add: sys_inv_def with_queue_def running_ids_def running_in_def)
next
  case (begin_step S xs p t ys)
  then show ?case by (auto simp: sys_inv_def running_ids_def running_in_def)
next
  case (skip_step S xs p t ys)
  show ?case
    by (rule sys_inv_leave [OF skip_step(3,1), of "executing_tasks (sys_queue S)"])
      (simp_all add: skip_completed_def)
next
  case (finish_step S xs p t ys w clk mt outcome)
  show ?case
    by (rule sys_inv_leave [OF finish_step(2,1), of "executing_tasks (sys_queue S) - {task_id t}"])
      (simp_all add: control_execute end_execution_def)
qed (auto intro: sys_inv_same)

definition sys_start :: "queue \<Rightarrow> queue_system" where
  "sys_start q = \<lparr>sys_queue = q, sys_running = []\<rparr>"

lemma sys_inv_reachable:
  assumes "(sys_step C)\<^sup>*\<^sup>* (sys_start q) S" "control_inv q"
  shows "sys_inv (hm_get (worker_pools q)) S"
  using assms(1)
proof (induction rule: rtranclp_induct)
  case base
  then show ?case using assms(2)
    by (simp add: sys_inv_def sys_start_def running_ids_def running_in_def option.map_ident)
next
  case (step S S')
  then show ?case using sys_inv_step by blast
qed

lemma add_pools_frame:
  "queued_tasks (foldl (\<lambda>q (p, n). add_pool p n q) q pools) = queued_tasks q \<and>
   executing_tasks (foldl (\<lambda>q (p, n). add_pool p n q) q pools) = executing_tasks q \<and>
   ((\<forall>p. heap_of q p = []) \<longrightarrow> (\<forall>p. heap_of (foldl (\<lambda>q (p, n). add_pool p n q) q pools) p = []))"
proof (induction pools arbitrary: q)
  case (Cons x pools)
  obtain p n where x: "x = (p, n)" by fastforce
  have "queued_tasks (add_pool p n q) = queued_tasks q" "executing_tasks (add_pool p n q) = executing_tasks q"
    "(\<forall>p. heap_of q p = []) \<longrightarrow> (\<forall>p'. heap_of (add_pool p n q) p' = [])"
    by (simp_all add: add_pool_def heap_of_def)
  then show ?case using Cons.IH [of "add_pool p n q"] by (simp add: x)
qed simp

lemma control_inv_empty:
  "queued_tasks q = {} \<Longrightarrow> \<forall>p. heap_of q p = [] \<Longrightarrow> control_inv q"
  by (simp add: control_inv_def queues_inv_def ids_of_def)

lemma control_inv_new:
  assumes "new_with_pools b st limits pools = Some q"
  shows "control_inv q"
proof -
  let ?q0 = "\<lparr>q_store = st, q_limits = limits, task_handlers = {}, max_retry_handlers = {},
      active_hashes = store_hashes st, executing_tasks = {}, queued_tasks = {},
      completed_tasks = [], worker_pools = [], shared_pqs = [], dispatcher_counts = []\<rparr>"
  let ?q1 = "foldl (\<lambda>q (p, n). add_pool p n q) ?q0 pools"
  have f: "queued_tasks ?q1 = {}" "\<forall>p. heap_of ?q1 p = []"
    using add_pools_frame [of ?q0 pools] by (simp_all add: heap_of_def)
  have d: "queued_tasks (add_pool ''default'' 100 ?q1) = {}" "\<forall>p. heap_of (add_pool ''default'' 100 ?q1) p = []"
    using f by (simp_all add: add_pool_def heap_of_def)
  have "q = (if hm_contains pools ''default'' then ?q1 else add_pool ''default'' 100 ?q1)"
    using assms unfolding new_with_pools_def Let_def by (simp split: if_splits)
  then show ?thesis
    using control_inv_empty [OF f] control_inv_empty [OF d] by (simp split: if_splits)
qed

section \<open>What the processor hands over\<close>

definition handed :: "instant \<Rightarrow> queue \<Rightarrow> string \<Rightarrow> rtask \<Rightarrow> bool" where
  "handed now q p t \<longleftrightarrow> \<not> waits q t \<and> due now q t \<and> target_pool q t = Some p"

lemma push_due_later:
  assumes "push_due now (q, ps) t = (q', ps')" "task_id u \<noteq> task_id t"
  shows "handed now q' p u \<longleftrightarrow> handed now q p u"
proof (cases "\<not> waits q t \<and> due now q t \<and> target_pool q t \<noteq> None")
  case True
  then obtain r where r: "target_pool q t = Some r" by blast
  have dom: "hm_contains (shared_pqs q) r"
    using r by (auto simp: target_pool_def Let_def split: if_splits)
  have e: "q' = q\<lparr>queued_tasks := insert (task_id t) (queued_tasks q),
      shared_pqs := hm_insert r (heap_push priority_le (heap_of q r) t) (shared_pqs q)\<rparr>"
    using assms(1) True r by (simp add: push_due_def)
  have "hm_contains (shared_pqs q') x = hm_contains (shared_pqs q) x" for x
    using dom by (auto simp: e)
  then have "target_pool q' u = target_pool q u" by (simp add: target_pool_def)
  moreover have "waits q' u = waits q u" by (simp add: waits_def e split: option.split)
  moreover have "due now q' u = due now q u" using assms(2) by (simp add: due_def e)
  ultimately show ?thesis by (simp add: handed_def)
next
  case False
  then have "q' = q" using assms(1) by (auto simp: push_due_def split: if_splits option.splits)
  then show ?thesis by simp
qed

lemma push_due_heap:
  assumes "push_due now (q, ps) t = (q', ps')"
  shows "heap_of q' p = (if handed now q p t then heap_push priority_le (heap_of q p) t else heap_of q p)"
    and "queued_tasks q' = (if \<exists>p. handed now q p t then insert (task_id t) (queued_tasks q) else queued_tasks q)"
    and "q_store q' = q_store q"
  using assms by (auto simp: push_due_def handed_def heap_of_def split: if_splits option.splits)

lemma push_all_heap:
  assumes "distinct (map task_id ts)"
  shows "heap_of (fst (foldl (push_due now) (q, ps) ts)) p =
      foldl (heap_push priority_le) (heap_of q p) (filter (handed now q p) ts) \<and>
    queued_tasks (fst (foldl (push_due now) (q, ps) ts)) =
      queued_tasks q \<union> {task_id t | t. t \<in> set ts \<and> (\<exists>p. handed now q p t)} \<and>
    q_store (fst (foldl (push_due now) (q, ps) ts)) = q_store q"
  using assms
proof (induction ts arbitrary: q ps)
  case (Cons t ts)
  obtain q' ps' where s: "push_due now (q, ps) t = (q', ps')" by fastforce
  have later: "handed now q' r u \<longleftrightarrow> handed now q r u" if "u \<in> set ts" for u r
  proof (rule push_due_later [OF s])
    have "task_id t \<notin> task_id ` set ts" using Cons.prems by simp
    then show "task_id u \<noteq> task_id t" using that by (metis imageI)
  qed
  have f: "filter (handed now q' p) ts = filter (handed now q p) ts"
    by (rule filter_cong) (simp_all add: later)
  have i: "{task_id t | t. t \<in> set ts \<and> (\<exists>p. handed now q' p t)} = {task_id t | t. t \<in> set ts \<and> (\<exists>p. handed now q p t)}"
    using later by blast
  have IH: "heap_of (fst (foldl (push_due now) (q', ps') ts)) p =
        foldl (heap_push priority_le) (heap_of q' p) (filter (handed now q p) ts)"
      "queued_tasks (fst (foldl (push_due now) (q', ps') ts)) =
        queued_tasks q' \<union> {task_id t | t. t \<in> set ts \<and> (\<exists>p. handed now q p t)}"
      "q_store (fst (foldl (push_due now) (q', ps') ts)) = q_store q'"
    using Cons.IH [of q' ps'] Cons.prems unfolding f i by simp_all
  have "heap_of (fst (foldl (push_due now) (q, ps) (t # ts))) p =
      foldl (heap_push priority_le) (heap_of q p) (filter (handed now q p) (t # ts))"
    using IH(1) push_due_heap(1) [OF s, of p] by (simp add: s)
  moreover have "queued_tasks (fst (foldl (push_due now) (q, ps) (t # ts))) =
      queued_tasks q \<union> {task_id u | u. u \<in> set (t # ts) \<and> (\<exists>p. handed now q p u)}"
    using IH(2) push_due_heap(2) [OF s] by (auto simp: s)
  ultimately show ?case using IH(3) push_due_heap(3) [OF s] by (simp add: s)
qed simp

lemma start_dispatchers_store: "q_store (fst (foldl start_dispatcher (q, sp) ps)) = q_store q"
proof (induction ps arbitrary: q sp)
  case (Cons p ps)
  obtain q' sp' where s: "start_dispatcher (q, sp) p = (q', sp')" by fastforce
  then have "q_store q' = q_store q" by (auto simp: start_dispatcher_def Let_def split: if_splits)
  then show ?case using Cons.IH [of q' sp'] s by simp
qed simp

lemma process_due_heap:
  assumes "distinct (map task_id ts)"
  shows "heap_of (fst (process_due_tasks ts now q)) p =
      foldl (heap_push priority_le) (heap_of q p) (filter (handed now q p) ts)"
    and "queued_tasks (fst (process_due_tasks ts now q)) =
      queued_tasks q \<union> {task_id t | t. t \<in> set ts \<and> (\<exists>p. handed now q p t)}"
    and "q_store (fst (process_due_tasks ts now q)) = q_store q"
proof -
  obtain q1 ps where f: "foldl (push_due now) (q, []) ts = (q1, ps)" by fastforce
  have "control (fst (process_due_tasks ts now q)) = control q1"
    by (simp add: process_due_tasks_def f start_dispatchers_control)
  moreover have "q_store (fst (process_due_tasks ts now q)) = q_store q1"
    by (simp add: process_due_tasks_def f start_dispatchers_store)
  moreover note push_all_heap [OF assms, of now q "[]" p, unfolded f]
  ultimately show "heap_of (fst (process_due_tasks ts now q)) p =
      foldl (heap_push priority_le) (heap_of q p) (filter (handed now q p) ts)"
    "queued_tasks (fst (process_due_tasks ts now q)) =
      queued_tasks q \<union> {task_id t | t. t \<in> set ts \<and> (\<exists>p. handed now q p t)}"
    "q_store (fst (process_due_tasks ts now q)) = q_store q"
    using heap_of_pqs [of "fst (process_due_tasks ts now q)" q1] by (simp_all add: control_def)
qed

section \<open>Failing executions\<close>

lemma save_fault: "w \<notin> {Io_Ok, Rename_Fails} \<Longrightarrow> \<exists>x. fst (save_task C w t s) = Inl x"
  by (cases w) (simp_all add: save_task_def save_task_inner_def Let_def)

lemma save_in_lookup:
  "hm_ok (tasks_cache (q_store q)) \<Longrightarrow>
   get_latest_task i (q_store (snd (save_in C Io_Ok t q))) =
     (if i = task_id t then (if deleted_at t = None then Some t else None) else get_latest_task i (q_store q))"
  and save_in_ok: "hm_ok (tasks_cache (q_store q)) \<Longrightarrow> hm_ok (tasks_cache (q_store (snd (save_in C Io_Ok t q))))"
  using store_map.lookup_put [where C = C and s = "q_store q" and t = t]
    store_map.wf_put [where C = C and s = "q_store q" and t = t]
  by (simp_all add: save_in_def store_put_def split_beta)

lemma delete_lookup:
  assumes "hm_ok (tasks_cache s)" "\<And>j t. get_latest_task j s = Some t \<Longrightarrow> task_id t = j \<and> deleted_at t = None"
  shows "get_latest_task i (snd (delete_task C Io_Ok now now' k s)) = (if i = k then None else get_latest_task i s)"
    and "hm_ok (tasks_cache (snd (delete_task C Io_Ok now now' k s)))"
proof -
  show "get_latest_task i (snd (delete_task C Io_Ok now now' k s)) = (if i = k then None else get_latest_task i s)"
  proof (cases "get_latest_task k s")
    case None
    then show ?thesis by (simp add: delete_task_def get_latest_task_def)
  next
    case (Some t)
    then show ?thesis
      using assms(2) [OF Some]
      by (simp add: delete_task_def get_latest_task_def store_put_cache hm_get_apply_entry mark_deleted_def)
  qed
  show "hm_ok (tasks_cache (snd (delete_task C Io_Ok now now' k s)))"
    using assms(1) by (simp add: delete_task_def store_put_cache hm_ok_apply_entry split: option.split)
qed

text \<open>A store whose cache lists live tasks under their own identifiers.\<close>

definition live_store :: "file_store \<Rightarrow> bool" where
  "live_store s \<longleftrightarrow> hm_ok (tasks_cache s) \<and>
     (\<forall>i t. get_latest_task i s = Some t \<longrightarrow> task_id t = i \<and> deleted_at t = None)"

lemma live_store_inv: "store_inv C s \<Longrightarrow> live_store s"
  using store_inv_bytes [of C s] by (auto simp: live_store_def cache_inv_def get_latest_task_def)

lemma live_save_in:
  "live_store (q_store q) \<Longrightarrow> live_store (q_store (snd (save_in C Io_Ok t q)))"
  by (auto simp: live_store_def save_in_lookup save_in_ok split: if_splits)

lemma in_read_tasks: "live_store s \<Longrightarrow> t \<in> set (read_tasks s) \<longleftrightarrow> (\<exists>i. get_latest_task i s = Some t)"
  by (simp add: read_tasks_def hm_values_get live_store_def get_latest_task_def)

lemma read_tasks_live: "live_store s \<Longrightarrow> t \<in> set (read_tasks s) \<longleftrightarrow> get_latest_task (task_id t) s = Some t"
  using in_read_tasks [of s t] by (auto simp: live_store_def)

lemma distinct_read_tasks: "live_store s \<Longrightarrow> distinct (map task_id (read_tasks s))"
proof -
  assume s: "live_store s"
  have "map task_id (read_tasks s) = map fst (tasks_cache s)"
    using s by (auto simp: live_store_def hm_ok_def get_latest_task_def hm_get_def read_tasks_def hm_values_def)
  then show ?thesis using s by (simp add: live_store_def hm_ok_def)
qed

lemma waits_live:
  "waits q t \<longleftrightarrow> \<not> (\<forall>deps. trigger_after_ids t = Some deps \<longrightarrow>
     (\<forall>d \<in> set deps. get_latest_task d (q_store q) = None))"
  by (cases "trigger_after_ids t")
    (simp_all add: waits_def are_tasks_completed_def hm_contains_get get_latest_task_def)

lemma handed_live:
  assumes "live_store (q_store q)" "t \<in> set (read_tasks (q_store q))"
  shows "handed now q p t \<longleftrightarrow> execute_at t \<le> now \<and> retry_after_time t \<le> now \<and>
    (\<forall>deps. trigger_after_ids t = Some deps \<longrightarrow> (\<forall>d \<in> set deps. get_latest_task d (q_store q) = None)) \<and>
    task_id t \<notin> executing_tasks q \<and> task_id t \<notin> queued_tasks q \<and> target_pool q t = Some p"
proof -
  have "deleted_at t = None"
    using assms read_tasks_live [OF assms(1), of t] unfolding live_store_def by blast
  then show ?thesis unfolding handed_def due_def waits_live by blast
qed

lemma complete_task_store:
  assumes "live_store (q_store q)"
  shows "get_latest_task i (q_store (complete_task C Io_Ok now now' mt t q)) =
      (if i = task_id t then None else get_latest_task i (q_store q))"
    and "live_store (q_store (complete_task C Io_Ok now now' mt t q))"
  using assms delete_lookup [of "q_store q"]
  by (auto simp: complete_task_def live_store_def split: if_splits)

lemma end_execution_store [simp]: "q_store (end_execution p t q) = q_store q"
  by (simp add: end_execution_def release_permit_def)

lemma execute_failure_store:
  "webhook_url t \<noteq> None \<or> task_type t \<in> task_handlers q \<Longrightarrow>
   q_store (snd (execute_task C w clk mt (Inl e) p t q)) = q_store (snd (exec_failure C w clk mt e t q)) \<and>
   fst (execute_task C w clk mt (Inl e) p t q) = fst (exec_failure C w clk mt e t q)"
  by (auto simp: execute_task_def split_beta)

lemma sint_dec:
  assumes "- (2 ^ 31) < sint (c :: i32)"
  shows "sint (c - 1) = sint c - 1"
proof -
  have "sint c < 2 ^ 31" using sint_lt [of c] by simp
  then have "signed_take_bit 31 (sint c - 1) = sint c - 1"
    using assms by (intro signed_take_bit_int_eq_self) simp_all
  then show ?thesis by (simp add: sint_word_ariths)
qed

text \<open>The tasks that wait for \<open>i\<close>, by their identifiers.\<close>

definition waits_for :: "string \<Rightarrow> rtask \<Rightarrow> bool" where
  "waits_for i t = (case trigger_after_ids t of Some deps \<Rightarrow> i \<in> set deps | None \<Rightarrow> False)"

lemma children_of_waits: "children_of i q = filter (waits_for i) (read_tasks (q_store q))"
  by (simp add: children_of_def waits_for_def [abs_def])

lemma fail_children_store:
  assumes "live_store (q_store q)"
    and "\<And>c n m. c \<in> set cs \<Longrightarrow> update_retry_config C (clk n) (clk m) (Some (blocked_message tid)) c \<noteq> None"
  shows "fst (fail_children C (\<lambda>n. Io_Ok) clk k tid cs q) \<and>
    live_store (q_store (snd (fail_children C (\<lambda>n. Io_Ok) clk k tid cs q))) \<and>
    (\<forall>i. get_latest_task i (q_store (snd (fail_children C (\<lambda>n. Io_Ok) clk k tid cs q))) =
      (if i \<in> task_id ` set cs then None else get_latest_task i (q_store q)))"
  using assms
proof (induction cs arbitrary: k q)
  case (Cons c cs)
  obtain c' where c': "update_retry_config C (clk (4 * k)) (clk (4 * k + 1)) (Some (blocked_message tid)) c = Some c'"
    using Cons.prems(2) [of c] by fastforce
  then have i: "task_id c' = task_id c"
    by (auto simp: update_retry_config_def Let_def split: option.splits)
  let ?d = "mark_deleted (clk (4 * k + 2)) (clk (4 * k + 3)) c'"
  let ?q = "snd (save_in C Io_Ok ?d q)"
  have d: "task_id ?d = task_id c" "deleted_at ?d \<noteq> None" using i by (simp_all add: mark_deleted_def)
  have l: "live_store (q_store ?q)" by (rule live_save_in [OF Cons.prems(1)])
  have g: "get_latest_task i (q_store ?q) = (if i = task_id c then None else get_latest_task i (q_store q))" for i
    using save_in_lookup [of q i C ?d] Cons.prems(1) d by (auto simp: live_store_def)
  show ?case
    using Cons.IH [OF l, of "Suc k"] Cons.prems(2) by (auto simp: c' [simplified] g [simplified])
qed simp

section \<open>Attempts\<close>

text \<open>
  \<open>n\<close> executions in a row that fail, each of the version of task \<open>i\<close> that is live then; the
  second component counts them.
\<close>

fun failing_runs ::
  "crates \<Rightarrow> (nat \<Rightarrow> instant) \<Rightarrow> instant \<Rightarrow> string \<Rightarrow> string \<Rightarrow> string \<Rightarrow> nat \<Rightarrow> queue \<Rightarrow> queue \<times> nat" where
  "failing_runs C clk mt e p i 0 q = (q, 0)"
| "failing_runs C clk mt e p i (Suc n) q =
     (case get_latest_task i (q_store q) of
        None \<Rightarrow> (q, 0)
      | Some t \<Rightarrow>
          map_prod id Suc (failing_runs C clk mt e p i n
            (snd (execute_task C (\<lambda>k. Io_Ok) clk mt (Inl e) p t q))))"

text \<open>A task of which every retry can be scheduled, and which nothing waits for.\<close>

definition retryable :: "crates \<Rightarrow> (nat \<Rightarrow> instant) \<Rightarrow> string \<Rightarrow> queue \<Rightarrow> rtask \<Rightarrow> bool" where
  "retryable C clk e q t \<longleftrightarrow>
     (webhook_url t \<noteq> None \<or> task_type t \<in> task_handlers q) \<and> live_store (q_store q) \<and>
     get_latest_task (task_id t) (q_store q) = Some t \<and>
     (\<forall>j u. get_latest_task j (q_store q) = Some u \<longrightarrow> \<not> waits_for (task_id t) u) \<and>
     add_seconds C (clk 0) (f64_as_i64 (f64_mul (retry_after_hours t) f64_3600)) \<noteq> None"

lemma handlers_end [simp]: "task_handlers (end_execution p t q) = task_handlers q"
  by (simp add: end_execution_def release_permit_def)

lemma handlers_save [simp]: "task_handlers (snd (save_in C w t q)) = task_handlers q"
  by (simp add: save_in_def split_beta)

lemma failed_attempt_retries:
  assumes r: "retryable C clk e q t" and lt: "sint (retry_count t) < sint (max_retries t - 1)"
  shows "\<exists>t'. get_latest_task (task_id t) (q_store (snd (execute_task C (\<lambda>k. Io_Ok) clk mt (Inl e) p t q))) = Some t' \<and>
    task_id t' = task_id t \<and> retry_count t' = retry_count t + 1 \<and> max_retries t' = max_retries t \<and>
    retryable C clk e (snd (execute_task C (\<lambda>k. Io_Ok) clk mt (Inl e) p t q)) t'"
proof -
  obtain due_time where due_time: "add_seconds C (clk 0) (f64_as_i64 (f64_mul (retry_after_hours t) f64_3600)) = Some due_time"
    using r by (auto simp: retryable_def)
  define t' where "t' = t\<lparr>retry_count := retry_count t + 1, retry_after_time := due_time, last_error_obj := Some e,
    last_job_error := Some \<lparr>error_string = e, retry_worthy = True\<rparr>, updated_at := clk 1\<rparr>"
  have u: "update_retry_config C (clk 0) (clk 1) (Some e) t = Some t'"
    by (simp add: update_retry_config_def due_time t'_def)
  have h: "webhook_url t \<noteq> None \<or> task_type t \<in> task_handlers q" using r by (simp add: retryable_def)
  let ?q = "snd (execute_task C (\<lambda>k. Io_Ok) clk mt (Inl e) p t q)"
  have f: "snd (exec_failure C (\<lambda>k. Io_Ok) clk mt e t q) = snd (save_in C Io_Ok t' q)"
    using lt u by (simp add: exec_failure_def)
  have st: "q_store ?q = q_store (snd (save_in C Io_Ok t' q))"
    using execute_failure_store [OF h] f by simp
  have hd: "task_handlers ?q = task_handlers q"
    using h lt u by (auto simp: execute_task_def exec_failure_def)
  have ids: "task_id t' = task_id t" "deleted_at t' = deleted_at t" "trigger_after_ids t' = trigger_after_ids t"
    "webhook_url t' = webhook_url t" "task_type t' = task_type t" "retry_after_hours t' = retry_after_hours t"
    by (simp_all add: t'_def)
  have ls: "live_store (q_store q)" and live: "get_latest_task (task_id t) (q_store q) = Some t"
    using r by (simp_all add: retryable_def)
  then have del: "deleted_at t = None" by (simp add: live_store_def)
  have g: "get_latest_task i (q_store ?q) = (if i = task_id t then Some t' else get_latest_task i (q_store q))" for i
    using save_in_lookup [of q i C t'] ls ids del unfolding st by (simp add: live_store_def)
  have "\<not> waits_for (task_id t) t" using r live by (auto simp: retryable_def)
  then have "\<not> waits_for (task_id t) t'" by (simp add: waits_for_def ids)
  moreover have "live_store (q_store ?q)" unfolding st by (rule live_save_in [OF ls])
  ultimately have "retryable C clk e ?q t'"
    using r unfolding retryable_def by (auto simp: g ids hd split: if_splits)
  moreover have "retry_count t' = retry_count t + 1" "max_retries t' = max_retries t" by (simp_all add: t'_def)
  ultimately show ?thesis by (simp add: g ids)
qed

lemma last_attempt_buries:
  assumes r: "retryable C clk e q t" and ge: "\<not> sint (retry_count t) < sint (max_retries t - 1)"
  shows "get_latest_task (task_id t) (q_store (snd (execute_task C (\<lambda>k. Io_Ok) clk mt (Inl e) p t q))) = None"
proof -
  have "\<not> waits_for (task_id t) u" if "u \<in> set (read_tasks (q_store q))" for u
    using r that in_read_tasks [of "q_store q" u] by (auto simp: retryable_def)
  then have "children_of (task_id t) q = []" by (simp add: children_of_waits filter_empty_conv)
  then have f: "snd (exec_failure C (\<lambda>k. Io_Ok) clk mt e t q) = complete_task C Io_Ok (clk 0) (clk 1) mt t q"
    using ge by (simp add: exec_failure_def)
  have h: "webhook_url t \<noteq> None \<or> task_type t \<in> task_handlers q" and ls: "live_store (q_store q)"
    using r by (simp_all add: retryable_def)
  have "q_store (snd (execute_task C (\<lambda>k. Io_Ok) clk mt (Inl e) p t q)) =
      q_store (complete_task C Io_Ok (clk 0) (clk 1) mt t q)"
    using execute_failure_store [OF h] f by simp
  then show ?thesis
    using complete_task_store(1) [OF ls, of "task_id t" C "clk 0" "clk 1" mt t] by simp
qed

lemma failing_runs_count:
  assumes "retryable C clk e q t" "sint (max_retries t) = sint (retry_count t) + int (Suc m)"
  shows "snd (failing_runs C clk mt e p (task_id t) n q) = min n (Suc m) \<and>
    (case get_latest_task (task_id t) (q_store (fst (failing_runs C clk mt e p (task_id t) n q))) of
       Some t' \<Rightarrow> n \<le> m \<and> sint (retry_count t') = sint (retry_count t) + int n
     | None \<Rightarrow> m < n)"
  using assms
proof (induction n arbitrary: q t m)
  case 0
  then show ?case by (simp add: retryable_def)
next
  case (Suc n)
  let ?q = "snd (execute_task C (\<lambda>k. Io_Ok) clk mt (Inl e) p t q)"
  have live: "get_latest_task (task_id t) (q_store q) = Some t" using Suc.prems(1) by (simp add: retryable_def)
  have "- (2 ^ 31) \<le> sint (retry_count t)" using sint_ge [of "retry_count t"] by simp
  then have dec: "sint (max_retries t - 1) = sint (retry_count t) + int m"
    using Suc.prems(2) by (subst sint_dec) simp_all
  show ?case
  proof (cases m)
    case 0
    then have "get_latest_task (task_id t) (q_store ?q) = None"
      using last_attempt_buries [OF Suc.prems(1)] dec by simp
    moreover from this have "failing_runs C clk mt e p (task_id t) n ?q = (?q, 0)" by (cases n) simp_all
    ultimately show ?thesis using live 0 by simp
  next
    case m: (Suc m')
    then have lt: "sint (retry_count t) < sint (max_retries t - 1)" using dec by simp
    obtain t' where t': "get_latest_task (task_id t) (q_store ?q) = Some t'" "task_id t' = task_id t"
        "retry_count t' = retry_count t + 1" "max_retries t' = max_retries t" "retryable C clk e ?q t'"
      using failed_attempt_retries [OF Suc.prems(1) lt, of mt p] by blast
    have inc: "sint (retry_count t') = sint (retry_count t) + 1"
      unfolding t'(3) by (rule sint_inc [OF lt])
    have "sint (max_retries t') = sint (retry_count t') + int (Suc m')"
      using Suc.prems(2) t'(4) inc m by simp
    from Suc.IH [OF t'(5) this] show ?thesis
      using live t'(2) inc m by (auto split: option.splits)
  qed
qed

section \<open>The last failure\<close>

lemma fail_children_handlers:
  "max_retry_handlers (snd (fail_children C w clk k tid cs q)) = max_retry_handlers q"
  by (induction C w clk k tid cs q rule: fail_children.induct)
    (simp_all add: save_in_def split_beta split: option.split)

lemma last_failure_store:
  assumes h: "webhook_url t \<noteq> None \<or> task_type t \<in> task_handlers q" and ls: "live_store (q_store q)"
    and last: "\<not> sint (retry_count t) < sint (max_retries t - 1)"
    and kids: "\<forall>c n m. waits_for (task_id t) c \<and> get_latest_task (task_id c) (q_store q) = Some c \<longrightarrow>
      update_retry_config C (clk n) (clk m) (Some (blocked_message (task_id t))) c \<noteq> None"
  shows "fst (execute_task C (\<lambda>n. Io_Ok) clk mt (Inl e) p t q) = dlq_calls C t q \<and>
    live_store (q_store (snd (execute_task C (\<lambda>n. Io_Ok) clk mt (Inl e) p t q))) \<and>
    (\<forall>i. get_latest_task i (q_store (snd (execute_task C (\<lambda>n. Io_Ok) clk mt (Inl e) p t q))) =
      (if i = task_id t \<or> (\<exists>u. get_latest_task i (q_store q) = Some u \<and> waits_for (task_id t) u)
       then None else get_latest_task i (q_store q)))"
proof -
  let ?cs = "children_of (task_id t) q"
  have cs: "c \<in> set ?cs \<longleftrightarrow> get_latest_task (task_id c) (q_store q) = Some c \<and> waits_for (task_id t) c" for c
    by (auto simp: children_of_waits read_tasks_live [OF ls])
  obtain ok q1 where f: "fail_children C (\<lambda>n. Io_Ok) clk 0 (task_id t) ?cs q = (ok, q1)" by fastforce
  have fc: "ok" "live_store (q_store q1)"
    "\<And>i. get_latest_task i (q_store q1) = (if i \<in> task_id ` set ?cs then None else get_latest_task i (q_store q))"
    using fail_children_store [OF ls, of ?cs C clk "task_id t" 0] kids cs by (simp_all add: f)
  have m: "i \<in> task_id ` set ?cs \<longleftrightarrow> (\<exists>u. get_latest_task i (q_store q) = Some u \<and> waits_for (task_id t) u)" for i
  proof
    assume "\<exists>u. get_latest_task i (q_store q) = Some u \<and> waits_for (task_id t) u"
    then obtain u where u: "get_latest_task i (q_store q) = Some u" "waits_for (task_id t) u" by blast
    then have "task_id u = i" using ls by (simp add: live_store_def)
    then show "i \<in> task_id ` set ?cs" using u cs by (intro image_eqI [of _ _ u]) simp_all
  qed (auto simp: cs)
  have n: "max_retry_handlers q1 = max_retry_handlers q"
    using fail_children_handlers [of C "\<lambda>n. Io_Ok" clk 0 "task_id t" ?cs q] by (simp add: f)
  let ?k = "length ?cs"
  have e: "exec_failure C (\<lambda>n. Io_Ok) clk mt e t q =
      (dlq_calls C t q, complete_task C Io_Ok (clk (4 * ?k)) (clk (4 * ?k + 1)) mt t q1)"
    using last fc(1) n by (simp add: exec_failure_def f dlq_calls_def Let_def)
  show ?thesis
    using execute_failure_store [OF h, of C "\<lambda>n. Io_Ok" clk mt e p] complete_task_store [OF fc(2)]
    by (auto simp: e fc(3) m)
qed

section \<open>Skipped executions\<close>

lemma executing_kept:
  assumes "sys_step C S S'" "sys_inv cap S" "i \<in> executing_tasks (sys_queue S)" "i \<notin> set (running_ids S)"
  shows "i \<in> executing_tasks (sys_queue S') \<and> i \<notin> set (running_ids S')"
proof -
  have same: "i \<in> executing_tasks (sys_queue (with_queue T q)) \<and> i \<notin> set (running_ids (with_queue T q))"
    if "control q = control (sys_queue T)" "i \<in> executing_tasks (sys_queue T)" "i \<notin> set (running_ids T)" for q T
    using that by (simp add: control_def with_queue_def running_ids_def)
  show ?thesis
    using assms
  proof (induction rule: sys_step.induct)
    case (process_step S ts now)
    then show ?case
      using process_due_frame [of ts now "sys_queue S"] by (simp add: with_queue_def running_ids_def)
  next
    case (start_step w clk p S t q)
    have "control_inv (sys_queue S)" using start_step by (simp add: sys_inv_def)
    from dispatch_control [OF start_step(1) this] have "task_id t \<notin> executing_tasks (sys_queue S)"
      "executing_tasks q = insert (task_id t) (executing_tasks (sys_queue S))" by auto
    then show ?case using start_step by (auto simp: running_ids_def)
  next
    case (turn_step w clk p S r q)
    have "control_inv (sys_queue S)" using turn_step by (simp add: sys_inv_def)
    from dispatch_control [OF turn_step(1) this] have "executing_tasks q = executing_tasks (sys_queue S)"
      using turn_step(2) by (cases r) auto
    then show ?case using turn_step by (simp add: with_queue_def running_ids_def)
  next
    case (begin_step S xs p t ys)
    then show ?case by (simp add: running_ids_def)
  next
    case (skip_step S xs p t ys)
    then show ?case by (simp add: running_ids_def skip_completed_def release_permit_def)
  next
    case (finish_step S xs p t ys w clk mt outcome)
    have "executing_tasks (snd (execute_task C w clk mt outcome p t (sys_queue S))) =
        executing_tasks (sys_queue S) - {task_id t}"
      using control_execute [of C w clk mt outcome p t "sys_queue S"]
      by (simp add: control_def end_execution_def release_permit_def)
    then show ?case using finish_step by (simp add: running_ids_def)
  qed (use same in \<open>simp_all\<close>)
qed

lemma executing_stuck:
  assumes "(sys_step C)\<^sup>*\<^sup>* S S'" "sys_inv cap S" "i \<in> executing_tasks (sys_queue S)" "i \<notin> set (running_ids S)"
  shows "sys_inv cap S' \<and> i \<in> executing_tasks (sys_queue S') \<and> i \<notin> set (running_ids S')"
  using assms(1)
proof (induction rule: rtranclp_induct)
  case base
  then show ?case using assms by simp
next
  case (step S1 S2)
  then show ?case using sys_inv_step executing_kept by blast
qed

section \<open>Properties\<close>


definition demo_queue :: queue where
  "demo_queue = the (new_with_pools True (empty_store None) None [(''default'', 2)])"

lemma demo_queue_new: "new_with_pools True (empty_store None) None [(''default'', 2)] = Some demo_queue"
  by (simp add: demo_queue_def new_with_pools_def Let_def)


text \<open>
  Property C7: a run of the processor over the live tasks puts into each pool's heap exactly the
  tasks that are due, wait for no live task, are neither queued nor executing and belong to
  that pool, and nothing else changes in the store; a pool that was empty then hands them out by
  falling urgency, if no score is NaN.
\<close>

theorem process_due_tasks_exact:
  fixes now :: instant
  assumes "live_store (q_store q)" "heap_of q p = []" "\<And>t. t \<in> set (read_tasks (q_store q)) \<Longrightarrow> score t \<noteq> NaN"
  defines "q' \<equiv> fst (process_due_tasks (read_tasks (q_store q)) now q)"
  shows "q_store q' = q_store q \<and>
    mset (drain (heap_pop priority_le) (length (heap_of q' p)) (heap_of q' p)) =
      filter_mset (\<lambda>t. execute_at t \<le> now \<and> retry_after_time t \<le> now \<and>
        (\<forall>deps. trigger_after_ids t = Some deps \<longrightarrow> (\<forall>d \<in> set deps. get_latest_task d (q_store q) = None)) \<and>
        task_id t \<notin> executing_tasks q \<and> task_id t \<notin> queued_tasks q \<and> target_pool q t = Some p)
        (mset (read_tasks (q_store q))) \<and>
    sorted_wrt (\<lambda>x y. f64_le (score y) (score x)) (drain (heap_pop priority_le) (length (heap_of q' p)) (heap_of q' p))"
proof -
  let ?ts = "read_tasks (q_store q)"
  let ?due = "filter (handed now q p) ?ts"
  note d = distinct_read_tasks [OF assms(1)]
  have h: "heap_of q' p = foldl (heap_push priority_le) [] ?due"
    unfolding q'_def process_due_heap(1) [OF d] assms(2) ..
  have st: "q_store q' = q_store q" unfolding q'_def by (rule process_due_heap(3) [OF d])
  have pre: "preorder_on_set priority_le (set ?due)"
    by (rule priority_preorder) (use assms(3) in auto)
  have m: "mset (heap_of q' p) = mset ?due" using heap.elems_push_all [of priority_le "[]" ?due] by (simp add: h)
  have inv: "heap_inv priority_le (heap_of q' p)"
    unfolding h using pre by (intro heap_pq.inv_push_all) (simp_all add: heap_inv_def)
  have pre': "preorder_on_set priority_le (set_mset (mset (heap_of q' p)))" using pre by (simp only: m set_mset_mset)
  have "handed now q p t \<longleftrightarrow> execute_at t \<le> now \<and> retry_after_time t \<le> now \<and>
      (\<forall>deps. trigger_after_ids t = Some deps \<longrightarrow> (\<forall>d \<in> set deps. get_latest_task d (q_store q) = None)) \<and>
      task_id t \<notin> executing_tasks q \<and> task_id t \<notin> queued_tasks q \<and> target_pool q t = Some p"
    if "t \<in> set ?ts" for t
    by (rule handed_live [OF assms(1) that])
  then have f: "mset ?due = filter_mset (\<lambda>t. execute_at t \<le> now \<and> retry_after_time t \<le> now \<and>
        (\<forall>deps. trigger_after_ids t = Some deps \<longrightarrow> (\<forall>d \<in> set deps. get_latest_task d (q_store q) = None)) \<and>
        task_id t \<notin> executing_tasks q \<and> task_id t \<notin> queued_tasks q \<and> target_pool q t = Some p) (mset ?ts)"
    unfolding mset_filter by (intro filter_mset_cong) simp_all
  let ?d = "drain (heap_pop priority_le) (length (heap_of q' p)) (heap_of q' p)"
  have "mset ?d = mset (heap_of q' p)" by (rule heap.drain_mset) (simp only: size_mset order_refl)
  then have "mset ?d = mset ?due" by (simp only: m)
  moreover
  have "sorted_wrt (\<lambda>x y. f64_le (score y) (score x)) ?d"
    using heap_pq.drain_sorted [OF pre' inv, of "length (heap_of q' p)"] unfolding priority_le_score by simp
  ultimately show ?thesis using st unfolding f by (intro conjI)
qed

lemma live_store_save: "live_store s \<Longrightarrow> live_store (snd (save_task C Io_Ok t s))"
  using live_save_in [of "demo_queue\<lparr>q_store := s\<rparr>" C t] by (simp add: save_in_def split_beta)

lemma live_store_empty: "live_store (empty_store None)"
  using live_store_inv [OF store_inv_empty] .

lemma demo_store_tasks: "read_tasks demo_store = [demo_task]"
  by (simp add: demo_store_def save_task_def save_task_ok Let_def empty_store_def read_tasks_def apply_entry_def
      hm_insert_def hm_values_def demo_task_def task_new_def)

lemma demo_queue_simps:
  "q_store demo_queue = empty_store None" "executing_tasks demo_queue = {}" "queued_tasks demo_queue = {}"
  "shared_pqs demo_queue = [(''default'', [])]" "worker_pools demo_queue = [(''default'', 2)]"
  "completed_tasks demo_queue = []" "task_handlers demo_queue = {}" "max_retry_handlers demo_queue = {}"
  by (simp_all add: demo_queue_def new_with_pools_def add_pool_def hm_contains_def Let_def hm_insert_def)

lemma process_due_tasks_exact_witness:
  "mset (heap_of (fst (process_due_tasks (read_tasks demo_store) 0 (demo_queue\<lparr>q_store := demo_store\<rparr>))) ''default'') = {# demo_task #}"
proof -
  let ?q = "demo_queue\<lparr>q_store := demo_store\<rparr>"
  have live: "live_store (q_store ?q)" using live_store_inv [OF store_inv_demo] by simp
  have sc: "score t \<noteq> NaN" if "t \<in> set (read_tasks (q_store ?q))" for t
    using that by (simp add: demo_store_tasks score_def demo_task_def task_new_def f64_zero_def)
  have hp: "heap_of ?q ''default'' = []" by (simp add: heap_of_def demo_queue_simps hm_get_def)
  let ?h = "heap_of (fst (process_due_tasks (read_tasks demo_store) 0 ?q)) ''default''"
  have "mset (drain (heap_pop priority_le) (length ?h) ?h) = {# demo_task #}"
    using process_due_tasks_exact [OF live hp sc, of 0]
    by (simp add: demo_store_tasks demo_queue_simps target_pool_def hm_contains_def)
      (simp add: demo_task_def task_new_def)
  moreover have "mset (drain (heap_pop priority_le) (length ?h) ?h) = mset ?h"
    by (rule heap.drain_mset) simp
  ultimately show ?thesis by simp
qed

text \<open>
  An enqueue that is refused because of a cycle, or whose save fails, has taken the
  payload hash all the same: from then on every task with that hash is acknowledged and dropped.
\<close>

lemma refused_enqueue_blocks_payload:
  assumes "payload_hash t = Some h" "h \<notin> active_hashes q"
    and "(\<exists>deps. trigger_after_ids t = Some deps \<and> detect_cycle (task_id t) deps (q_store q)) \<or>
      w \<notin> {Io_Ok, Rename_Fails}"
  shows "\<not> is_ok (fst (enqueue C w t q)) \<and>
    (payload_hash u = Some h \<longrightarrow> enqueue C w' u (snd (enqueue C w t q)) = (Inr (), snd (enqueue C w t q)))"
proof -
  let ?q = "q\<lparr>active_hashes := insert h (active_hashes q)\<rparr>"
  obtain r q2 where s: "save_in C w (t\<lparr>deleted_at := None\<rparr>) ?q = (r, q2)" by fastforce
  have a: "active_hashes q2 = insert h (active_hashes q)"
    using s by (auto simp: save_in_def split: prod.splits)
  have "\<not> is_ok (fst (enqueue C w t q)) \<and> h \<in> active_hashes (snd (enqueue C w t q))"
  proof (cases "\<exists>deps. trigger_after_ids t = Some deps \<and> detect_cycle (task_id t) deps (q_store q)")
    case True
    then show ?thesis using assms(1,2) by (auto simp: enqueue_def Let_def)
  next
    case False
    then have "w \<notin> {Io_Ok, Rename_Fails}" using assms(3) by blast
    then have "\<exists>x. r = Inl x"
      using save_fault [of w C "t\<lparr>deleted_at := None\<rparr>" "q_store q"] s
      by (auto simp: save_in_def split: prod.splits)
    then show ?thesis
      using assms(1,2) False s a by (auto simp: enqueue_def Let_def split: option.splits)
  qed
  then show ?thesis by (auto simp: enqueue_def)
qed

lemma refused_enqueue_blocks_payload_example:
  "enqueue demo_crates Io_Ok (demo_task\<lparr>task_id := ''b''\<rparr>) (snd (enqueue demo_crates Sync_Fails demo_task demo_queue)) =
   (Inr (), snd (enqueue demo_crates Sync_Fails demo_task demo_queue))"
proof -
  obtain h where h: "payload_hash demo_task = Some h" by (simp add: demo_task_def task_new_def Let_def)
  have "h \<notin> active_hashes demo_queue"
    by (simp add: demo_queue_def new_with_pools_def add_pool_def hm_contains_def Let_def store_hashes_def
        read_tasks_def empty_store_def hm_values_def List.map_filter_simps)
  from refused_enqueue_blocks_payload [OF h this, of Sync_Fails demo_crates "demo_task\<lparr>task_id := ''b''\<rparr>" Io_Ok]
  show ?thesis using h by simp
qed

text \<open>
  Two tasks with automatic deduplication whose type and data read the same when
  written one after the other have the same payload hash, whatever the hash function: while the
  first is pending, the second is acknowledged and dropped although its payload is another one.
\<close>

lemma dedupe_ignores_boundary:
  assumes "ty @ data = ty' @ data'" "payload_hash t = None \<or> the (payload_hash t) \<notin> active_hashes q"
    and "t = task_new C now cnow tid ty data mr hrs None None (Some True) urg ex cron hook secs pl None"
    and "t' = task_new C now' cnow' tid' ty' data' mr' hrs' rl pm (Some True) urg' ex' cron' hook' secs' pl' deps"
  shows "is_ok (fst (enqueue C Io_Ok t q)) \<and>
    get_latest_task tid (q_store (snd (enqueue C Io_Ok t q))) = Some t \<and>
    enqueue C w t' (snd (enqueue C Io_Ok t q)) = (Inr (), snd (enqueue C Io_Ok t q))"
proof -
  let ?h = "compute_hash C ty data"
  have f: "payload_hash t = Some ?h" "payload_hash t' = Some ?h" "trigger_after_ids t = None"
    "deleted_at t = None" "task_id t = tid"
    using assms(1) unfolding assms(3,4) by (simp_all add: task_new_def Let_def compute_hash_def)
  have same: "t\<lparr>deleted_at := None\<rparr> = t" using f(4) by (cases t) simp
  have e: "enqueue C Io_Ok t q =
      (Inr (), snd (save_in C Io_Ok t (q\<lparr>active_hashes := insert ?h (active_hashes q)\<rparr>)))"
    using assms(2) f by (simp add: same enqueue_def Let_def save_in_def save_task_def save_task_ok)
  show ?thesis
    using f by (simp add: e) (simp add: enqueue_def save_in_def save_task_def save_task_ok Let_def
        get_latest_task_def hm_get_apply_entry)
qed

text \<open>
  Property C10: a task that fails every time is executed exactly \<open>max_retries\<close> times in all (for
  \<open>max_retries >= 1\<close>, from a retry count of 0), its count rising by one with each failure but the
  last, and is then removed.
\<close>

theorem attempts_are_max_retries:
  assumes "retryable C clk e q t" "retry_count t = 0" "sint (max_retries t) = int (Suc m)"
  shows "snd (failing_runs C clk mt e p (task_id t) n q) = min n (Suc m) \<and>
    (case get_latest_task (task_id t) (q_store (fst (failing_runs C clk mt e p (task_id t) n q))) of
       Some t' \<Rightarrow> n \<le> m \<and> sint (retry_count t') = int n
     | None \<Rightarrow> m < n)"
  using failing_runs_count [OF assms(1), of m mt p n] assms(2,3) by (auto split: option.splits)

definition handler_queue :: queue where
  "handler_queue = demo_queue\<lparr>q_store := demo_store, task_handlers := {''mail''}\<rparr>"

lemma demo_retryable: "retryable demo_crates (\<lambda>n. 0) e handler_queue demo_task"
proof -
  have s: "f64_as_i64 (f64_mul f64_zero f64_3600) = 0"
    using retry_seconds [of 0] by (simp add: f64_of_nat_def f64_of_frac_def f64_zero_def)
  have "get_latest_task j demo_store = (if j = ''a'' then Some demo_task else None)" for j
    by (simp add: get_latest_task_def demo_store_simps demo_task_def task_new_def)
  then show ?thesis
    using live_store_inv [OF store_inv_demo] s
    by (simp add: retryable_def handler_queue_def add_seconds_def demo_crates_def nanos_def waits_for_def)
      (simp add: demo_task_def task_new_def)
qed

lemma attempts_are_max_retries_witness:
  "snd (failing_runs demo_crates (\<lambda>n. 0) 0 ''e'' ''default'' ''a'' 9 handler_queue) = 3"
proof -
  have f: "retry_count demo_task = 0" "sint (max_retries demo_task) = int (Suc 2)" "task_id demo_task = ''a''"
    by (simp_all add: demo_task_def task_new_def)
  show ?thesis
    using attempts_are_max_retries [OF demo_retryable f(1,2), where e = "''e''" and mt = 0 and p = "''default''" and n = 9] f(3) by simp
qed

text \<open>
  Property C20: when a task has failed for the last time, its dead-letter webhook or handler gets
  its identifier, type and data, the task and the tasks that wait for it directly are removed,
  and no other task is touched. A task that waits only for such a child then waits no longer,
  although nothing that it waited for has succeeded.
\<close>

theorem last_failure_removes_children:
  assumes "webhook_url t \<noteq> None \<or> task_type t \<in> task_handlers q" "live_store (q_store q)"
    and "\<not> sint (retry_count t) < sint (max_retries t - 1)"
    and "\<forall>c n m. waits_for (task_id t) c \<and> get_latest_task (task_id c) (q_store q) = Some c \<longrightarrow>
      update_retry_config C (clk n) (clk m) (Some (blocked_message (task_id t))) c \<noteq> None"
  shows "fst (execute_task C (\<lambda>n. Io_Ok) clk mt (Inl e) p t q) = dlq_calls C t q \<and>
    (\<forall>i. get_latest_task i (q_store (snd (execute_task C (\<lambda>n. Io_Ok) clk mt (Inl e) p t q))) =
      (if i = task_id t \<or> (\<exists>u. get_latest_task i (q_store q) = Some u \<and> waits_for (task_id t) u)
       then None else get_latest_task i (q_store q))) \<and>
    (\<forall>g. waits (snd (execute_task C (\<lambda>n. Io_Ok) clk mt (Inl e) p t q)) g \<longleftrightarrow>
      (\<exists>deps d u. trigger_after_ids g = Some deps \<and> d \<in> set deps \<and> d \<noteq> task_id t \<and>
         get_latest_task d (q_store q) = Some u \<and> \<not> waits_for (task_id t) u))"
proof -
  note s = last_failure_store [OF assms]
  have "waits (snd (execute_task C (\<lambda>n. Io_Ok) clk mt (Inl e) p t q)) g \<longleftrightarrow>
      (\<exists>deps d u. trigger_after_ids g = Some deps \<and> d \<in> set deps \<and> d \<noteq> task_id t \<and>
         get_latest_task d (q_store q) = Some u \<and> \<not> waits_for (task_id t) u)" for g
    unfolding waits_live s [THEN conjunct2, THEN conjunct2, THEN spec] by force
  then show ?thesis using s by blast
qed

lemma last_failure_removes_children_witness:
  "fst (execute_task demo_crates (\<lambda>n. Io_Ok) (\<lambda>n. 0) 0 (Inl ''e'') ''default'' (demo_task\<lparr>max_retries := 1\<rparr>)
     (handler_queue\<lparr>max_retry_handlers := {''mail''}\<rparr>)) =
   [Dlq_Handler ''mail'' (dlq_payload demo_crates demo_task)]"
proof -
  let ?q = "handler_queue\<lparr>max_retry_handlers := {''mail''}\<rparr>" and ?t = "demo_task\<lparr>max_retries := 1\<rparr>"
  have g: "get_latest_task j demo_store = (if j = ''a'' then Some demo_task else None)" for j
    by (simp add: get_latest_task_def demo_store_simps demo_task_def task_new_def)
  have h: "webhook_url ?t \<noteq> None \<or> task_type ?t \<in> task_handlers ?q" "live_store (q_store ?q)"
    "\<not> sint (retry_count ?t) < sint (max_retries ?t - 1)"
    using live_store_inv [OF store_inv_demo] by (simp_all add: handler_queue_def demo_task_def task_new_def)
  have "\<not> waits_for (task_id ?t) demo_task" by (simp add: waits_for_def demo_task_def task_new_def)
  then have k: "\<forall>c n m. waits_for (task_id ?t) c \<and> get_latest_task (task_id c) (q_store ?q) = Some c \<longrightarrow>
      update_retry_config demo_crates ((\<lambda>n. 0) (n::nat)) ((\<lambda>n. 0) (m::nat)) (Some (blocked_message (task_id ?t))) c \<noteq> None"
    using g by (auto simp: handler_queue_def split: if_splits)
  show ?thesis
    using last_failure_removes_children [OF h, of demo_crates "\<lambda>n. 0" 0 "''e''" "''default''", OF k]
    by (simp add: dlq_calls_def dlq_payload_def handler_queue_def demo_task_def task_new_def)
qed

text \<open>
  Property C34: the check that skips a completed id leaves it marked as executing: from any state that
  a queue can reach, once an execution is skipped, its id is executing forever although nothing
  runs, so a task with that id, though live in the store, is never handed to a worker again until the program is
  restarted. An id that is enqueued again within a minute after its completion ends this way.
\<close>

theorem completed_id_is_stuck:
  assumes "new_with_pools b st limits pools = Some q" "(sys_step C)\<^sup>*\<^sup>* (sys_start q) S"
    and "sys_running S = xs @ (p, t, False) # ys" "already_completed t (sys_queue S)"
    and "S1 = \<lparr>sys_queue = skip_completed p t (sys_queue S), sys_running = xs @ ys\<rparr>" "(sys_step C)\<^sup>*\<^sup>* S1 S2"
  shows "sys_step C S S1 \<and> q_store (sys_queue S1) = q_store (sys_queue S) \<and>
    task_id t \<in> executing_tasks (sys_queue S2) \<and> task_id t \<notin> set (running_ids S2) \<and>
    (\<forall>now u. task_id u = task_id t \<longrightarrow> \<not> due now (sys_queue S2) u)"
proof -
  have step: "sys_step C S S1" using sys_step.skip_step [OF assms(3,4)] assms(5) by simp
  have inv: "sys_inv (hm_get (worker_pools q)) S"
    using sys_inv_reachable [OF assms(2)] control_inv_new [OF assms(1)] by blast
  have inv1: "sys_inv (hm_get (worker_pools q)) S1" by (rule sys_inv_step [OF step inv])
  have "task_id t \<in> executing_tasks (sys_queue S)" "distinct (running_ids S)"
    using inv assms(3) by (auto simp: sys_inv_def running_ids_def)
  then have "task_id t \<in> executing_tasks (sys_queue S1)" "task_id t \<notin> set (running_ids S1)"
    using assms(3,5) by (auto simp: skip_completed_def release_permit_def running_ids_def)
  from executing_stuck [OF assms(6) inv1 this]
  show ?thesis using step assms(5) by (auto simp: due_def skip_completed_def release_permit_def)
qed

definition mail_queue :: queue where
  "mail_queue = register_task_handler ''mail'' (register_max_retry_handler ''mail'' demo_queue)"

lemma mail_queue_eq:
  "mail_queue = \<lparr>q_store = empty_store None, q_limits = None, task_handlers = {''mail''}, max_retry_handlers = {''mail''},
     active_hashes = {}, executing_tasks = {}, queued_tasks = {}, completed_tasks = [],
     worker_pools = [(''default'', 2)], shared_pqs = [(''default'', [])], dispatcher_counts = [(''default'', 0)]\<rparr>"
  by (simp add: mail_queue_def demo_queue_def new_with_pools_def add_pool_def hm_contains_def Let_def hm_insert_def
      register_task_handler_def register_max_retry_handler_def store_hashes_def read_tasks_def empty_store_def hm_values_def
      List.map_filter_def)

text \<open>One round: the processor hands the demo task over, it starts, and the check lets it pass or not.\<close>

lemma demo_round:
  assumes "hm_get (worker_pools q) ''default'' = Some 2" "heap_of q ''default'' = []" 
    and "hm_contains (shared_pqs q) ''default''" "executing_tasks q = {}" "queued_tasks q = {}"
  obtains q' where "(sys_step demo_crates)\<^sup>*\<^sup>* \<lparr>sys_queue = q, sys_running = []\<rparr>
      \<lparr>sys_queue = q', sys_running = [(''default'', demo_task, False)]\<rparr>"
    "completed_tasks q' = completed_tasks q" "task_handlers q' = task_handlers q"
    "executing_tasks q' = {''a''}" "queued_tasks q' = {}" "heap_of q' ''default'' = []"
    "hm_contains (shared_pqs q') ''default''" "hm_get (worker_pools q') ''default'' = Some 1"
proof -
  have t: "task_id demo_task = ''a''" "rate_limit_group demo_task = None" "execute_at demo_task = 0" "retry_after_time demo_task = 0"
    "trigger_after_ids demo_task = None" "deleted_at demo_task = None" "pool demo_task = None"
    by (simp_all add: demo_task_def task_new_def)
  let ?S = "\<lparr>sys_queue = q, sys_running = []\<rparr>"
  have hp: "heap_push priority_le [] demo_task = [demo_task]"
    using mset_heap_push [of priority_le "[]" demo_task] by simp
  define q1 where "q1 = fst (process_due_tasks [demo_task] 0 q)"
  have q1: "heap_of q1 ''default'' = [demo_task]" "completed_tasks q1 = completed_tasks q" "task_handlers q1 = task_handlers q"
    "executing_tasks q1 = {}" "queued_tasks q1 = {''a''}" "hm_contains (shared_pqs q1) ''default''"
    "worker_pools q1 = worker_pools q"
    using assms t
    by (simp_all add: q1_def process_due_tasks_def push_due_def waits_def due_def target_pool_def hp
       start_dispatcher_def Let_def heap_of_def)
  have p: "heap_pop priority_le [demo_task] = Some (demo_task, [])" by (simp add: heap_pop_def)
  obtain q' where q': "dispatch demo_crates (\<lambda>n. Io_Ok) (\<lambda>n. 0) ''default'' q1 = (Starts demo_task, q')"
    "completed_tasks q' = completed_tasks q" "task_handlers q' = task_handlers q"
    "executing_tasks q' = {''a''}" "queued_tasks q' = {}" "heap_of q' ''default'' = []"
    "hm_contains (shared_pqs q') ''default''" "hm_get (worker_pools q') ''default'' = Some 1"
    using assms(1) q1 t p by (simp add: dispatch_def rate_check_def Let_def heap_of_def numeral_2_eq_2)
  have "sys_step demo_crates ?S \<lparr>sys_queue = q1, sys_running = []\<rparr>"
    using sys_step.process_step [of demo_crates ?S "[demo_task]" 0] by (simp add: with_queue_def q1_def)
  moreover have "sys_step demo_crates \<lparr>sys_queue = q1, sys_running = []\<rparr> \<lparr>sys_queue = q', sys_running = [(''default'', demo_task, False)]\<rparr>"
    using sys_step.start_step [of demo_crates "\<lambda>n. Io_Ok" "\<lambda>n. 0" "''default''" "\<lparr>sys_queue = q1, sys_running = []\<rparr>"
        demo_task q'] q'(1) by simp
  ultimately have "(sys_step demo_crates)\<^sup>*\<^sup>* ?S \<lparr>sys_queue = q', sys_running = [(''default'', demo_task, False)]\<rparr>"
    by (meson r_into_rtranclp rtranclp_trans)
  then show ?thesis using that q'(2-8) by blast
qed

lemma completed_id_is_stuck_witness:
  "\<exists>S S1. (sys_step demo_crates)\<^sup>*\<^sup>* (sys_start demo_queue) S \<and> sys_step demo_crates S S1 \<and>
     ''a'' \<in> executing_tasks (sys_queue S1) \<and> running_ids S1 = []"
proof -
  have t: "task_id demo_task = ''a''" "cron_expression demo_task = None" "task_type demo_task = ''mail''"
    by (simp_all add: demo_task_def task_new_def)
  have m: "(sys_step demo_crates)\<^sup>*\<^sup>* (sys_start demo_queue) \<lparr>sys_queue = mail_queue, sys_running = []\<rparr>"
    using sys_step.register_step [of demo_crates "sys_start demo_queue" "''mail''" "''mail''"]
    by (simp add: sys_start_def with_queue_def mail_queue_def)
  obtain q1 where q1: "(sys_step demo_crates)\<^sup>*\<^sup>* \<lparr>sys_queue = mail_queue, sys_running = []\<rparr>
      \<lparr>sys_queue = q1, sys_running = [(''default'', demo_task, False)]\<rparr>"
    "completed_tasks q1 = []" "task_handlers q1 = {''mail''}" "executing_tasks q1 = {''a''}" "queued_tasks q1 = {}"
    "heap_of q1 ''default'' = []" "hm_contains (shared_pqs q1) ''default''" "hm_get (worker_pools q1) ''default'' = Some 1"
    by (rule demo_round [of mail_queue]) (simp_all add: mail_queue_eq hm_get_def hm_contains_def heap_of_def)
  define q2 where "q2 = snd (execute_task demo_crates (\<lambda>n. Io_Ok) (\<lambda>n. 0) 0 (Inr ()) ''default'' demo_task q1)"
  have b: "sys_step demo_crates \<lparr>sys_queue = q1, sys_running = [(''default'', demo_task, False)]\<rparr>
      \<lparr>sys_queue = q1, sys_running = [(''default'', demo_task, True)]\<rparr>"
    using sys_step.begin_step [of "\<lparr>sys_queue = q1, sys_running = [(''default'', demo_task, False)]\<rparr>" "[]" "''default''" demo_task
        "[]" demo_crates] q1(2) by (simp add: already_completed_def)
  have f: "sys_step demo_crates \<lparr>sys_queue = q1, sys_running = [(''default'', demo_task, True)]\<rparr>
      \<lparr>sys_queue = q2, sys_running = []\<rparr>"
    using sys_step.finish_step [of "\<lparr>sys_queue = q1, sys_running = [(''default'', demo_task, True)]\<rparr>" "[]" "''default''" demo_task
        "[]" demo_crates "\<lambda>n. Io_Ok" "\<lambda>n. 0" 0 "Inr ()"] by (simp add: q2_def)
  have q2: "hm_contains (completed_tasks q2) ''a''" "executing_tasks q2 = {}" "queued_tasks q2 = {}" "heap_of q2 ''default'' = []"
    "hm_contains (shared_pqs q2) ''default''" "hm_get (worker_pools q2) ''default'' = Some 2"
    using q1 t by (simp_all add: q2_def execute_task_def exec_success_def complete_task_def end_execution_def release_permit_def
        heap_of_def)
  obtain q3 where q3: "(sys_step demo_crates)\<^sup>*\<^sup>* \<lparr>sys_queue = q2, sys_running = []\<rparr>
      \<lparr>sys_queue = q3, sys_running = [(''default'', demo_task, False)]\<rparr>" "completed_tasks q3 = completed_tasks q2"
    by (rule demo_round [OF q2(6,4,5,2,3)])
  let ?S = "\<lparr>sys_queue = q3, sys_running = [(''default'', demo_task, False)]\<rparr>"
  have S: "(sys_step demo_crates)\<^sup>*\<^sup>* (sys_start demo_queue) ?S"
    using m q1(1) b f q3(1) by (meson r_into_rtranclp rtranclp_trans)
  have c: "already_completed demo_task (sys_queue ?S)" using q3(2) q2(1) t(1) by (simp add: already_completed_def)
  have r: "sys_running ?S = [] @ (''default'', demo_task, False) # []" by simp
  show ?thesis
    using completed_id_is_stuck [OF demo_queue_new S r c refl rtranclp.rtrancl_refl] S t(1)
    by (intro exI [of _ ?S] exI [of _ "\<lparr>sys_queue = skip_completed ''default'' demo_task q3, sys_running = []\<rparr>"])
      (simp add: running_ids_def)
qed

end
