(* ===== verification/Queue_Types.thy ===== *)
theory Queue_Types
  imports Queue
begin

text \<open>
  The types that the fields of a running queue (\<open>src/queue.rs\<close>) keep, whatever the log holds at the start and whatever the
  operating system answers on the way: tables with one entry per key, a cache of live tasks under
  their own ids, heaps of live tasks, a semaphore for every heap, and at most two dispatchers per pool.
\<close>

section \<open>Well-formed queues\<close>

definition pools_typed :: "queue \<Rightarrow> bool" where
  "pools_typed q \<longleftrightarrow>
     hm_ok (worker_pools q) \<and> hm_ok (shared_pqs q) \<and> hm_ok (dispatcher_counts q) \<and>
     set (hm_keys (shared_pqs q)) = set (hm_keys (worker_pools q)) \<and> hm_contains (worker_pools q) ''default'' \<and>
     (\<forall>p n. hm_get (dispatcher_counts q) p = Some n \<longrightarrow> n \<le> 2) \<and>
     (\<forall>p. \<forall>t \<in> set (heap_of q p). deleted_at t = None)"

definition queue_typed :: "queue \<Rightarrow> bool" where
  "queue_typed q \<longleftrightarrow>
     live_store (q_store q) \<and> \<not> compacting (q_store q) \<and> hm_ok (completed_tasks q) \<and> pools_typed q"

definition same_pools :: "queue \<Rightarrow> queue \<Rightarrow> bool" where
  "same_pools q q' \<longleftrightarrow> worker_pools q' = worker_pools q \<and> shared_pqs q' = shared_pqs q \<and>
     dispatcher_counts q' = dispatcher_counts q"

lemma same_pools_typed: "same_pools q q' \<Longrightarrow> pools_typed q' = pools_typed q"
  by (simp add: same_pools_def pools_typed_def heap_of_def)

section \<open>The store\<close>

text \<open>A table of live tasks under their own ids.\<close>

definition live_table :: "(string, rtask) hashmap \<Rightarrow> bool" where
  "live_table m \<longleftrightarrow> hm_ok m \<and> (\<forall>i t. hm_get m i = Some t \<longrightarrow> task_id t = i \<and> deleted_at t = None)"

lemma live_store_table: "live_store s \<longleftrightarrow> live_table (tasks_cache s)"
  by (simp add: live_store_def live_table_def get_latest_task_def)

lemma live_table_empty [simp]: "live_table []"
  by (simp add: live_table_def)

lemma live_apply_entry: "live_table m \<Longrightarrow> live_table (apply_entry t m)"
  by (auto simp: live_table_def hm_ok_apply_entry hm_get_apply_entry split: if_splits)

lemma live_compact_step: "live_table m \<Longrightarrow> live_table (compact_step m t)"
  by (auto simp: live_table_def compact_step_def split: if_splits option.splits)

lemma live_replay: "live_table m \<Longrightarrow> live_table (log_map.replay ts m)"
  by (induction ts arbitrary: m) (simp_all add: live_apply_entry)

lemma store_new_typed: "store_new C w clk f = (r, s) \<Longrightarrow> live_store s \<and> \<not> compacting s"
  by (auto simp: store_new_def rebuild_metadata_def Let_def rebuild_fold live_store_table live_replay
      split: option.splits if_splits)

lemma save_typed:
  "live_store s \<and> \<not> compacting s \<Longrightarrow>
   live_store (snd (save_task_inner C w t chk s)) \<and> \<not> compacting (snd (save_task_inner C w t chk s))"
  by (cases w) (simp_all add: save_task_inner_def append_log_def live_store_table live_apply_entry Let_def)

lemma delete_typed:
  "live_store s \<and> \<not> compacting s \<Longrightarrow>
   live_store (snd (delete_task C w now now' i s)) \<and> \<not> compacting (snd (delete_task C w now now' i s))"
  using save_typed [of s C w "mark_deleted now now' t" False for t]
  by (simp add: delete_task_def split: option.split)

lemma compact_typed:
  assumes "live_store s \<and> \<not> compacting s"
  shows "live_store (snd (compact_log C w clk ord s)) \<and> \<not> compacting (snd (compact_log C w clk ord s))"
proof -
  have "live_table (foldl compact_step [] es)" for es
    by (rule foldl_invariant) (simp_all add: live_compact_step)
  then show ?thesis
    using assms by (auto simp: compact_log_def Let_def live_store_table split: option.split)
qed

section \<open>The operations of the queue\<close>

lemma same_keys: "hm_get m k = Some v \<Longrightarrow> set (hm_keys (hm_insert k v' m)) = set (hm_keys m)"
  unfolding hm_keys_insert by (rule insert_absorb) (simp add: set_hm_keys domI)

lemma queue_typed_store:
  "queue_typed q \<Longrightarrow> live_store s \<and> \<not> compacting s \<Longrightarrow> queue_typed (q\<lparr>q_store := s\<rparr>)"
  by (simp add: queue_typed_def pools_typed_def heap_of_def)

lemma queue_typed_same:
  "queue_typed q \<Longrightarrow> q_store q' = q_store q \<Longrightarrow> hm_ok (completed_tasks q') \<Longrightarrow> same_pools q q' \<Longrightarrow> queue_typed q'"
  by (simp add: queue_typed_def same_pools_typed)

lemma save_in_typed: "queue_typed q \<Longrightarrow> queue_typed (snd (save_in C w t q))"
  using queue_typed_store [of q] save_typed [of "q_store q" C w t True]
  by (simp add: save_in_def save_task_def split_beta queue_typed_def)

lemma enqueue_typed: "queue_typed q \<Longrightarrow> queue_typed (snd (enqueue C w t q))"
proof -
  assume q: "queue_typed q"
  define h where "h = (case payload_hash t of Some h \<Rightarrow> q\<lparr>active_hashes := insert h (active_hashes q)\<rparr> | None \<Rightarrow> q)"
  have h: "queue_typed h"
    using q by (rule queue_typed_same) (use q in \<open>simp_all add: h_def queue_typed_def same_pools_def split: option.split\<close>)
  have "snd (enqueue C w t q) \<in> {q, h, snd (save_in C w (t\<lparr>deleted_at := None\<rparr>) h)}"
    unfolding enqueue_def h_def [symmetric] Let_def by (simp split: prod.split sum.split)
  then show ?thesis using q h save_in_typed by auto
qed

lemma complete_typed: "queue_typed q \<Longrightarrow> queue_typed (complete_task C w now now' mt t q)"
proof -
  assume q: "queue_typed q"
  let ?s = "snd (delete_task C w now now' (task_id t) (q_store q))"
  have "queue_typed (q\<lparr>q_store := ?s\<rparr>)"
    using queue_typed_store [OF q] delete_typed q by (simp add: queue_typed_def)
  then show ?thesis
    by (rule queue_typed_same) (use q in \<open>simp_all add: complete_task_def queue_typed_def same_pools_def\<close>)
qed

lemma fail_children_typed: "queue_typed q \<Longrightarrow> queue_typed (snd (fail_children C w clk k tid cs q))"
proof (induction cs arbitrary: k q)
  case (Cons c cs)
  then show ?case by (auto simp: save_in_typed split: option.split)
qed simp

lemma exec_typed:
  assumes "queue_typed q"
  shows "queue_typed (exec_success C w clk mt t q)" "queue_typed (snd (exec_failure C w clk mt e t q))"
proof -
  show "queue_typed (exec_success C w clk mt t q)"
    using assms by (auto simp: exec_success_def save_in_typed complete_typed split: option.split)
  obtain ok q' where f: "fail_children C w clk 0 (task_id t) (children_of (task_id t) q) q = (ok, q')" by fastforce
  then have "queue_typed q'" using fail_children_typed [OF assms] by (metis snd_conv)
  then show "queue_typed (snd (exec_failure C w clk mt e t q))"
    using assms by (auto simp: exec_failure_def f Let_def save_in_typed complete_typed split: option.split)
qed

lemma release_typed: "queue_typed q \<Longrightarrow> queue_typed (release_permit p q)"
proof (cases "hm_get (worker_pools q) p")
  case (Some n)
  assume q: "queue_typed q"
  have "set (hm_keys (hm_insert p (n + 1) (worker_pools q))) = set (hm_keys (worker_pools q))"
    using same_keys [OF Some] .
  then show ?thesis
    using q Some by (simp add: release_permit_def queue_typed_def pools_typed_def heap_of_def)
qed (simp add: release_permit_def)

lemma execute_typed: "queue_typed q \<Longrightarrow> queue_typed (snd (execute_task C w clk mt outcome p t q))"
proof -
  assume q: "queue_typed q"
  define r where "r = (if webhook_url t = None \<and> task_type t \<notin> task_handlers q then ([], q)
         else case outcome of Inr _ \<Rightarrow> ([], exec_success C w clk mt t q) | Inl e \<Rightarrow> exec_failure C w clk mt e t q)"
  have r: "queue_typed (snd r)" using q exec_typed by (auto simp: r_def split: sum.split)
  have "queue_typed ((snd r)\<lparr>executing_tasks := executing_tasks (snd r) - {task_id t}\<rparr>)"
    using r by (rule queue_typed_same) (use r in \<open>simp_all add: queue_typed_def same_pools_def\<close>)
  then show ?thesis
    by (simp add: execute_task_def r_def [symmetric] end_execution_def release_typed split_beta)
qed

section \<open>The processor and the dispatchers\<close>

lemma push_due_typed:
  assumes "queue_typed q" "push_due now (q, ps) t = (q', ps')"
  shows "queue_typed q'"
proof (cases "\<not> waits q t \<and> due now q t \<and> target_pool q t \<noteq> None")
  case True
  then obtain p where p: "target_pool q t = Some p" by blast
  have q': "q' = q\<lparr>queued_tasks := insert (task_id t) (queued_tasks q),
      shared_pqs := hm_insert p (heap_push priority_le (heap_of q p) t) (shared_pqs q)\<rparr>"
    using assms(2) True p by (simp add: push_due_def)
  obtain h where h: "hm_get (shared_pqs q) p = Some h"
    using p by (auto simp: target_pool_def Let_def hm_contains_get split: if_splits)
  have "set (heap_push priority_le (heap_of q p) t) = insert t (set (heap_of q p))"
    using heap.elems_push [of priority_le "heap_of q p" t] by (metis set_mset_add_mset_insert set_mset_mset)
  moreover have "deleted_at t = None" using True by (simp add: due_def)
  moreover have "heap_of q' r = (if r = p then heap_push priority_le (heap_of q p) t else heap_of q r)" for r
    by (simp add: q' heap_of_def)
  moreover have "set (hm_keys (shared_pqs q')) = set (hm_keys (shared_pqs q))"
    unfolding q' by (simp add: same_keys [OF h])
  ultimately show ?thesis
    using assms(1) unfolding queue_typed_def pools_typed_def by (auto simp: q')
next
  case False
  then have "q' = q" using assms(2) by (auto simp: push_due_def split: if_splits option.splits)
  then show ?thesis using assms(1) by simp
qed

lemma start_dispatcher_typed:
  assumes "queue_typed q" "start_dispatcher (q, ss) p = (q', ss')"
  shows "queue_typed q'"
proof -
  obtain n where q': "q' = q\<lparr>dispatcher_counts := hm_insert p n (dispatcher_counts q)\<rparr>" and "n \<le> 2"
    using assms(1) assms(2) by (auto simp: start_dispatcher_def Let_def queue_typed_def pools_typed_def split: if_splits option.splits)
  then show ?thesis
    using assms(1) by (simp add: queue_typed_def pools_typed_def heap_of_def q')
qed

lemma process_due_typed: "queue_typed q \<Longrightarrow> queue_typed (fst (process_due_tasks ts now q))"
proof -
  assume q: "queue_typed q"
  have "queue_typed (fst (foldl (push_due now) (q, []) ts))"
    by (rule foldl_invariant [where P = "\<lambda>x. queue_typed (fst x)"])
      (use q push_due_typed in \<open>auto simp: prod.collapse intro: push_due_typed [OF _ prod.collapse [symmetric]]\<close>)
  then have "queue_typed (fst (foldl start_dispatcher (fst (foldl (push_due now) (q, []) ts), []) ps))" for ps
    by (intro foldl_invariant [where P = "\<lambda>x. queue_typed (fst x)"])
      (auto intro: start_dispatcher_typed [OF _ prod.collapse [symmetric]])
  then show ?thesis by (simp add: process_due_tasks_def split_beta)
qed

lemma leave_typed: "queue_typed q \<Longrightarrow> queue_typed (leave_dispatcher p q)"
proof (cases "hm_get (dispatcher_counts q) p")
  case (Some n)
  assume q: "queue_typed q"
  then have "n - 1 \<le> 2" using Some unfolding queue_typed_def pools_typed_def by fastforce
  then show ?thesis
    using q Some by (simp add: leave_dispatcher_def queue_typed_def pools_typed_def heap_of_def)
qed (simp add: leave_dispatcher_def)

lemma dispatch_typed:
  assumes "queue_typed q" "dispatch C w clk p q = (r, q')"
  shows "queue_typed q'" "r = Starts t \<Longrightarrow> deleted_at t = None"
proof -
  have "queue_typed q' \<and> (\<forall>t. r = Starts t \<longrightarrow> deleted_at t = None)"
  proof (cases "hm_get (worker_pools q) p")
    case None
    then show ?thesis using assms by (auto simp: dispatch_def leave_typed)
  next
    case (Some n)
    show ?thesis
    proof (cases n)
      case 0
      then show ?thesis using assms Some by (auto simp: dispatch_def)
    next
      case (Suc k)
      show ?thesis
      proof (cases "heap_pop priority_le (heap_of q p)")
        case None
        then show ?thesis using assms Some Suc by (auto simp: dispatch_def leave_typed)
      next
        case pop: (Some th)
        obtain t h where th: "th = (t, h)" by fastforce
        have m: "mset (heap_of q p) = add_mset t (mset h)" using heap_pop_mset pop th by simp
        then have live: "deleted_at t = None" "\<forall>u \<in> set h. deleted_at u = None"
          using assms(1) unfolding queue_typed_def pools_typed_def
          by (metis insert_iff set_mset_add_mset_insert set_mset_mset)+
        obtain allowed f where rc: "rate_check C (w 0) (clk 0) t (q_limits q) = (allowed, f)" by fastforce
        let ?q = "q\<lparr>shared_pqs := hm_insert p h (shared_pqs q), q_limits := f\<rparr>"
        obtain h0 where h0: "hm_get (shared_pqs q) p = Some h0"
          using m by (cases "hm_get (shared_pqs q) p") (simp_all add: heap_of_def)
        have "heap_of ?q r = (if r = p then h else heap_of q r)" for r by (simp add: heap_of_def)
        then have q1: "queue_typed ?q"
          using assms(1) live(2) by (simp add: queue_typed_def pools_typed_def same_keys [OF h0])
        have q2: "queue_typed (x\<lparr>queued_tasks := Q\<rparr>)" if "queue_typed x" for x Q
          using that by (simp add: queue_typed_def pools_typed_def heap_of_def)
        have q3: "queue_typed (x\<lparr>executing_tasks := E, worker_pools := hm_insert p k (worker_pools x)\<rparr>)"
          if "queue_typed x" "worker_pools x = worker_pools q" for x E
          using that same_keys [OF Some, of k] by (simp add: queue_typed_def pools_typed_def heap_of_def)
        show ?thesis
          using assms(2) Some Suc pop th rc live(1) q2 [OF q1] q2 [OF save_in_typed [OF q1]]
            q3 [OF q2 [OF q1]]
          by (auto simp: dispatch_def Let_def split: if_splits)
      qed
    qed
  qed
  then show "queue_typed q'" "r = Starts t \<Longrightarrow> deleted_at t = None" by simp_all
qed

section \<open>Reachable states\<close>

definition system_typed :: "queue_system \<Rightarrow> bool" where
  "system_typed S \<longleftrightarrow> queue_typed (sys_queue S) \<and> (\<forall>(p, t, b) \<in> set (sys_running S). deleted_at t = None)"

lemma evict_typed: "queue_typed q \<Longrightarrow> queue_typed (q\<lparr>completed_tasks := evict_expired_completed (completed_tasks q) now ttl\<rparr>)"
proof -
  assume q: "queue_typed q"
  then have "hm_ok (evict_expired_completed (completed_tasks q) now ttl)"
    by (simp add: queue_typed_def hm_ok_def evict_expired_completed_def distinct_map_filter)
  then show ?thesis
    using queue_typed_same [OF q] by (simp add: same_pools_def)
qed

lemma register_typed:
  "queue_typed q \<Longrightarrow> queue_typed (register_task_handler ty (register_max_retry_handler ty2 q))"
  by (simp add: queue_typed_def pools_typed_def heap_of_def register_task_handler_def register_max_retry_handler_def)

lemma sys_step_typed:
  assumes "sys_step C S S'" "system_typed S"
  shows "system_typed S'"
  using assms
proof (induction rule: sys_step.induct)
  case (start_step w clk p S t q)
  then show ?case using dispatch_typed [OF _ start_step(1)] by (auto simp: system_typed_def)
next
  case (turn_step w clk p S r q)
  then show ?case using dispatch_typed(1) [OF _ turn_step(1)] by (simp add: system_typed_def with_queue_def)
next
  case (compact_step S io clk2 ord)
  then show ?case
    using queue_typed_store compact_typed by (simp add: system_typed_def with_queue_def queue_typed_def pools_typed_def heap_of_def)
qed (auto simp: system_typed_def with_queue_def enqueue_typed process_due_typed execute_typed evict_typed register_typed
    skip_completed_def release_typed)

text \<open>A queue under construction: as many empty heaps as semaphores, no dispatcher yet.\<close>

definition pools_idle :: "queue \<Rightarrow> bool" where
  "pools_idle q \<longleftrightarrow>
     hm_ok (worker_pools q) \<and> hm_ok (shared_pqs q) \<and> hm_ok (dispatcher_counts q) \<and>
     set (hm_keys (shared_pqs q)) = set (hm_keys (worker_pools q)) \<and>
     (\<forall>p n. hm_get (dispatcher_counts q) p = Some n \<longrightarrow> n = 0) \<and> (\<forall>p. heap_of q p = [])"

lemma add_pool_idle: "pools_idle q \<Longrightarrow> pools_idle (add_pool p n q)"
  by (simp add: pools_idle_def add_pool_def heap_of_def hm_keys_insert)

lemma add_pool_frame [simp]:
  "q_store (add_pool p n q) = q_store q" "completed_tasks (add_pool p n q) = completed_tasks q"
  "hm_contains (worker_pools (add_pool p n q)) r \<longleftrightarrow> r = p \<or> hm_contains (worker_pools q) r"
  by (simp_all add: add_pool_def)

lemma contains_Cons: "hm_contains ((k, v) # m) r \<longleftrightarrow> r = k \<or> hm_contains m r"
  by (auto simp: hm_contains_def)

lemma add_pools_idle:
  "pools_idle q \<Longrightarrow> pools_idle (foldl (\<lambda>q (p, n). add_pool p n q) q pools)"
  "q_store (foldl (\<lambda>q (p, n). add_pool p n q) q pools) = q_store q"
  "completed_tasks (foldl (\<lambda>q (p, n). add_pool p n q) q pools) = completed_tasks q"
  "hm_contains (worker_pools (foldl (\<lambda>q (p, n). add_pool p n q) q pools)) r \<longleftrightarrow>
     hm_contains pools r \<or> hm_contains (worker_pools q) r"
  by (induction pools arbitrary: q) (auto simp: add_pool_idle contains_Cons)

lemma new_queue_typed:
  assumes "new_with_pools lock_free st limits pools = Some q" "live_store st \<and> \<not> compacting st"
  shows "queue_typed q"
proof -
  let ?q0 = "\<lparr>q_store = st, q_limits = limits, task_handlers = {}, max_retry_handlers = {},
     active_hashes = store_hashes st, executing_tasks = {}, queued_tasks = {}, completed_tasks = [],
     worker_pools = [], shared_pqs = [], dispatcher_counts = []\<rparr>"
  obtain q0 where q0: "pools_idle q0" "q_store q0 = st" "completed_tasks q0 = []"
    and q: "q = (let q1 = foldl (\<lambda>q (p, n). add_pool p n q) q0 pools
                 in if hm_contains pools ''default'' then q1 else add_pool ''default'' 100 q1)"
  proof (rule that [of ?q0])
    show "pools_idle ?q0" by (simp add: pools_idle_def heap_of_def hm_keys_def)
  qed (use assms(1) in \<open>simp_all add: new_with_pools_def Let_def split: if_splits\<close>)
  have "pools_idle q \<and> q_store q = st \<and> completed_tasks q = [] \<and> hm_contains (worker_pools q) ''default''"
    using q0 by (simp add: q Let_def add_pools_idle add_pool_idle)
  then show ?thesis
    using assms(2) unfolding queue_typed_def pools_typed_def pools_idle_def by fastforce
qed



end
