(* ===== verification/Reruns.thy ===== *)
theory Reruns
  imports Queue_Types
begin

text \<open>
  Tasks that are to run again: a task whose group has used up its minute (\<open>spawn_dispatcher\<close> in \<open>src/queue.rs\<close>)
  and a recurring task that has succeeded (\<open>execute_task\<close>). Both go back to the store, and from there the
  processor hands them out again.
\<close>

section \<open>What the processor hands out again\<close>

text \<open>The task waits for nothing that is live, itself included.\<close>

definition unblocked :: "queue \<Rightarrow> rtask \<Rightarrow> bool" where
  "unblocked q t \<longleftrightarrow> (\<forall>deps. trigger_after_ids t = Some deps \<longrightarrow>
     (\<forall>d \<in> set deps. d \<noteq> task_id t \<and> get_latest_task d (q_store q) = None))"

text \<open>Whenever the processor runs and the task is due, it is in the heap of a pool after that.\<close>

definition comes_back :: "queue \<Rightarrow> rtask \<Rightarrow> bool" where
  "comes_back q t \<longleftrightarrow>
     (\<forall>now. execute_at t \<le> now \<and> retry_after_time t \<le> now \<longrightarrow>
        (\<exists>p. target_pool q t = Some p \<and>
           t \<in> set (heap_of (fst (process_due_tasks (read_tasks (q_store q)) now q)) p)))"

lemma handed_reaches_heap:
  assumes "live_store (q_store q)" "t \<in> set (read_tasks (q_store q))" "handed now q p t"
  shows "t \<in> set (heap_of (fst (process_due_tasks (read_tasks (q_store q)) now q)) p)"
proof -
  let ?due = "filter (handed now q p) (read_tasks (q_store q))"
  have "t \<in> set ?due" using assms(2,3) by simp
  then show ?thesis
    unfolding process_due_heap(1) [OF distinct_read_tasks [OF assms(1)]]
    using heap.elems_push_all [of priority_le "heap_of q p" ?due]
    by (metis UnI2 set_mset_mset set_mset_union)
qed

lemma target_pool_default: "hm_contains (shared_pqs q) ''default'' \<Longrightarrow> \<exists>p. target_pool q t = Some p"
  by (simp add: target_pool_def Let_def)

lemma comes_backI:
  assumes "live_store (q_store q)" "hm_contains (shared_pqs q) ''default''" "get_latest_task (task_id t) (q_store q) = Some t"
    and "unblocked q t" "task_id t \<notin> executing_tasks q" "task_id t \<notin> queued_tasks q"
  shows "comes_back q t"
  unfolding comes_back_def
proof (intro allI impI)
  fix now
  assume due: "execute_at t \<le> now \<and> retry_after_time t \<le> now"
  obtain p where p: "target_pool q t = Some p" using target_pool_default [OF assms(2)] by blast
  have t: "t \<in> set (read_tasks (q_store q))" using read_tasks_live [OF assms(1)] assms(3) by simp
  have "handed now q p t"
    using handed_live [OF assms(1) t] due p assms(4-6) by (auto simp: unblocked_def)
  then show "\<exists>p. target_pool q t = Some p \<and>
      t \<in> set (heap_of (fst (process_due_tasks (read_tasks (q_store q)) now q)) p)"
    using handed_reaches_heap [OF assms(1) t] p by blast
qed

section \<open>Rate limits\<close>

text \<open>Either the save went through, or the cache is as it was.\<close>

lemma save_in_any:
  "hm_ok (tasks_cache (q_store q)) \<Longrightarrow> deleted_at t = None \<Longrightarrow>
   get_latest_task i (q_store (snd (save_in C w t q))) =
     (if i = task_id t \<and> w \<in> {Io_Ok, Rename_Fails} then Some t else get_latest_task i (q_store q))"
  by (cases w) (simp_all add: save_in_def save_task_def save_task_inner_def append_log_def get_latest_task_def
      hm_get_apply_entry Let_def)

lemma save_in_frame:
  "worker_pools (snd (save_in C w t q)) = worker_pools q" "shared_pqs (snd (save_in C w t q)) = shared_pqs q"
  "executing_tasks (snd (save_in C w t q)) = executing_tasks q" "queued_tasks (snd (save_in C w t q)) = queued_tasks q"
  "completed_tasks (snd (save_in C w t q)) = completed_tasks q" "active_hashes (snd (save_in C w t q)) = active_hashes q"
  by (simp_all add: save_in_def split_beta)

text \<open>
  Property C12: A task that the rate limiter refuses is not lost and does not hold a worker up. The dispatcher takes it
  off the heap, gives the permit back and goes on; the stored task is put off by 60 seconds, and no other one is touched.
  From then on the processor hands it out again. If the save fails the task stays as it was, and is handed out
  again without the delay. A limiter that fails counts as one that refuses.
\<close>

theorem rate_limited_comes_back:
  assumes "queue_typed q" "hm_get (worker_pools q) p = Some (Suc free)"
    and "heap_pop priority_le (heap_of q p) = Some (t, h)" "get_latest_task (task_id t) (q_store q) = Some t"
    and "rate_limit_group t = Some g" "max_per_minute t = Some limit"
    and "fst (check_and_increment C (w 0) (clk 0) g limit (q_limits q)) \<noteq> Inr True"
    and "unblocked q t" "task_id t \<notin> executing_tasks q" "dispatch C w clk p q = (r, q')"
  defines "t' \<equiv> t\<lparr>retry_after_time := clk 1 + nanos 60\<rparr>"
  shows "r = Rate_Limited t' \<and> worker_pools q' = worker_pools q \<and> executing_tasks q' = executing_tasks q \<and>
    mset (heap_of q p) = add_mset t (mset (heap_of q' p)) \<and>
    (\<forall>i. i \<noteq> task_id t \<longrightarrow> get_latest_task i (q_store q') = get_latest_task i (q_store q)) \<and>
    comes_back q' (if w 1 \<in> {Io_Ok, Rename_Fails} then t' else t)"
proof -
  define f where "f = snd (check_and_increment C (w 0) (clk 0) g limit (q_limits q))"
  have f: "rate_check C (w 0) (clk 0) t (q_limits q) = (False, f)"
    using assms(5-7) by (simp add: rate_check_def split_beta f_def)
  let ?q = "q\<lparr>shared_pqs := hm_insert p h (shared_pqs q), q_limits := f\<rparr>"
  let ?s = "snd (save_in C (w 1) t' ?q)"
  have r: "r = Rate_Limited t'" and q': "q' = ?s\<lparr>queued_tasks := queued_tasks ?s - {task_id t}\<rparr>"
    using assms(2,3,10) f by (simp_all add: dispatch_def t'_def Let_def)
  have live: "live_store (q_store q)" "hm_ok (tasks_cache (q_store q))" and def: "hm_contains (shared_pqs q) ''default''"
    using assms(1) by (auto simp: queue_typed_def pools_typed_def live_store_def hm_contains_get set_hm_keys)
  have "deleted_at t = None" using live(1) assms(4) by (auto simp: live_store_def)
  then have t': "deleted_at t' = None" "task_id t' = task_id t" by (simp_all add: t'_def)
  have g: "get_latest_task i (q_store q') =
      (if i = task_id t \<and> w 1 \<in> {Io_Ok, Rename_Fails} then Some t' else get_latest_task i (q_store q))" for i
    using save_in_any [of ?q t' i C "w 1"] live(2) t' by (auto simp: q')
  have live': "live_store (q_store q')"
    using dispatch_typed(1) [OF assms(1,10)] by (simp add: queue_typed_def)
  have u: "unblocked q' t" "unblocked q' t'" using assms(8) g by (auto simp: unblocked_def t'_def)
  have frame: "worker_pools q' = worker_pools q" "executing_tasks q' = executing_tasks q"
    "task_id t \<notin> queued_tasks q'" "hm_contains (shared_pqs q') ''default''" "heap_of q' p = h"
    using def by (simp_all add: q' save_in_frame heap_of_def)
  have "comes_back q' (if w 1 \<in> {Io_Ok, Rename_Fails} then t' else t)"
    by (rule comes_backI [OF live' frame(4)]) (use g u frame assms(4,9) in \<open>auto simp: t'_def\<close>)
  then show ?thesis using r frame g heap_pop_mset [OF assms(3)] by simp
qed

text \<open>The example task, in a group whose counters cannot be opened.\<close>

definition held_task :: rtask where
  "held_task = demo_task\<lparr>rate_limit_group := Some ''g'', max_per_minute := Some 5\<rparr>"

definition held_queue :: queue where
  "held_queue = demo_queue\<lparr>q_store := (empty_store None)\<lparr>tasks_cache := [(''a'', held_task)]\<rparr>,
     shared_pqs := [(''default'', [held_task])]\<rparr>"

lemma held_queue_typed: "queue_typed held_queue"
proof -
  have c: "dispatcher_counts demo_queue = [(''default'', 0)]"
    by (simp add: demo_queue_def new_with_pools_def add_pool_def hm_contains_def Let_def hm_insert_def)
  have t: "deleted_at held_task = None" "task_id held_task = ''a''"
    by (simp_all add: held_task_def demo_task_def task_new_def)
  show ?thesis
    by (auto simp: queue_typed_def pools_typed_def live_store_def held_queue_def demo_queue_simps c t hm_ok_def hm_keys_def
        hm_contains_def get_latest_task_def hm_get_def heap_of_def empty_store_def split: if_splits)
qed

lemma rate_limited_comes_back_witness:
  "\<exists>q'. dispatch demo_crates (\<lambda>n. if n = 0 then Open_Fails else Io_Ok) (\<lambda>n. 0) ''default'' held_queue =
       (Rate_Limited (held_task\<lparr>retry_after_time := nanos 60\<rparr>), q') \<and>
     comes_back q' (held_task\<lparr>retry_after_time := nanos 60\<rparr>)"
proof -
  let ?w = "\<lambda>n. if n = 0 then Open_Fails else Io_Ok"
  have t: "task_id held_task = ''a''" "rate_limit_group held_task = Some ''g''" "max_per_minute held_task = Some 5"
    "trigger_after_ids held_task = None"
    by (simp_all add: held_task_def demo_task_def task_new_def)
  have q: "hm_get (worker_pools held_queue) ''default'' = Some (Suc 1)"
    "heap_pop priority_le (heap_of held_queue ''default'') = Some (held_task, [])"
    "get_latest_task (task_id held_task) (q_store held_queue) = Some held_task"
    "unblocked held_queue held_task" "task_id held_task \<notin> executing_tasks held_queue"
    by (simp_all add: held_queue_def demo_queue_simps hm_get_def heap_of_def heap_pop_def get_latest_task_def t unblocked_def)
  have c: "fst (check_and_increment demo_crates (?w 0) 0 ''g'' 5 (q_limits held_queue)) \<noteq> Inr True"
    by (simp add: check_and_increment_def)
  obtain r q' where d: "dispatch demo_crates ?w (\<lambda>n. 0) ''default'' held_queue = (r, q')" by fastforce
  show ?thesis
    using rate_limited_comes_back [OF held_queue_typed q(1-3) t(2,3) c q(4,5) d] d by simp
qed

section \<open>Recurring tasks\<close>

text \<open>
  Property C11: A recurring task whose run succeeds is not completed but saved with the next tick of its schedule as its
  time, its failures forgotten, and the processor hands it out again from that tick on, also after a restart (the
  invariant of the store). It keeps its payload hash, no other task is touched, and the tasks that wait for it go
  on waiting: a recurring task releases no dependents, however often it succeeds.
\<close>

theorem recurring_task_comes_back:
  assumes "serde_ok C" "store_inv C (q_store q)" "f64_finite (retry_after_hours t)" "deleted_at t = None"
    and "webhook_url t \<noteq> None \<or> task_type t \<in> task_handlers q"
    and "cron_expression t = Some e" "first_tick C e (clk 0) = Some tick" "w 0 = Io_Ok"
    and "hm_contains (shared_pqs q) ''default''" "unblocked q t" "task_id t \<notin> queued_tasks q"
    and "execute_task C w clk mt (Inr ()) p t q = (calls, q')"
  defines "t' \<equiv> t\<lparr>execute_at := tick, retry_count := 0, last_error_obj := None, last_job_error := None\<rparr>"
  shows "store_inv C (q_store q') \<and>
    (\<forall>i. get_latest_task i (q_store q') = (if i = task_id t then Some t' else get_latest_task i (q_store q))) \<and>
    completed_tasks q' = completed_tasks q \<and> active_hashes q' = active_hashes q \<and>
    comes_back q' t' \<and> (\<forall>c. waits_for (task_id t) c \<longrightarrow> waits q' c)"
proof -
  have q': "q' = end_execution p t (snd (save_in C Io_Ok t' q))"
    using assms(5-8,12) by (auto simp: t'_def execute_task_def exec_success_def)
  have st: "q_store q' = snd (save_task_inner C Io_Ok t' True (q_store q))"
    by (simp add: q' save_in_def save_task_def split_beta)
  have inv: "store_inv C (q_store q')"
    unfolding st by (rule store_inv_save [OF assms(1,2)]) (use assms(3) in \<open>simp add: t'_def\<close>)
  have "hm_ok (tasks_cache (q_store q))" using live_store_inv [OF assms(2)] by (simp add: live_store_def)
  then have g: "get_latest_task i (q_store q') = (if i = task_id t then Some t' else get_latest_task i (q_store q))" for i
    using save_in_lookup [of q i C t'] assms(4) by (simp add: q' t'_def)
  have frame: "completed_tasks q' = completed_tasks q" "active_hashes q' = active_hashes q"
    "hm_contains (shared_pqs q') ''default''" "task_id t \<notin> executing_tasks q'" "task_id t \<notin> queued_tasks q'"
    using assms(9,11) by (simp_all add: q' end_execution_def release_permit_def save_in_frame)
  have "unblocked q' t'" using assms(10) g by (auto simp: unblocked_def t'_def)
  then have "comes_back q' t'"
    using comes_backI [OF live_store_inv [OF inv] frame(3), of t'] g frame by (simp add: t'_def)
  moreover have "waits q' c" if "waits_for (task_id t) c" for c
    using that g unfolding waits_live waits_for_def by (auto split: option.splits)
  ultimately show ?thesis using inv g frame(1,2) by blast
qed

lemma recurring_task_comes_back_witness:
  "\<exists>calls q'. execute_task demo_crates (\<lambda>n. Io_Ok) (\<lambda>n. 0) 0 (Inr ()) ''default''
       (demo_task\<lparr>cron_expression := Some ''0 * * * * *''\<rparr>) handler_queue = (calls, q') \<and>
     map_option execute_at (get_latest_task ''a'' (q_store q')) = Some (nanos 60)"
proof -
  let ?t = "demo_task\<lparr>cron_expression := Some ''0 * * * * *''\<rparr>"
  have q: "store_inv demo_crates (q_store handler_queue)" "hm_contains (shared_pqs handler_queue) ''default''"
    "task_id ?t \<notin> queued_tasks handler_queue"
    using store_inv_demo by (simp_all add: handler_queue_def demo_queue_simps hm_contains_def)
  have t: "f64_finite (retry_after_hours ?t)" "deleted_at ?t = None" "cron_expression ?t = Some ''0 * * * * *''"
    "webhook_url ?t \<noteq> None \<or> task_type ?t \<in> task_handlers handler_queue" "unblocked handler_queue ?t" "task_id ?t = ''a''"
    using demo_task_finite by (simp_all add: unblocked_def handler_queue_def) (simp_all add: demo_task_def task_new_def)
  have c: "first_tick demo_crates ''0 * * * * *'' 0 = Some (nanos 60)"
    by (simp add: first_tick_def demo_crates_def split_whitespace_def split_ws_from.simps flush_word_def head_ws_def ws_chars_def)
  obtain calls q' where e: "execute_task demo_crates (\<lambda>n. Io_Ok) (\<lambda>n. 0) 0 (Inr ()) ''default'' ?t handler_queue = (calls, q')"
    by fastforce
  show ?thesis
    using recurring_task_comes_back [OF serde_ok_demo q(1) t(1,2,4,3) c refl q(2) t(5) q(3) e] t(6) e by simp
qed

end
