(* ===== verification/Membership.thy ===== *)
theory Membership
  imports Demo_Crates
begin

text \<open>
  \<open>src/membership.rs\<close>: which daemon owns which shard.

  The state is the content of \<open>membership.json\<close> (\<^const>\<open>None\<close> while it does not exist). An
  operation holds \<open>.membership.lock\<close> from its read to its write, so it is one step. A new content is
  written to a temporary file and renamed into place: a fault leaves the old content. Times are
  readings of the calling daemon's own clock.
\<close>

section \<open>Data\<close>

record claim =
  owner :: string
  lease_expiry :: instant

record membership =
  ms_queue :: string
  ms_shards :: u32
  ms_version :: u64
  claims :: "(string, claim) hashmap"

datatype membership_error =
    Ms_Io io
  | NotInitialized
  | AlreadyInitialized
  | OwnedByOther string string
  | LeaseLost string
  | Corrupt

datatype claim_outcome = Claimed | Renewed | TakenOver string

definition lease_duration_secs :: int where
  "lease_duration_secs = 30"

definition default_skew_margin_secs :: int where
  "default_skew_margin_secs = 5"

definition shard_key :: "nat \<Rightarrow> string" where
  "shard_key index = ''shard-'' @ show_nat index"

definition owner_id :: "string option \<Rightarrow> string option \<Rightarrow> nat \<Rightarrow> string" where
  "owner_id hostname computername pid =
     (case hostname of Some h \<Rightarrow> h
      | None \<Rightarrow> (case computername of Some h \<Rightarrow> h | None \<Rightarrow> ''unknown-host'')) @
     ''@pid-'' @ show_nat pid"

definition is_lapsed :: "claim \<Rightarrow> instant \<Rightarrow> duration \<Rightarrow> bool" where
  "is_lapsed c now skew = (now > lease_expiry c + skew)"

text \<open>\<^const>\<open>None\<close>: \<open>Duration::seconds\<close> panics.\<close>

definition skew_margin_from :: "crates \<Rightarrow> string option \<Rightarrow> duration option" where
  "skew_margin_from C v =
     (let secs = (case Option.bind v parse_i64 of Some s \<Rightarrow> s | None \<Rightarrow> default_skew_margin_secs);
          secs = max secs 0
      in if secs_ok C secs then Some (nanos secs) else None)"

definition claimable_shards :: "membership \<Rightarrow> instant \<Rightarrow> duration \<Rightarrow> string \<Rightarrow> string list" where
  "claimable_shards m now skew me =
     filter (\<lambda>key. case hm_get (claims m) key of
        None \<Rightarrow> True
      | Some c \<Rightarrow> owner c = me \<or> is_lapsed c now skew)
     (map shard_key [0..<unat (ms_shards m)])"

section \<open>JSON form\<close>

definition claim_to_json :: "crates \<Rightarrow> claim \<Rightarrow> value" where
  "claim_to_json C c =
     JObj [(''owner'', JStr (owner c)), (''lease_expiry'', JStr (rfc3339 C (lease_expiry c)))]"

definition claim_of_json :: "crates \<Rightarrow> value \<Rightarrow> claim option" where
  "claim_of_json C j = do {
     f \<leftarrow> struct_fields [''owner'', ''lease_expiry''] j;
     ow \<leftarrow> req de_str (f ''owner'');
     e \<leftarrow> req (de_time C) (f ''lease_expiry'');
     Some \<lparr>owner = ow, lease_expiry = e\<rparr> }"

definition membership_to_json :: "crates \<Rightarrow> membership \<Rightarrow> value" where
  "membership_to_json C m =
     JObj [(''queue'', JStr (ms_queue m)), (''shards'', JInt (uint (ms_shards m))),
       (''version'', JInt (uint (ms_version m))), (''claims'', ser_map (claim_to_json C) (claims m))]"

text \<open>\<open>claims\<close> may be missing, also at the end of an array.\<close>

definition membership_of_json :: "crates \<Rightarrow> value \<Rightarrow> membership option" where
  "membership_of_json C j = do {
     f \<leftarrow> (case j of
        JArr [a, b, c] \<Rightarrow> struct_fields [''queue'', ''shards'', ''version''] j
      | _ \<Rightarrow> struct_fields [''queue'', ''shards'', ''version'', ''claims''] j);
     q \<leftarrow> req de_str (f ''queue'');
     n \<leftarrow> req de_u32 (f ''shards'');
     v \<leftarrow> req de_u64 (f ''version'');
     cs \<leftarrow> (case f ''claims'' of None \<Rightarrow> Some [] | Some c \<Rightarrow> de_map (claim_of_json C) c);
     Some \<lparr>ms_queue = q, ms_shards = n, ms_version = v, claims = cs\<rparr> }"

section \<open>File access\<close>

definition read_unlocked :: "crates \<Rightarrow> string option \<Rightarrow> membership_error + membership" where
  "read_unlocked C f =
     (case f of
        None \<Rightarrow> Inl NotInitialized
      | Some raw \<Rightarrow>
          if \<not> utf8_valid raw then Inl (Ms_Io Open_Fails)
          else (case Option.bind (json_of_text C raw) (membership_of_json C) of
                  None \<Rightarrow> Inl Corrupt
                | Some m \<Rightarrow> Inr m))"

definition write_unlocked ::
  "crates \<Rightarrow> io \<Rightarrow> membership \<Rightarrow> string option \<Rightarrow> (membership_error + unit) \<times> string option" where
  "write_unlocked C w m f =
     (if w \<noteq> Io_Ok then (Inl (Ms_Io w), f)
      else (Inr (), Some (json_pretty C (membership_to_json C m))))"

text \<open>\<open>with_lock\<close> fails when the lock file cannot be opened or locked.\<close>

definition with_lock ::
  "io \<Rightarrow> (string option \<Rightarrow> (membership_error + 'a) \<times> string option) \<Rightarrow> string option \<Rightarrow>
   (membership_error + 'a) \<times> string option" where
  "with_lock w op f = (if w = Open_Fails then (Inl (Ms_Io w), f) else op f)"

definition mutate ::
  "crates \<Rightarrow> io \<Rightarrow> (membership \<Rightarrow> membership_error + ('a \<times> membership)) \<Rightarrow> string option \<Rightarrow>
   (membership_error + 'a) \<times> string option" where
  "mutate C w step = with_lock w (\<lambda>f.
     case read_unlocked C f of
       Inl e \<Rightarrow> (Inl e, f)
     | Inr m \<Rightarrow>
         (case step m of
            Inl e \<Rightarrow> (Inl e, f)
          | Inr (out, m') \<Rightarrow>
              (case write_unlocked C w (m'\<lparr>ms_version := ms_version m' + 1\<rparr>) f of
                 (Inl e, f') \<Rightarrow> (Inl e, f')
               | (Inr _, f') \<Rightarrow> (Inr out, f'))))"

section \<open>Operations\<close>

definition init_unlocked ::
  "crates \<Rightarrow> io \<Rightarrow> string \<Rightarrow> u32 \<Rightarrow> string option \<Rightarrow> (membership_error + unit) \<times> string option" where
  "init_unlocked C w queue shards f =
     (if f \<noteq> None then (Inl AlreadyInitialized, f)
      else write_unlocked C w \<lparr>ms_queue = queue, ms_shards = shards, ms_version = 0, claims = []\<rparr> f)"

definition init ::
  "crates \<Rightarrow> io \<Rightarrow> string \<Rightarrow> u32 \<Rightarrow> string option \<Rightarrow> (membership_error + unit) \<times> string option" where
  "init C w queue shards = with_lock w (init_unlocked C w queue shards)"

definition load :: "crates \<Rightarrow> io \<Rightarrow> string option \<Rightarrow> (membership_error + membership) \<times> string option" where
  "load C w = with_lock w (\<lambda>f. (read_unlocked C f, f))"

definition put_claim :: "string \<Rightarrow> string \<Rightarrow> instant \<Rightarrow> membership \<Rightarrow> membership" where
  "put_claim shard me expiry m =
     m\<lparr>claims := hm_insert shard \<lparr>owner = me, lease_expiry = expiry\<rparr> (claims m)\<rparr>"

definition claim_step ::
  "string \<Rightarrow> string \<Rightarrow> instant \<Rightarrow> duration \<Rightarrow> membership \<Rightarrow>
   membership_error + (claim_outcome \<times> membership)" where
  "claim_step shard me now skew m =
     (let expiry = now + nanos lease_duration_secs in
      case hm_get (claims m) shard of
        None \<Rightarrow> Inr (Claimed, put_claim shard me expiry m)
      | Some c \<Rightarrow>
          if owner c = me then Inr (Renewed, put_claim shard me expiry m)
          else if is_lapsed c now skew then Inr (TakenOver (owner c), put_claim shard me expiry m)
          else Inl (OwnedByOther shard (owner c)))"

definition revert_step :: "string \<Rightarrow> string \<Rightarrow> membership \<Rightarrow> membership_error + (unit \<times> membership)" where
  "revert_step shard me m =
     (case hm_get (claims m) shard of
        Some c \<Rightarrow>
          if owner c = me then Inr ((), m\<lparr>claims := hm_remove shard (claims m)\<rparr>) else Inr ((), m)
      | None \<Rightarrow> Inr ((), m))"

definition renew_step ::
  "string \<Rightarrow> string \<Rightarrow> instant \<Rightarrow> membership \<Rightarrow> membership_error + (unit \<times> membership)" where
  "renew_step shard me now m =
     (let expiry = now + nanos lease_duration_secs in
      case hm_get (claims m) shard of
        Some c \<Rightarrow>
          if owner c = me
          then Inr ((), m\<lparr>claims := hm_insert shard (c\<lparr>lease_expiry := expiry\<rparr>) (claims m)\<rparr>)
          else Inl (LeaseLost shard)
      | None \<Rightarrow> Inl (LeaseLost shard))"

definition release_step :: "string \<Rightarrow> string \<Rightarrow> membership \<Rightarrow> membership_error + (unit \<times> membership)" where
  "release_step shard me m =
     (case hm_get (claims m) shard of
        Some c \<Rightarrow>
          if owner c = me then Inr ((), m\<lparr>claims := hm_remove shard (claims m)\<rparr>)
          else Inl (LeaseLost shard)
      | None \<Rightarrow> Inl (LeaseLost shard))"

definition claim_shard ::
  "crates \<Rightarrow> io \<Rightarrow> string \<Rightarrow> string \<Rightarrow> instant \<Rightarrow> duration \<Rightarrow> string option \<Rightarrow>
   (membership_error + claim_outcome) \<times> string option" where
  "claim_shard C w shard me now skew = mutate C w (claim_step shard me now skew)"

definition revert_claim ::
  "crates \<Rightarrow> io \<Rightarrow> string \<Rightarrow> string \<Rightarrow> string option \<Rightarrow> (membership_error + unit) \<times> string option" where
  "revert_claim C w shard me = mutate C w (revert_step shard me)"

definition renew ::
  "crates \<Rightarrow> io \<Rightarrow> string \<Rightarrow> string \<Rightarrow> instant \<Rightarrow> string option \<Rightarrow>
   (membership_error + unit) \<times> string option" where
  "renew C w shard me now = mutate C w (renew_step shard me now)"

definition release ::
  "crates \<Rightarrow> io \<Rightarrow> string \<Rightarrow> string \<Rightarrow> string option \<Rightarrow> (membership_error + unit) \<times> string option" where
  "release C w shard me = mutate C w (release_step shard me)"

section \<open>The file stands for the membership\<close>

definition ms_ok :: "membership \<Rightarrow> bool" where
  "ms_ok m = hm_ok (claims m)"

definition ms_file :: "crates \<Rightarrow> membership \<Rightarrow> string" where
  "ms_file C m = json_pretty C (membership_to_json C m)"

definition next_version :: "membership \<Rightarrow> membership" where
  "next_version m = m\<lparr>ms_version := ms_version m + 1\<rparr>"

lemma claim_roundtrip: "serde_ok C \<Longrightarrow> claim_of_json C (map_json f (claim_to_json C c)) = Some c"
  by (cases c) (simp add: claim_of_json_def claim_to_json_def struct_fields_def serde_okD)

lemma membership_roundtrip:
  assumes "serde_ok C" "ms_ok m"
  shows "membership_of_json C (map_json f (membership_to_json C m)) = Some m"
  using de_ser_map [of "claims m" "claim_of_json C" f "claim_to_json C"] assms
  by (cases m) (simp add: membership_of_json_def membership_to_json_def struct_fields_def
      claim_roundtrip ms_ok_def del: de_u32.simps de_u64.simps)

lemma read_ms_file: "serde_ok C \<Longrightarrow> ms_ok m \<Longrightarrow> read_unlocked C (Some (ms_file C m)) = Inr m"
  by (simp add: read_unlocked_def ms_file_def serde_okD membership_roundtrip)

lemma read_unlocked_ok: "read_unlocked C f = Inr m \<Longrightarrow> ms_ok m"
  by (auto simp: read_unlocked_def membership_of_json_def ms_ok_def bind_eq_Some_conv de_map_ok
      split: option.splits if_splits)

lemma mutate_fault:
  assumes "w \<noteq> Io_Ok"
  shows "snd (mutate C w step f) = f \<and> (is_ok (fst (mutate C w step f)) \<longleftrightarrow> False)"
  using assms by (auto simp: mutate_def with_lock_def write_unlocked_def split: sum.split prod.split)

section \<open>What every operation keeps\<close>

text \<open>A mutation of one shard's claim.\<close>

locale shard_mutation =
  fixes step :: "membership \<Rightarrow> membership_error + ('a \<times> membership)"
    and shard :: string
  assumes step_ok: "step m = Inr (out, m') \<Longrightarrow> ms_ok m \<Longrightarrow> ms_ok m'"
    and step_other: "step m = Inr (out, m') \<Longrightarrow> s \<noteq> shard \<Longrightarrow> hm_get (claims m') s = hm_get (claims m) s"
    and step_header: "step m = Inr (out, m') \<Longrightarrow>
      ms_queue m' = ms_queue m \<and> ms_shards m' = ms_shards m \<and> ms_version m' = ms_version m"
begin

text \<open>Through the file: the result is what the step says, and reading the file gives its state.\<close>

lemma mutate_reads:
  assumes "serde_ok C" "read_unlocked C f = Inr m" "step m = Inr (out, m')"
  shows "fst (mutate C Io_Ok step f) = Inr out"
    and "read_unlocked C (snd (mutate C Io_Ok step f)) = Inr (next_version m')"
proof -
  have ok: "ms_ok (next_version m')"
    using step_ok [OF assms(3) read_unlocked_ok [OF assms(2)]] by (simp add: ms_ok_def next_version_def)
  have e: "mutate C Io_Ok step f = (Inr out, Some (ms_file C (next_version m')))"
    using assms(2,3) by (simp add: mutate_def with_lock_def write_unlocked_def ms_file_def next_version_def)
  show "fst (mutate C Io_Ok step f) = Inr out" by (simp add: e)
  show "read_unlocked C (snd (mutate C Io_Ok step f)) = Inr (next_version m')"
    using read_ms_file [OF assms(1) ok] by (simp add: e)
qed

lemma mutate_error:
  "read_unlocked C f = Inr m \<Longrightarrow> step m = Inl e \<Longrightarrow> mutate C Io_Ok step f = (Inl e, f)"
  by (simp add: mutate_def with_lock_def)

end

interpretation claiming: shard_mutation "claim_step shard me now skew" shard for shard me now skew
  by unfold_locales
    (auto simp: claim_step_def Let_def put_claim_def ms_ok_def split: option.splits if_splits)

interpretation reverting: shard_mutation "revert_step shard me" shard for shard me
  by unfold_locales (auto simp: revert_step_def ms_ok_def split: option.splits if_splits)

interpretation renewing: shard_mutation "renew_step shard me now" shard for shard me now
  by unfold_locales (auto simp: renew_step_def Let_def ms_ok_def split: option.splits if_splits)

interpretation releasing: shard_mutation "release_step shard me" shard for shard me
  by unfold_locales (auto simp: release_step_def ms_ok_def split: option.splits if_splits)

lemma shard_key_inj: "shard_key i = shard_key j \<longleftrightarrow> i = j"
  by (auto simp: shard_key_def dest: show_nat_eq)

section \<open>Leases over time\<close>

text \<open>
  The daemons of one queue: the membership, the real time, and for each daemon and shard the
  expiry of the lease it was last given. Daemon \<open>d\<close>'s clock shows the real time plus \<open>off d\<close>.
\<close>

record lease_system =
  ls_members :: membership
  ls_time :: instant
  ls_lease :: "string \<Rightarrow> string \<Rightarrow> instant option"

definition set_lease ::
  "string \<Rightarrow> string \<Rightarrow> instant option \<Rightarrow> membership \<Rightarrow> lease_system \<Rightarrow> lease_system" where
  "set_lease d s e m S =
     S\<lparr>ls_members := next_version m, ls_lease := (ls_lease S)(d := (ls_lease S d)(s := e))\<rparr>"

inductive lease_step :: "(string \<Rightarrow> duration) \<Rightarrow> duration \<Rightarrow> lease_system \<Rightarrow> lease_system \<Rightarrow> bool"
  for off skew where
  tick: "ls_time S \<le> t \<Longrightarrow> lease_step off skew S (S\<lparr>ls_time := t\<rparr>)"
| claim: "claim_step s d (ls_time S + off d) skew (ls_members S) = Inr (out, m) \<Longrightarrow>
    lease_step off skew S (set_lease d s (Some (ls_time S + off d + nanos lease_duration_secs)) m S)"
| renew: "renew_step s d (ls_time S + off d) (ls_members S) = Inr ((), m) \<Longrightarrow>
    lease_step off skew S (set_lease d s (Some (ls_time S + off d + nanos lease_duration_secs)) m S)"
| lost: "renew_step s d (ls_time S + off d) (ls_members S) = Inl e \<Longrightarrow>
    lease_step off skew S (S\<lparr>ls_lease := (ls_lease S)(d := (ls_lease S d)(s := None))\<rparr>)"
| revert: "revert_step s d (ls_members S) = Inr ((), m) \<Longrightarrow>
    lease_step off skew S (set_lease d s None m S)"
| release: "release_step s d (ls_members S) = Inr ((), m) \<Longrightarrow>
    lease_step off skew S (set_lease d s None m S)"

inductive_cases lease_step_cases: "lease_step off skew S S'"

definition lease_start :: "string \<Rightarrow> u32 \<Rightarrow> instant \<Rightarrow> lease_system" where
  "lease_start q n t =
     \<lparr>ls_members = \<lparr>ms_queue = q, ms_shards = n, ms_version = 0, claims = []\<rparr>, ls_time = t,
      ls_lease = (\<lambda>d s. None)\<rparr>"

text \<open>A daemon holds a shard while the lease it was given runs, by its own clock.\<close>

definition holds :: "(string \<Rightarrow> duration) \<Rightarrow> lease_system \<Rightarrow> string \<Rightarrow> string \<Rightarrow> bool" where
  "holds off S d s = (case ls_lease S d s of Some e \<Rightarrow> ls_time S + off d \<le> e | None \<Rightarrow> False)"

definition lease_inv :: "(string \<Rightarrow> duration) \<Rightarrow> lease_system \<Rightarrow> bool" where
  "lease_inv off S \<longleftrightarrow>
     (\<forall>d s e. ls_lease S d s = Some e \<and> ls_time S + off d \<le> e \<longrightarrow>
        hm_get (claims (ls_members S)) s = Some \<lparr>owner = d, lease_expiry = e\<rparr>)"

lemma next_version_claims [simp]: "claims (next_version m) = claims m"
  by (simp add: next_version_def)

lemma lease_inv_set:
  assumes "lease_inv off S"
    and "\<And>s'. s' \<noteq> s \<Longrightarrow> hm_get (claims m) s' = hm_get (claims (ls_members S)) s'"
    and "\<And>d' e'. d' \<noteq> d \<Longrightarrow> ls_lease S d' s = Some e' \<Longrightarrow> ls_time S + off d' \<le> e' \<Longrightarrow>
      hm_get (claims (ls_members S)) s = Some \<lparr>owner = d', lease_expiry = e'\<rparr> \<Longrightarrow>
      hm_get (claims m) s = Some \<lparr>owner = d', lease_expiry = e'\<rparr>"
    and "\<And>e'. e = Some e' \<Longrightarrow> hm_get (claims m) s = Some \<lparr>owner = d, lease_expiry = e'\<rparr>"
  shows "lease_inv off (set_lease d s e m S)"
  unfolding lease_inv_def
proof (intro allI impI)
  fix d' s' e'
  assume h: "ls_lease (set_lease d s e m S) d' s' = Some e' \<and> ls_time (set_lease d s e m S) + off d' \<le> e'"
  show "hm_get (claims (ls_members (set_lease d s e m S))) s' = Some \<lparr>owner = d', lease_expiry = e'\<rparr>"
  proof (cases "d' = d \<and> s' = s")
    case True
    then show ?thesis using h assms(4) by (simp add: set_lease_def)
  next
    case False
    then have o: "ls_lease S d' s' = Some e'" "ls_time S + off d' \<le> e'"
      using h by (auto simp: set_lease_def split: if_splits)
    then have "hm_get (claims (ls_members S)) s' = Some \<lparr>owner = d', lease_expiry = e'\<rparr>"
      using assms(1) by (simp add: lease_inv_def)
    then show ?thesis using o False assms(2,3) by (cases "s' = s") (auto simp: set_lease_def)
  qed
qed

lemma lease_inv_step:
  assumes "lease_step off skew S S'" "lease_inv off S" and near: "\<And>a b. off b - off a \<le> skew"
  shows "lease_inv off S'"
  using assms(1)
proof cases
  case (tick t)
  then show ?thesis using assms(2) by (auto simp: lease_inv_def)
next
  case (claim s d out m)
  have "lease_inv off (set_lease d s (Some (ls_time S + off d + nanos lease_duration_secs)) m S)"
  proof (rule lease_inv_set [OF assms(2)])
    fix d' e'
    assume "d' \<noteq> d" "ls_time S + off d' \<le> e'"
      "hm_get (claims (ls_members S)) s = Some \<lparr>owner = d', lease_expiry = e'\<rparr>"
    then show "hm_get (claims m) s = Some \<lparr>owner = d', lease_expiry = e'\<rparr>"
      using claim(2) near [of d d'] by (auto simp: claim_step_def is_lapsed_def split: if_splits)
  qed (use claim(2) claiming.step_other [OF claim(2)] in
      \<open>auto simp: claim_step_def Let_def put_claim_def split: option.splits if_splits\<close>)
  then show ?thesis by (simp add: claim)
next
  case (renew s d m)
  have "lease_inv off (set_lease d s (Some (ls_time S + off d + nanos lease_duration_secs)) m S)"
    by (rule lease_inv_set [OF assms(2)])
      (use renew(2) renewing.step_other [OF renew(2)] in
        \<open>auto simp: renew_step_def Let_def split: option.splits if_splits\<close>)
  then show ?thesis by (simp add: renew)
next
  case (lost s d e)
  then show ?thesis using assms(2) by (auto simp: lease_inv_def)
next
  case (revert s d m)
  have "lease_inv off (set_lease d s None m S)"
    by (rule lease_inv_set [OF assms(2)])
      (use revert(2) reverting.step_other [OF revert(2)] in
        \<open>auto simp: revert_step_def split: option.splits if_splits\<close>)
  then show ?thesis by (simp add: revert)
next
  case (release s d m)
  have "lease_inv off (set_lease d s None m S)"
    by (rule lease_inv_set [OF assms(2)])
      (use release(2) releasing.step_other [OF release(2)] in
        \<open>auto simp: release_step_def split: option.splits if_splits\<close>)
  then show ?thesis by (simp add: release)
qed

lemma lease_inv_reachable:
  assumes "(lease_step off skew)\<^sup>*\<^sup>* (lease_start q n t) S" "\<And>a b. off b - off a \<le> skew"
  shows "lease_inv off S"
  using assms(1)
proof (induction rule: rtranclp_induct)
  case base
  then show ?case by (simp add: lease_inv_def lease_start_def)
next
  case (step S S')
  then show ?case using lease_inv_step assms(2) by blast
qed

section \<open>Properties\<close>

text \<open>
  Property C24: a claim of a shard that is free, or whose lease has run out by more than the margin,
  or that is the caller's own gives the caller a lease of 30 seconds from its clock; what another
  daemon holds is refused. Only this shard's entry changes, and the version goes up by one
  exactly if the claim succeeds; a refused claim leaves the file as it is.
\<close>

theorem claim_shard_exact:
  assumes "serde_ok C" "read_unlocked C f = Inr m"
  shows "case claim_shard C Io_Ok s me now skew f of
      (Inr out, f') \<Rightarrow>
        out = (case hm_get (claims m) s of
                 None \<Rightarrow> Claimed
               | Some c \<Rightarrow> if owner c = me then Renewed else TakenOver (owner c)) \<and>
        (\<forall>c. hm_get (claims m) s = Some c \<longrightarrow> owner c = me \<or> lease_expiry c + skew < now) \<and>
        (\<exists>m'. read_unlocked C f' = Inr m' \<and>
          hm_get (claims m') = (hm_get (claims m))(s \<mapsto> \<lparr>owner = me, lease_expiry = now + nanos 30\<rparr>) \<and>
          ms_version m' = ms_version m + 1 \<and> ms_shards m' = ms_shards m \<and> ms_queue m' = ms_queue m)
    | (Inl e, f') \<Rightarrow>
        f' = f \<and> (\<exists>c. hm_get (claims m) s = Some c \<and> e = OwnedByOther s (owner c) \<and>
          owner c \<noteq> me \<and> now \<le> lease_expiry c + skew)"
proof (cases "claim_step s me now skew m")
  case (Inl e)
  then show ?thesis
    using claiming.mutate_error [OF assms(2) Inl]
    by (auto simp: claim_shard_def claim_step_def Let_def is_lapsed_def split: option.splits if_splits)
next
  case (Inr p)
  obtain out m' where st: "claim_step s me now skew m = Inr (out, m')" using Inr by (cases p) auto
  note r = claiming.mutate_reads [OF assms st]
  obtain f' where f': "claim_shard C Io_Ok s me now skew f = (Inr out, f')" "read_unlocked C f' = Inr (next_version m')"
    using r by (cases "claim_shard C Io_Ok s me now skew f") (simp add: claim_shard_def)
  have "hm_get (claims m') = (hm_get (claims m))(s \<mapsto> \<lparr>owner = me, lease_expiry = now + nanos 30\<rparr>)"
    using st by (auto simp: claim_step_def Let_def put_claim_def lease_duration_secs_def fun_eq_iff
        split: option.splits if_splits)
  then show ?thesis
    using st claiming.step_header [OF st] unfolding f'(1) prod.case sum.case f'(2)
    by (auto simp: claim_step_def Let_def is_lapsed_def next_version_def split: option.splits if_splits)
qed

definition demo_members :: membership where
  "demo_members = \<lparr>ms_queue = ''q'', ms_shards = 2, ms_version = 4,
     claims = [(''shard-0'', \<lparr>owner = ''a'', lease_expiry = 100\<rparr>)]\<rparr>"

lemma read_demo: "read_unlocked demo_crates (Some (ms_file demo_crates demo_members)) = Inr demo_members"
  by (rule read_ms_file [OF serde_ok_demo]) (simp add: ms_ok_def demo_members_def hm_ok_def)

lemma claim_shard_exact_witness:
  "case claim_shard demo_crates Io_Ok ''shard-0'' ''b'' 106 5 (Some (ms_file demo_crates demo_members)) of
     (Inr out, f') \<Rightarrow> out = TakenOver ''a'' | (Inl e, f') \<Rightarrow> False"
  using claim_shard_exact [OF serde_ok_demo read_demo, of "''shard-0''" "''b''" 106 5]
  by (auto simp: demo_members_def hm_get_def split: prod.splits sum.splits)

text \<open>
  A shard of the queue is listed as claimable exactly if claiming it now would
  succeed, and the list has no repetitions.
\<close>

lemma claimable_shards_exact:
  assumes "serde_ok C" "read_unlocked C f = Inr m"
  shows "distinct (claimable_shards m now skew me) \<and>
    (s \<in> set (claimable_shards m now skew me) \<longleftrightarrow>
      (\<exists>i. i < unat (ms_shards m) \<and> s = shard_key i) \<and> is_ok (fst (claim_shard C Io_Ok s me now skew f)))"
proof -
  have "is_ok (fst (claim_shard C Io_Ok s me now skew f)) \<longleftrightarrow> is_ok (claim_step s me now skew m)"
  proof (cases "claim_step s me now skew m")
    case (Inl e)
    then show ?thesis using claiming.mutate_error [OF assms(2) Inl] by (simp add: claim_shard_def)
  next
    case (Inr p)
    then show ?thesis
      using claiming.mutate_reads(1) [OF assms, of s me now skew "fst p" "snd p"] by (simp add: claim_shard_def)
  qed
  moreover have "inj shard_key" by (simp add: inj_def shard_key_inj)
  ultimately show ?thesis
    by (auto simp: claimable_shards_def distinct_map inj_on_subset [of shard_key UNIV] claim_step_def Let_def
        split: option.splits if_splits)
qed

lemma claimable_shards_exact_example:
  "is_ok (fst (claim_shard demo_crates Io_Ok ''shard-1'' ''b'' 100 5 (Some (ms_file demo_crates demo_members)))) \<and>
   \<not> is_ok (fst (claim_shard demo_crates Io_Ok ''shard-0'' ''b'' 105 5 (Some (ms_file demo_crates demo_members))))"
proof -
  have k: "shard_key 0 = ''shard-0''" "shard_key (Suc 0) = ''shard-1''"
    by (simp_all add: shard_key_def show_nat.simps digit_char_def char_of_def bit_0)
  have "''shard-1'' \<in> set (claimable_shards demo_members 100 5 ''b'')"
    "''shard-0'' \<notin> set (claimable_shards demo_members 105 5 ''b'')"
    by (simp_all add: claimable_shards_def demo_members_def upt_rec k hm_get_def is_lapsed_def)
  moreover have "\<exists>i. i < unat (ms_shards demo_members) \<and> ''shard-0'' = shard_key i"
    by (intro exI [of _ 0]) (simp add: k demo_members_def)
  ultimately show ?thesis
    using claimable_shards_exact [OF serde_ok_demo read_demo] by blast
qed

text \<open>
  Property C25: renewing and releasing succeed exactly for the daemon that owns the claim, and
  fail with a lost lease without touching the file for any other; rolling a claim back never
  removes another daemon's claim.
\<close>

theorem owner_operations_exact:
  fixes s me :: string
  assumes "serde_ok C" "read_unlocked C f = Inr m"
  defines "mine \<equiv> (\<exists>c. hm_get (claims m) s = Some c \<and> owner c = me)"
  shows "(if mine
      then (\<exists>f' m'. renew C Io_Ok s me now f = (Inr (), f') \<and> read_unlocked C f' = Inr m' \<and>
             hm_get (claims m') = (hm_get (claims m))(s \<mapsto> \<lparr>owner = me, lease_expiry = now + nanos 30\<rparr>)) \<and>
           (\<exists>f' m'. release C Io_Ok s me f = (Inr (), f') \<and> read_unlocked C f' = Inr m' \<and>
             hm_get (claims m') = (hm_get (claims m))(s := None))
      else renew C Io_Ok s me now f = (Inl (LeaseLost s), f) \<and>
           release C Io_Ok s me f = (Inl (LeaseLost s), f)) \<and>
    (\<exists>f' m'. revert_claim C Io_Ok s me f = (Inr (), f') \<and> read_unlocked C f' = Inr m' \<and>
      hm_get (claims m') = (if mine then (hm_get (claims m))(s := None) else hm_get (claims m)))"
proof -
  have run: "\<exists>f' m''. mutate C Io_Ok step f = (Inr (), f') \<and> read_unlocked C f' = Inr m'' \<and>
      hm_get (claims m'') = g"
    if "fst (mutate C Io_Ok step f) = Inr ()" "read_unlocked C (snd (mutate C Io_Ok step f)) = Inr (next_version m')"
      "hm_get (claims m') = g" for step m' g
    using that by (intro exI [of _ "snd (mutate C Io_Ok step f)"] exI [of _ "next_version m'"])
      (simp add: prod_eq_iff)
  define rm where "rm = (if mine then m\<lparr>claims := hm_remove s (claims m)\<rparr> else m)"
  have rv: "revert_step s me m = Inr ((), rm)"
      "hm_get (claims rm) = (if mine then (hm_get (claims m))(s := None) else hm_get (claims m))"
    by (auto simp: revert_step_def mine_def rm_def hm_get_remove_fun split: option.splits)
  note revert = run [OF reverting.mutate_reads [OF assms(1,2) rv(1)] rv(2), folded revert_claim_def]
  show ?thesis
  proof (cases mine)
    case True
    then obtain c where c: "hm_get (claims m) s = Some c" "owner c = me" by (auto simp: mine_def)
    have st: "renew_step s me now m = Inr ((), m\<lparr>claims := hm_insert s (c\<lparr>lease_expiry := now + nanos 30\<rparr>) (claims m)\<rparr>)"
      "release_step s me m = Inr ((), m\<lparr>claims := hm_remove s (claims m)\<rparr>)"
      using c by (simp_all add: renew_step_def release_step_def Let_def lease_duration_secs_def)
    have "c\<lparr>lease_expiry := now + nanos 30\<rparr> = \<lparr>owner = me, lease_expiry = now + nanos 30\<rparr>"
      using c by (cases c) simp
    then show ?thesis
      using True revert run [OF renewing.mutate_reads [OF assms(1,2) st(1)], folded renew_def]
        run [OF releasing.mutate_reads [OF assms(1,2) st(2)], folded release_def]
      by (simp add: hm_get_insert_fun hm_get_remove_fun)
  next
    case False
    then have "renew_step s me now m = Inl (LeaseLost s)" "release_step s me m = Inl (LeaseLost s)"
      by (auto simp: mine_def renew_step_def release_step_def Let_def split: option.splits)
    then show ?thesis
      using False revert renewing.mutate_error [OF assms(2)] releasing.mutate_error [OF assms(2)]
      by (simp add: renew_def release_def)
  qed
qed

lemma owner_operations_exact_witness:
  "renew demo_crates Io_Ok ''shard-0'' ''b'' 50 (Some (ms_file demo_crates demo_members)) =
   (Inl (LeaseLost ''shard-0''), Some (ms_file demo_crates demo_members))"
  using owner_operations_exact [OF serde_ok_demo read_demo, of "''shard-0''" "''b''" 50]
  by (simp add: demo_members_def hm_get_def)

text \<open>
  Property C8: as long as no two clocks differ by more than the margin, at no time do two daemons
  hold a running lease on the same shard, whatever they claim, renew, lose, roll back and
  release, in whatever order.
\<close>

theorem lease_exclusive:
  assumes "(lease_step off skew)\<^sup>*\<^sup>* (lease_start q n t) S" "\<And>a b. off b - off a \<le> skew"
    and "holds off S a s" "holds off S b s"
  shows "a = b"
proof -
  have "hm_get (claims (ls_members S)) s = Some \<lparr>owner = d, lease_expiry = the (ls_lease S d s)\<rparr>"
    if "holds off S d s" for d
    using lease_inv_reachable [OF assms(1,2)] that by (auto simp: lease_inv_def holds_def split: option.splits)
  from this [OF assms(3)] this [OF assms(4)] show ?thesis by simp
qed

definition demo_taken :: "lease_system" where
  "demo_taken = set_lease ''b'' ''s'' (Some (nanos 40 + nanos 30))
     \<lparr>ms_queue = ''q'', ms_shards = 1, ms_version = 1, claims = [(''s'', \<lparr>owner = ''b'', lease_expiry = nanos 40 + nanos 30\<rparr>)]\<rparr>
     (set_lease ''a'' ''s'' (Some (nanos 30))
       \<lparr>ms_queue = ''q'', ms_shards = 1, ms_version = 0, claims = [(''s'', \<lparr>owner = ''a'', lease_expiry = nanos 30\<rparr>)]\<rparr>
       (lease_start ''q'' 1 0)\<lparr>ls_time := nanos 40\<rparr>)"

lemma lease_exclusive_witness:
  "holds (\<lambda>d. 0) demo_taken ''b'' ''s'' \<and> \<not> holds (\<lambda>d. 0) demo_taken ''a'' ''s''"
proof -
  let ?off = "\<lambda>d::string. 0::int" and ?S0 = "lease_start ''q'' 1 0"
  let ?m1 = "\<lparr>ms_queue = ''q'', ms_shards = 1, ms_version = 0, claims = [(''s'', \<lparr>owner = ''a'', lease_expiry = nanos 30\<rparr>)]\<rparr>"
  let ?S1 = "set_lease ''a'' ''s'' (Some (nanos 30)) ?m1 ?S0"
  let ?m2 = "\<lparr>ms_queue = ''q'', ms_shards = 1, ms_version = 1, claims = [(''s'', \<lparr>owner = ''b'', lease_expiry = nanos 40 + nanos 30\<rparr>)]\<rparr>"
  have "claim_step ''s'' ''a'' (ls_time ?S0 + ?off ''a'') (nanos 5) (ls_members ?S0) = Inr (Claimed, ?m1)"
    by (simp add: claim_step_def lease_start_def put_claim_def lease_duration_secs_def Let_def hm_insert_def)
  from lease_step.claim [OF this] have 1: "lease_step ?off (nanos 5) ?S0 ?S1"
    by (simp add: lease_start_def lease_duration_secs_def)
  have 2: "lease_step ?off (nanos 5) ?S1 (?S1\<lparr>ls_time := nanos 40\<rparr>)"
    by (rule lease_step.tick) (simp add: set_lease_def lease_start_def nanos_def)
  have "claim_step ''s'' ''b'' (ls_time (?S1\<lparr>ls_time := nanos 40\<rparr>) + ?off ''b'') (nanos 5)
      (ls_members (?S1\<lparr>ls_time := nanos 40\<rparr>)) = Inr (TakenOver ''a'', ?m2)"
    by (simp add: claim_step_def set_lease_def next_version_def put_claim_def lease_duration_secs_def Let_def
        hm_insert_def hm_get_def is_lapsed_def nanos_def)
  from lease_step.claim [OF this] have 3: "lease_step ?off (nanos 5) (?S1\<lparr>ls_time := nanos 40\<rparr>) demo_taken"
    by (simp add: demo_taken_def lease_duration_secs_def set_lease_def lease_start_def)
  have r: "(lease_step ?off (nanos 5))\<^sup>*\<^sup>* ?S0 demo_taken" using 1 2 3 by auto
  have b: "holds ?off demo_taken ''b'' ''s''"
    by (simp add: holds_def demo_taken_def set_lease_def nanos_def)
  then show ?thesis using lease_exclusive [OF r _ _ b, of "''a''"] by (auto simp: nanos_def)
qed



end
