(* ===== verification/Sharding.thy ===== *)
theory Sharding
  imports Membership File_Store
begin

text \<open>
  \<open>src/sharding.rs\<close>: what a queue directory is at boot, the adoption of a legacy directory, routing
  and the lock file of a shard.

  The state is the part of the directory that the code looks at. Whether the emptied directory
  \<open>tasks\<close> is removed after an adoption is left open: nothing reads it. A lock file has its text and
  whether some open handle holds its \<open>flock\<close>, which follows the file when it is renamed. A boot
  that dies in the middle leaves the state of the boot whose next call fails.
\<close>

section \<open>The directory\<close>

record lock_file =
  lf_text :: string
  lf_held :: bool

record shard_files =
  sf_log :: "string option"
  sf_lock :: "lock_file option"
  sf_queue_lock :: bool

record queue_dir =
  qd_members :: "string option"
  qd_log :: "string option"
  qd_lock :: "lock_file option"
  qd_queue_lock :: bool
  qd_limits :: "string option"
  qd_shards :: "(string, shard_files) hashmap"

text \<open>
  \<open>qd_members\<close> is \<open>membership.json\<close>, \<open>qd_log\<close> the legacy \<open>tasks/tasks.log\<close>, \<open>qd_lock\<close> the legacy
  \<open>.lock\<close>, and \<open>qd_shards\<close> the directories of shards with their \<open>tasks/tasks.log\<close> and
  \<open>.lock\<close>. \<open>qd_limits\<close> is \<open>rate_limits.json\<close>: there is one for the whole directory, since
  \<open>RateLimiter::new\<close> puts that name in the place of the last part of the path it gets (\<open>rate_limiter_new\<close>).
  \<open>qd_queue_lock\<close> and \<open>sf_queue_lock\<close> say whether a running \<open>SnerdQueue\<close> (\<open>src/queue.rs\<close>) holds the
  lock on \<open>tasks.log.lock\<close> beside the log.
\<close>

datatype storage_layout = Sharded | Legacy | Fresh

definition detect_layout :: "queue_dir \<Rightarrow> storage_layout" where
  "detect_layout d =
     (if qd_members d \<noteq> None then Sharded else if qd_log d \<noteq> None then Legacy else Fresh)"

definition empty_shard :: shard_files where
  "empty_shard = \<lparr>sf_log = None, sf_lock = None, sf_queue_lock = False\<rparr>"

definition shard_dir :: "string \<Rightarrow> queue_dir \<Rightarrow> shard_files" where
  "shard_dir s d = (case hm_get (qd_shards d) s of Some x \<Rightarrow> x | None \<Rightarrow> empty_shard)"

definition put_shard :: "string \<Rightarrow> shard_files \<Rightarrow> queue_dir \<Rightarrow> queue_dir" where
  "put_shard s x d = d\<lparr>qd_shards := hm_insert s x (qd_shards d)\<rparr>"

lemma shard_dir_put [simp]: "shard_dir s (put_shard s' x d) = (if s = s' then x else shard_dir s d)"
  by (simp add: shard_dir_def put_shard_def)

lemma shard_dir_limits [simp]: "shard_dir s (d\<lparr>qd_limits := f\<rparr>) = shard_dir s d"
  by (simp add: shard_dir_def)

lemma put_shard_simps [simp]:
  "qd_members (put_shard s x d) = qd_members d" "qd_log (put_shard s x d) = qd_log d"
  "qd_lock (put_shard s x d) = qd_lock d" "qd_queue_lock (put_shard s x d) = qd_queue_lock d"
  "qd_limits (put_shard s x d) = qd_limits d"
  by (simp_all add: put_shard_def)

lemma shard_dir_update [simp]:
  "shard_dir s (d\<lparr>qd_members := f\<rparr>) = shard_dir s d"
  "shard_dir s (d\<lparr>qd_log := g\<rparr>) = shard_dir s d"
  "shard_dir s (d\<lparr>qd_lock := l\<rparr>) = shard_dir s d"
  "shard_dir s (d\<lparr>qd_queue_lock := b\<rparr>) = shard_dir s d"
  by (simp_all add: shard_dir_def)

section \<open>Routing\<close>

definition fnv_step :: "u64 \<Rightarrow> char \<Rightarrow> u64" where
  "fnv_step hash b = xor hash (of_char b) * 0x100000001b3"

definition fnv1a64 :: "string \<Rightarrow> u64" where
  "fnv1a64 data = foldl fnv_step 0xcbf29ce484222325 data"

text \<open>\<^const>\<open>None\<close>: the assertion fails.\<close>

definition route_shard :: "string \<Rightarrow> string list \<Rightarrow> string option" where
  "route_shard tid owned =
     (if owned = [] then None
      else Some (owned ! unat (fnv1a64 tid mod word_of_nat (length owned))))"

section \<open>Adopting a legacy directory\<close>

datatype dir_call = Open_Probe | Create_Shard | Move_Log | Move_Lock

datatype boot_error = Dir_Error dir_call | Other_Daemon | Members membership_error

definition lock_taken :: "lock_file option \<Rightarrow> bool" where
  "lock_taken l = (case l of None \<Rightarrow> False | Some f \<Rightarrow> lf_held f)"

text \<open>\<open>fault\<close> is the call that the operating system refuses, if any.\<close>

definition migrate_legacy_unlocked ::
  "dir_call option \<Rightarrow> queue_dir \<Rightarrow> (boot_error + unit) \<times> queue_dir" where
  "migrate_legacy_unlocked fault d =
     (if qd_lock d \<noteq> None \<and> fault = Some Open_Probe then (Inl (Dir_Error Open_Probe), d)
      else if lock_taken (qd_lock d) then (Inl Other_Daemon, d)
      else if fault = Some Create_Shard then (Inl (Dir_Error Create_Shard), d)
      else
        let s0 = shard_key 0;
            d1 = put_shard s0 (shard_dir s0 d) d
        in case (if fault = Some Move_Log then None else qd_log d1) of
             None \<Rightarrow> (Inl (Dir_Error Move_Log), d1)
           | Some bytes \<Rightarrow>
               let d2 = put_shard s0 ((shard_dir s0 d1)\<lparr>sf_log := Some bytes\<rparr>) (d1\<lparr>qd_log := None\<rparr>)
               in case qd_lock d2 of
                    None \<Rightarrow> (Inr (), d2)
                  | Some l \<Rightarrow>
                      if fault = Some Move_Lock then (Inl (Dir_Error Move_Lock), d2)
                      else (Inr (), put_shard s0 ((shard_dir s0 d2)\<lparr>sf_lock := Some l\<rparr>)
                                      (d2\<lparr>qd_lock := None\<rparr>)))"

section \<open>Boot\<close>

definition load_count :: "crates \<Rightarrow> string option \<Rightarrow> boot_error + u32" where
  "load_count C f = (case read_unlocked C f of Inl e \<Rightarrow> Inl (Members e) | Inr m \<Rightarrow> Inr (ms_shards m))"

text \<open>\<^const>\<open>None\<close>: \<open>.membership.lock\<close> cannot be locked, and \<open>with_lock_held\<close> panics.\<close>

definition with_lock_held ::
  "io \<Rightarrow> (queue_dir \<Rightarrow> (boot_error + 'a) \<times> queue_dir) \<Rightarrow> queue_dir \<Rightarrow>
   (boot_error + 'a) option \<times> queue_dir" where
  "with_lock_held w op d =
     (if w = Open_Fails then (None, d) else (case op d of (r, d') \<Rightarrow> (Some r, d')))"

definition init_members ::
  "crates \<Rightarrow> io \<Rightarrow> string \<Rightarrow> u32 \<Rightarrow> queue_dir \<Rightarrow> (boot_error + unit) \<times> queue_dir" where
  "init_members C w queue n d =
     (case init_unlocked C w queue n (qd_members d) of
        (Inl e, f) \<Rightarrow> (Inl (Members e), d\<lparr>qd_members := f\<rparr>)
      | (Inr u, f) \<Rightarrow> (Inr u, d\<lparr>qd_members := f\<rparr>))"

definition adopt_legacy ::
  "crates \<Rightarrow> dir_call option \<Rightarrow> io \<Rightarrow> string \<Rightarrow> queue_dir \<Rightarrow> (boot_error + u32) \<times> queue_dir" where
  "adopt_legacy C fault w queue d =
     (if qd_members d \<noteq> None then (load_count C (qd_members d), d)
      else case migrate_legacy_unlocked fault d of
             (Inl e, d') \<Rightarrow> (Inl e, d')
           | (Inr _, d') \<Rightarrow>
               (case init_members C w queue 1 d' of
                  (Inl e, d'') \<Rightarrow> (Inl e, d'')
                | (Inr _, d'') \<Rightarrow> (Inr 1, d'')))"

definition init_fresh ::
  "crates \<Rightarrow> io \<Rightarrow> string \<Rightarrow> u32 \<Rightarrow> queue_dir \<Rightarrow> (boot_error + u32) \<times> queue_dir" where
  "init_fresh C w queue n d =
     (if qd_members d \<noteq> None then (load_count C (qd_members d), d)
      else case init_members C w queue n d of
             (Inl e, d') \<Rightarrow> (Inl e, d')
           | (Inr _, d') \<Rightarrow> (load_count C (qd_members d'), d'))"

text \<open>
  \<open>layout\<close> was read before the lock is taken: another daemon may have changed the directory since.
\<close>

definition boot_with ::
  "crates \<Rightarrow> dir_call option \<Rightarrow> io \<Rightarrow> string \<Rightarrow> u32 \<Rightarrow> storage_layout \<Rightarrow> queue_dir \<Rightarrow>
   (boot_error + u32) option \<times> queue_dir" where
  "boot_with C fault w queue requested layout d =
     (case layout of
        Sharded \<Rightarrow>
          (Some (case fst (load C w (qd_members d)) of
                   Inl e \<Rightarrow> Inl (Members e) | Inr m \<Rightarrow> Inr (ms_shards m)), d)
      | Legacy \<Rightarrow> with_lock_held w (adopt_legacy C fault w queue) d
      | Fresh \<Rightarrow> with_lock_held w (init_fresh C w queue requested) d)"

definition resolve_layout ::
  "crates \<Rightarrow> dir_call option \<Rightarrow> io \<Rightarrow> string \<Rightarrow> u32 \<Rightarrow> queue_dir \<Rightarrow>
   (boot_error + u32) option \<times> queue_dir" where
  "resolve_layout C fault w queue requested d =
     boot_with C fault w queue requested (detect_layout d) d"

section \<open>The lock of a shard\<close>

datatype lock_error = Lock_Io

text \<open>
  \<^term>\<open>Inr True\<close> is a lock (\<open>Some(ShardLock)\<close>), held until the value is dropped; the result \<open>None\<close>
  of the code is \<^term>\<open>Inr False\<close>.
\<close>

definition try_lock_shard ::
  "io \<Rightarrow> string \<Rightarrow> string \<Rightarrow> queue_dir \<Rightarrow> (lock_error + bool) \<times> queue_dir" where
  "try_lock_shard w pid s d =
     (if w = Dir_Fails then (Inl Lock_Io, d)
      else
        let d1 = put_shard s (shard_dir s d) d in
        if w = Open_Fails then (Inl Lock_Io, d1)
        else
          case sf_lock (shard_dir s d1) of
            Some l \<Rightarrow>
              if lf_held l then (Inr False, d1)
              else (Inr True, put_shard s ((shard_dir s d1)\<lparr>sf_lock := Some \<lparr>lf_text = pid, lf_held = True\<rparr>\<rparr>) d1)
          | None \<Rightarrow>
              (Inr True, put_shard s ((shard_dir s d1)\<lparr>sf_lock := Some \<lparr>lf_text = pid, lf_held = True\<rparr>\<rparr>) d1))"

definition drop_lock :: "string \<Rightarrow> queue_dir \<Rightarrow> queue_dir" where
  "drop_lock s d =
     put_shard s ((shard_dir s d)\<lparr>sf_lock := map_option (\<lambda>l. l\<lparr>lf_held := False\<rparr>) (sf_lock (shard_dir s d))\<rparr>) d"

section \<open>The routing hash\<close>

lemma fnv_prime_unit: "(0x100000001b3 :: u64) * 14886173955864302971 = 1"
  by simp

lemma fnv_step_inj: "fnv_step g a = fnv_step h a \<longleftrightarrow> g = h"
proof
  assume "fnv_step g a = fnv_step h a"
  then have "xor g (of_char a) * (0x100000001b3 * 14886173955864302971) = xor h (of_char a) * (0x100000001b3 * 14886173955864302971)"
    unfolding fnv_step_def mult.assoc [symmetric] by (rule arg_cong)
  then have "xor (xor g (of_char a)) (of_char a) = xor (xor h (of_char a)) (of_char a)"
    by (simp only: fnv_prime_unit mult_1_right)
  then show "g = h" by (simp add: xor.assoc)
qed simp

lemma of_char_u64_inj: "of_char a = (of_char b :: u64) \<longleftrightarrow> a = b"
proof
  have n: "of_char c < (2 :: nat) ^ 64" for c :: char
    by (rule less_trans [OF nat_of_char_less_256]) simp
  assume "of_char a = (of_char b :: u64)"
  then have "(of_nat (of_char a :: nat) :: u64) = of_nat (of_char b :: nat)" by (simp only: of_nat_of_char)
  then have "(of_char a :: nat) mod 2 ^ 64 = of_char b mod 2 ^ 64"
    by (simp only: of_nat_eq_iff word_of_nat_eq_iff take_bit_eq_mod) simp
  then show "a = b" using n by simp
qed simp

lemma fnv_step_byte_inj: "fnv_step h a = fnv_step h b \<longleftrightarrow> a = b"
proof
  assume "fnv_step h a = fnv_step h b"
  then have "xor h (of_char a) * (0x100000001b3 * 14886173955864302971) = xor h (of_char b) * (0x100000001b3 * 14886173955864302971)"
    unfolding fnv_step_def mult.assoc [symmetric] by (rule arg_cong)
  then have "xor h (xor h (of_char a)) = xor h (xor h (of_char b))"
    by (simp only: fnv_prime_unit mult_1_right)
  then have "(of_char a :: u64) = of_char b" by (simp add: xor.assoc [symmetric])
  then show "a = b" by (simp add: of_char_u64_inj)
qed simp

lemma foldl_fnv_inj: "foldl fnv_step g s = foldl fnv_step h s \<longleftrightarrow> g = h"
  by (induction s arbitrary: g h) (simp_all add: fnv_step_inj)

text \<open>
  FNV-1a, the routing hash, never confuses two task ids that differ in a single byte,
  wherever that byte stands: every step of the loop is a bijection of the 64-bit state, since the
  prime is invertible modulo 2^64, and distinct bytes give distinct states. The wrap-around of
  \<open>wrapping_mul\<close> is what makes this hold. On the empty id, ''a'' and ''foobar'' it has the
  published values that \<open>fnv1a_known_vectors\<close> tests.
\<close>

lemma fnv1a64_single_byte:
  "(fnv1a64 (p @ a # s) = fnv1a64 (p @ b # s) \<longleftrightarrow> a = b) \<and>
   fnv1a64 [] = 0xcbf29ce484222325 \<and> fnv1a64 ''a'' = 0xaf63dc4c8601ec8c \<and>
   fnv1a64 ''foobar'' = 0x85944171f73967e8"
  unfolding fnv1a64_def foldl_append foldl_Cons foldl_fnv_inj fnv_step_byte_inj
  by (simp add: fnv_step_def)

section \<open>Where an id is routed\<close>

lemma route_shard_nth:
  assumes "owned \<noteq> []" "length owned < 2 ^ 64"
  shows "route_shard tid owned = Some (owned ! (unat (fnv1a64 tid) mod length owned))"
proof -
  have "unat (word_of_nat (length owned) :: u64) = length owned"
    using assms(2) by (simp add: unat_of_nat take_bit_eq_mod)
  then show ?thesis using assms(1) by (simp add: route_shard_def unat_mod_distrib)
qed

lemma mset_rotate: "mset (rotate k xs) = mset xs"
proof -
  have "mset (rotate k xs) = mset (take (k mod length xs) xs @ drop (k mod length xs) xs)"
    by (simp only: rotate_drop_take mset_append add.commute)
  then show ?thesis by (simp only: append_take_drop_id)
qed

lemma route_any_order:
  assumes "s \<in> set owned" "length owned < 2 ^ 64"
  shows "\<exists>owned'. mset owned' = mset owned \<and> route_shard tid owned' = Some s"
proof -
  let ?n = "length owned" and ?i = "unat (fnv1a64 tid) mod length owned"
  obtain j where j: "j < ?n" "owned ! j = s" using assms(1) by (auto simp: in_set_conv_nth)
  then have i: "?i < ?n" by (intro mod_less_divisor) linarith
  let ?k = "j + (?n - ?i)"
  have "(?k + ?i) mod ?n = j" using i j(1) by simp
  then have "rotate ?k owned ! ?i = s" using i j by (simp add: nth_rotate)
  moreover have "owned \<noteq> []" using j(1) by auto
  ultimately show ?thesis
    using assms(2) route_shard_nth [of "rotate ?k owned" tid] by (intro exI [of _ "rotate ?k owned"]) (simp add: mset_rotate)
qed

section \<open>Adoption\<close>

abbreviation shard0 :: string where
  "shard0 \<equiv> shard_key 0"

definition fresh_members :: "string \<Rightarrow> u32 \<Rightarrow> membership" where
  "fresh_members queue n = \<lparr>ms_queue = queue, ms_shards = n, ms_version = 0, claims = []\<rparr>"

text \<open>What a finished adoption leaves behind.\<close>

definition adopted :: "queue_dir \<Rightarrow> string \<Rightarrow> queue_dir \<Rightarrow> bool" where
  "adopted d b d' \<longleftrightarrow>
     qd_log d' = None \<and> sf_log (shard_dir shard0 d') = Some b \<and>
     qd_lock d' = None \<and>
     sf_lock (shard_dir shard0 d') =
       (case qd_lock d of None \<Rightarrow> sf_lock (shard_dir shard0 d) | Some l \<Rightarrow> Some l) \<and>
     (\<forall>s. s \<noteq> shard0 \<longrightarrow> shard_dir s d' = shard_dir s d)"

lemma init_members_ok:
  assumes "serde_ok C" "qd_members d = None" "init_members C Io_Ok queue n d = (r, d')"
  shows "r = Inr ()" "d' = d\<lparr>qd_members := Some (ms_file C (fresh_members queue n))\<rparr>"
    "read_unlocked C (qd_members d') = Inr (fresh_members queue n)"
proof -
  have e: "init_members C Io_Ok queue n d
      = (Inr (), d\<lparr>qd_members := Some (ms_file C (fresh_members queue n))\<rparr>)"
    using assms(2)
    by (simp add: init_members_def init_unlocked_def write_unlocked_def ms_file_def fresh_members_def)
  show "r = Inr ()" "d' = d\<lparr>qd_members := Some (ms_file C (fresh_members queue n))\<rparr>"
    using assms(3) e by simp_all
  moreover have "ms_ok (fresh_members queue n)" by (simp add: ms_ok_def fresh_members_def)
  ultimately show "read_unlocked C (qd_members d') = Inr (fresh_members queue n)"
    using read_ms_file [OF assms(1)] by simp
qed

lemma init_members_fault:
  "w \<noteq> Io_Ok \<Longrightarrow> qd_members d = None \<Longrightarrow> init_members C w queue n d = (Inl (Members (Ms_Io w)), d)"
  by (cases d) (simp add: init_members_def init_unlocked_def write_unlocked_def)

lemma migrate_ok:
  assumes "qd_log d = Some b" "\<not> lock_taken (qd_lock d)"
  obtains d' where "migrate_legacy_unlocked None d = (Inr (), d')" "adopted d b d'"
    "qd_members d' = qd_members d" "qd_queue_lock d' = qd_queue_lock d"
proof -
  have "\<exists>d'. migrate_legacy_unlocked None d = (Inr (), d') \<and> adopted d b d' \<and>
      qd_members d' = qd_members d \<and> qd_queue_lock d' = qd_queue_lock d"
    using assms by (cases "qd_lock d") (simp_all add: migrate_legacy_unlocked_def Let_def adopted_def)
  with that show ?thesis by blast
qed

text \<open>The log is in exactly one place, and the boot that failed can be repeated.\<close>

definition log_in_one_place :: "string \<Rightarrow> queue_dir \<Rightarrow> bool" where
  "log_in_one_place b d \<longleftrightarrow>
     (qd_log d = Some b \<and> sf_log (shard_dir shard0 d) = None \<or>
      qd_log d = None \<and> sf_log (shard_dir shard0 d) = Some b)"

lemma migrate_keeps_log:
  assumes "qd_log d = Some b" "sf_log (shard_dir shard0 d) = None" "\<not> lock_taken (qd_lock d)"
    "migrate_legacy_unlocked fault d = (r, d')"
  shows "log_in_one_place b d'" "\<not> lock_taken (qd_lock d')" "qd_members d' = qd_members d"
proof -
  have n: "\<not> lock_taken None" by (simp add: lock_taken_def)
  show "log_in_one_place b d'" "\<not> lock_taken (qd_lock d')" "qd_members d' = qd_members d"
    using assms n by (auto simp: migrate_legacy_unlocked_def Let_def log_in_one_place_def
        split: if_splits option.splits)
qed

section \<open>Boot\<close>

lemma detect_cases:
  "detect_layout d = Sharded \<longleftrightarrow> qd_members d \<noteq> None"
  "detect_layout d = Legacy \<longleftrightarrow> qd_members d = None \<and> qd_log d \<noteq> None"
  "detect_layout d = Fresh \<longleftrightarrow> qd_members d = None \<and> qd_log d = None"
  by (auto simp: detect_layout_def)

lemma read_unlocked_exists: "read_unlocked C f = Inr m \<Longrightarrow> \<exists>raw. f = Some raw"
  by (cases f) (simp_all add: read_unlocked_def)

lemma resolve_sharded:
  "qd_members d = Some f \<Longrightarrow> w \<noteq> Open_Fails \<Longrightarrow>
   resolve_layout C fault w queue n d = (Some (load_count C (Some f)), d)"
  by (simp add: resolve_layout_def boot_with_def detect_layout_def load_def with_lock_def load_count_def
      split: sum.split)

lemma resolve_legacy_unfold:
  "qd_members d = None \<Longrightarrow> qd_log d \<noteq> None \<Longrightarrow> w \<noteq> Open_Fails \<Longrightarrow>
   resolve_layout C fault w queue n d =
     (case adopt_legacy C fault w queue d of (r, d') \<Rightarrow> (Some r, d'))"
  by (simp add: resolve_layout_def boot_with_def detect_layout_def with_lock_held_def)

lemma resolve_held:
  assumes "qd_members d = None" "qd_log d \<noteq> None" "lock_taken (qd_lock d)"
  shows "resolve_layout C None Io_Ok queue n d = (Some (Inl Other_Daemon), d)"
  using assms
  by (simp add: resolve_legacy_unfold adopt_legacy_def migrate_legacy_unlocked_def)

lemma resolve_legacy:
  assumes "serde_ok C" "qd_members d = None" "qd_log d = Some b" "\<not> lock_taken (qd_lock d)"
  obtains d' where "resolve_layout C None Io_Ok queue n d = (Some (Inr 1), d')" "adopted d b d'"
    "read_unlocked C (qd_members d') = Inr (fresh_members queue 1)" "qd_queue_lock d' = qd_queue_lock d"
proof -
  obtain d1 where m: "migrate_legacy_unlocked None d = (Inr (), d1)" "adopted d b d1"
    "qd_members d1 = qd_members d" "qd_queue_lock d1 = qd_queue_lock d"
    using migrate_ok [OF assms(3,4)] by blast
  obtain r d' where i: "init_members C Io_Ok queue 1 d1 = (r, d')" by fastforce
  have n1: "qd_members d1 = None" using m(3) assms(2) by simp
  note k = init_members_ok [OF assms(1) n1 i]
  have "adopted d b d'" using m(2) k(2) by (simp add: adopted_def)
  moreover have "resolve_layout C None Io_Ok queue n d = (Some (Inr 1), d')"
    using assms(2,3) m(1) i k(1) by (simp add: resolve_legacy_unfold adopt_legacy_def)
  ultimately show ?thesis using that k(2,3) m(4) by simp
qed

lemma resolve_fresh:
  assumes "serde_ok C" "qd_members d = None" "qd_log d = None"
  shows "\<exists>d'. resolve_layout C None Io_Ok queue n d = (Some (Inr n), d') \<and>
    d' = d\<lparr>qd_members := Some (ms_file C (fresh_members queue n))\<rparr> \<and>
    read_unlocked C (qd_members d') = Inr (fresh_members queue n)"
proof -
  obtain r d' where i: "init_members C Io_Ok queue n d = (r, d')" by fastforce
  note k = init_members_ok [OF assms(1,2) i]
  have "resolve_layout C None Io_Ok queue n d = (Some (Inr n), d')"
    using assms(2,3) i k(1,3)
    by (simp add: resolve_layout_def boot_with_def detect_layout_def with_lock_held_def init_fresh_def
        load_count_def fresh_members_def)
  with k show ?thesis by blast
qed

text \<open>
  Property C14: A boot on a healthy directory does what the head of \<open>sharding.rs\<close> says. With a
  \<open>membership.json\<close> the file's shard count is the result, whatever was requested, and nothing
  changes. A legacy directory whose \<open>.lock\<close> is held is refused and left alone; otherwise its log
  moves, byte for byte, into \<open>shard-0\<close>, its \<open>.lock\<close> with it, no other shard is touched and a
  membership of one shard without claims is created. An empty directory is initialized with the
  requested count. After any successful boot, every later boot, whatever it requests, returns the
  same count and changes nothing.
\<close>

theorem resolve_layout_exact:
  assumes "serde_ok C"
  shows "(\<forall>f. qd_members d = Some f \<longrightarrow>
           resolve_layout C None Io_Ok queue n d = (Some (load_count C (Some f)), d)) \<and>
    (qd_members d = None \<and> qd_log d \<noteq> None \<and> lock_taken (qd_lock d) \<longrightarrow>
           resolve_layout C None Io_Ok queue n d = (Some (Inl Other_Daemon), d)) \<and>
    (\<forall>b. qd_members d = None \<and> qd_log d = Some b \<and> \<not> lock_taken (qd_lock d) \<longrightarrow>
           (\<exists>d'. resolve_layout C None Io_Ok queue n d = (Some (Inr 1), d') \<and> adopted d b d' \<and>
                read_unlocked C (qd_members d') = Inr (fresh_members queue 1))) \<and>
    (qd_members d = None \<and> qd_log d = None \<longrightarrow>
           (\<exists>d'. resolve_layout C None Io_Ok queue n d = (Some (Inr n), d') \<and>
                qd_shards d' = qd_shards d \<and> qd_lock d' = qd_lock d \<and>
                read_unlocked C (qd_members d') = Inr (fresh_members queue n))) \<and>
    (\<forall>k d'. resolve_layout C None Io_Ok queue n d = (Some (Inr k), d') \<longrightarrow>
           resolve_layout C None Io_Ok queue' n' d' = (Some (Inr k), d'))"
    (is "?sharded \<and> ?held \<and> ?legacy \<and> ?fresh \<and> ?again")
proof (intro conjI)
  show ?sharded by (simp add: resolve_sharded)
  show ?held by (simp add: resolve_held)
  show legacy: ?legacy using resolve_legacy [OF assms] by metis
  show ?fresh using resolve_fresh [OF assms, of d queue n] by auto
  show ?again
  proof (intro allI impI)
    fix k d'
    assume r: "resolve_layout C None Io_Ok queue n d = (Some (Inr k), d')"
    have "load_count C (qd_members d') = Inr k \<and> qd_members d' \<noteq> None"
    proof (cases "detect_layout d")
      case Sharded
      then show ?thesis using r by (auto simp: detect_cases resolve_sharded)
    next
      case Legacy
      then show ?thesis
        using r resolve_held [of d C queue n] legacy
        by (cases "lock_taken (qd_lock d)")
          (auto simp: detect_cases load_count_def fresh_members_def dest: read_unlocked_exists)
    next
      case Fresh
      then show ?thesis
        using r resolve_fresh [OF assms, of d queue n]
        by (auto simp: detect_cases load_count_def fresh_members_def)
    qed
    then show "resolve_layout C None Io_Ok queue' n' d' = (Some (Inr k), d')"
      by (auto simp: resolve_sharded)
  qed
qed

text \<open>A queue directory of a legacy daemon, for the witnesses.\<close>

definition demo_legacy :: "bool \<Rightarrow> queue_dir" where
  "demo_legacy running =
     \<lparr>qd_members = None, qd_log = Some ''old'', qd_lock = Some \<lparr>lf_text = ''1234'', lf_held = False\<rparr>,
      qd_queue_lock = running, qd_limits = None, qd_shards = []\<rparr>"

lemma demo_legacy_simps [simp]:
  "qd_members (demo_legacy b) = None" "qd_log (demo_legacy b) = Some ''old''"
  "\<not> lock_taken (qd_lock (demo_legacy b))" "sf_log (shard_dir s (demo_legacy b)) = None"
  "qd_queue_lock (demo_legacy b) = b"
  by (simp_all add: demo_legacy_def lock_taken_def shard_dir_def empty_shard_def)

lemma resolve_layout_exact_witness:
  "\<exists>d'. resolve_layout demo_crates None Io_Ok ''q'' 4 (demo_legacy False) = (Some (Inr 1), d') \<and>
     sf_log (shard_dir shard0 d') = Some ''old''"
proof -
  have "\<exists>d'. resolve_layout demo_crates None Io_Ok ''q'' 4 (demo_legacy False) = (Some (Inr 1), d') \<and>
      adopted (demo_legacy False) ''old'' d'"
    using resolve_layout_exact [OF serde_ok_demo, THEN conjunct2, THEN conjunct2, THEN conjunct1,
        of "demo_legacy False" "''q''" 4, THEN spec [of _ "''old''"]] by auto
  then show ?thesis by (auto simp: adopted_def)
qed

lemma resolve_again_legacy:
  assumes "qd_members d = None" "log_in_one_place b d" "\<not> lock_taken (qd_lock d)" "serde_ok C"
  shows "\<exists>k d'. resolve_layout C None Io_Ok queue n d = (Some (Inr k), d') \<and> (k = 1 \<or> k = n) \<and>
    qd_log d' = None \<and> sf_log (shard_dir shard0 d') = Some b"
proof (cases "qd_log d")
  case None
  then obtain d' where "resolve_layout C None Io_Ok queue n d = (Some (Inr n), d')"
      "d' = d\<lparr>qd_members := Some (ms_file C (fresh_members queue n))\<rparr>"
    using resolve_fresh [OF assms(4,1)] by blast
  then show ?thesis using assms(2) None by (simp add: log_in_one_place_def)
next
  case (Some b')
  then have "b' = b" using assms(2) by (auto simp: log_in_one_place_def)
  then obtain d' where "resolve_layout C None Io_Ok queue n d = (Some (Inr 1), d')" "adopted d b d'"
    using resolve_legacy [OF assms(4,1) Some assms(3)] by metis
  then show ?thesis by (simp add: adopted_def)
qed

text \<open>
  Property C15: The adoption of a legacy directory survives a fault at any of its calls, and a crash
  between any two of them, without losing the log: after the interrupted boot the log's bytes are
  in exactly one place, under \<open>tasks\<close> or in \<open>shard-0\<close>, and a later undisturbed boot succeeds with the
  bytes in \<open>shard-0\<close>. The shard count is then 1, or the requested one if the interruption fell between the move and
  the creation of \<open>membership.json\<close> (the directory then looks fresh).
\<close>

theorem adoption_survives_faults:
  assumes "serde_ok C" "qd_members d = None" "qd_log d = Some b"
    and "sf_log (shard_dir shard0 d) = None" "\<not> lock_taken (qd_lock d)"
    and "resolve_layout C fault w queue n d = (r, d1)"
  shows "log_in_one_place b d1 \<and>
    (\<exists>k d2. resolve_layout C None Io_Ok queue n d1 = (Some (Inr k), d2) \<and> (k = 1 \<or> k = n) \<and>
       qd_log d2 = None \<and> sf_log (shard_dir shard0 d2) = Some b)"
proof (cases "w = Open_Fails")
  case True
  then have "d1 = d"
    using assms(2,3,6)
    by (simp add: resolve_layout_def boot_with_def detect_layout_def with_lock_held_def)
  moreover have "log_in_one_place b d" using assms(3,4) by (simp add: log_in_one_place_def)
  ultimately show ?thesis using resolve_again_legacy assms(1,2,5) by blast
next
  case False
  obtain rm dm where m: "migrate_legacy_unlocked fault d = (rm, dm)" by fastforce
  note k = migrate_keeps_log [OF assms(3-5) m]
  have n: "qd_members dm = None" using k(3) assms(2) by simp
  have again: ?thesis if "d1 = dm" using that resolve_again_legacy [OF n k(1,2) assms(1)] k(1) by blast
  have a: "adopt_legacy C fault w queue d = (the r, d1)"
    using assms(2,3,6) False by (auto simp: resolve_legacy_unfold split: prod.splits)
  show ?thesis
  proof (cases rm)
    case (Inl e)
    then show ?thesis using a m assms(2) again by (simp add: adopt_legacy_def)
  next
    case (Inr u)
    show ?thesis
    proof (cases "w = Io_Ok")
      case True
      obtain ri di where i: "init_members C Io_Ok queue 1 dm = (ri, di)" by fastforce
      note j = init_members_ok [OF assms(1) n i]
      have "d1 = di" using a m Inr assms(2) i j(1) True by (simp add: adopt_legacy_def)
      moreover have "qd_log dm = None" "sf_log (shard_dir shard0 dm) = Some b"
        using m Inr k(1) assms(3) by (auto simp: migrate_legacy_unlocked_def Let_def log_in_one_place_def
            split: if_splits option.splits)
      moreover obtain f where "qd_members di = Some f" using j(2) by simp
      ultimately show ?thesis
        using j(2,3) by (simp add: log_in_one_place_def resolve_sharded load_count_def fresh_members_def)
    next
      case False
      have "d1 = dm" using a m Inr assms(2) init_members_fault [OF False n] by (simp add: adopt_legacy_def)
      then show ?thesis by (rule again)
    qed
  qed
qed

lemma adoption_survives_faults_witness:
  "\<exists>r d1 k d2. resolve_layout demo_crates None Rename_Fails ''q'' 4 (demo_legacy False) = (r, d1) \<and>
    r = Some (Inl (Members (Ms_Io Rename_Fails))) \<and>
    resolve_layout demo_crates None Io_Ok ''q'' 4 d1 = (Some (Inr k), d2) \<and>
    sf_log (shard_dir shard0 d2) = Some ''old''"
proof -
  obtain r d1 where r: "resolve_layout demo_crates None Rename_Fails ''q'' 4 (demo_legacy False) = (r, d1)"
    by fastforce
  then have "r = Some (Inl (Members (Ms_Io Rename_Fails)))"
    by (auto simp: resolve_legacy_unfold adopt_legacy_def migrate_legacy_unlocked_def Let_def
        init_members_fault demo_legacy_def lock_taken_def)
  moreover obtain k d2 where "resolve_layout demo_crates None Io_Ok ''q'' 4 d1 = (Some (Inr k), d2)"
      "sf_log (shard_dir shard0 d2) = Some ''old''"
    using adoption_survives_faults [OF serde_ok_demo _ _ _ _ r] by auto
  ultimately show ?thesis using r by blast
qed

section \<open>A queue that still runs on the legacy directory\<close>

text \<open>
  A running \<open>SnerdQueue\<close> on \<open>tasks/tasks.log\<close> saves a task: its store opens the path anew.
\<close>

definition save_at_legacy_path :: "crates \<Rightarrow> rtask \<Rightarrow> file_store \<Rightarrow> queue_dir \<Rightarrow> (io_error + bool) \<times> queue_dir" where
  "save_at_legacy_path C t s d =
     (case save_task C Io_Ok t (s\<lparr>log_file := qd_log d\<rparr>) of (r, s') \<Rightarrow> (r, d\<lparr>qd_log := log_file s'\<rparr>))"

lemma save_at_legacy_path_none:
  assumes "qd_log d = None"
  obtains ok where "save_at_legacy_path C t s d = (Inr ok, d\<lparr>qd_log := Some (task_line C t @ [newline])\<rparr>)"
proof -
  let ?r = "save_task_inner C Io_Ok t True (s\<lparr>log_file := None\<rparr>)"
  have "log_file (snd ?r) = Some (task_line C t @ [newline])" "\<exists>ok. fst ?r = Inr ok"
    by (simp_all add: save_task_ok Let_def file_bytes_def)
  then have "\<exists>ok. save_at_legacy_path C t s d = (Inr ok, d\<lparr>qd_log := Some (task_line C t @ [newline])\<rparr>)"
    using assms by (auto simp: save_at_legacy_path_def save_task_def split: prod.split)
  with that show ?thesis by blast
qed

text \<open>
  Property C38: The adoption is not fenced against a \<open>SnerdQueue\<close> that still runs on the legacy
  directory: the probe looks at \<open>.lock\<close>, which no \<open>SnerdQueue\<close> takes (it locks \<open>tasks.log.lock\<close>). After
  a successful adoption that queue's saves succeed, but go to a new \<open>tasks/tasks.log\<close> that every later boot ignores.
  If the creation of \<open>membership.json\<close> failed, the next boot takes that new file for the legacy
  log and renames it over the log in \<open>shard-0\<close>: every task of the adopted log is lost.
\<close>

theorem running_queue_not_fenced:
  assumes "serde_ok C" "qd_members d = None" "qd_log d = Some b" "\<not> lock_taken (qd_lock d)"
    and "qd_queue_lock d" "w \<noteq> Io_Ok" "w \<noteq> Open_Fails"
  shows "(\<exists>d1 ok d2. resolve_layout C None Io_Ok queue n d = (Some (Inr 1), d1) \<and> qd_queue_lock d1 \<and>
       save_at_legacy_path C t s d1 = (Inr ok, d2) \<and> qd_log d2 = Some (task_line C t @ [newline]) \<and>
       resolve_layout C None Io_Ok queue n d2 = (Some (Inr 1), d2) \<and>
       sf_log (shard_dir shard0 d2) = Some b) \<and>
    (\<exists>d1 ok d2 d3. resolve_layout C None w queue n d = (Some (Inl (Members (Ms_Io w))), d1) \<and>
       sf_log (shard_dir shard0 d1) = Some b \<and> save_at_legacy_path C t s d1 = (Inr ok, d2) \<and>
       resolve_layout C None Io_Ok queue n d2 = (Some (Inr 1), d3) \<and> qd_log d3 = None \<and>
       sf_log (shard_dir shard0 d3) = Some (task_line C t @ [newline]))"
proof
  obtain d1 where r: "resolve_layout C None Io_Ok queue n d = (Some (Inr 1), d1)" "adopted d b d1"
    "read_unlocked C (qd_members d1) = Inr (fresh_members queue 1)" "qd_queue_lock d1 = qd_queue_lock d"
    using resolve_legacy [OF assms(1-4)] .
  have none: "qd_log d1 = None" using r(2) by (simp add: adopted_def)
  obtain ok where s: "save_at_legacy_path C t s d1 = (Inr ok, d1\<lparr>qd_log := Some (task_line C t @ [newline])\<rparr>)"
    using save_at_legacy_path_none [OF none] .
  obtain f where f: "qd_members d1 = Some f" using read_unlocked_exists [OF r(3)] by blast
  have "resolve_layout C None Io_Ok queue n (d1\<lparr>qd_log := Some (task_line C t @ [newline])\<rparr>)
      = (Some (Inr 1), d1\<lparr>qd_log := Some (task_line C t @ [newline])\<rparr>)"
    using r(3) f by (simp add: resolve_sharded load_count_def fresh_members_def)
  then show "\<exists>d1 ok d2. resolve_layout C None Io_Ok queue n d = (Some (Inr 1), d1) \<and> qd_queue_lock d1 \<and>
       save_at_legacy_path C t s d1 = (Inr ok, d2) \<and> qd_log d2 = Some (task_line C t @ [newline]) \<and>
       resolve_layout C None Io_Ok queue n d2 = (Some (Inr 1), d2) \<and>
       sf_log (shard_dir shard0 d2) = Some b"
    using r s assms(5) by (intro exI conjI) (auto simp: adopted_def)
next
  obtain d1 where m: "migrate_legacy_unlocked None d = (Inr (), d1)" "adopted d b d1"
    "qd_members d1 = qd_members d"
    using migrate_ok [OF assms(3,4)] by blast
  have none: "qd_log d1 = None" "qd_members d1 = None" "\<not> lock_taken (qd_lock d1)"
    using m(2,3) assms(2) by (simp_all add: adopted_def lock_taken_def)
  have r: "resolve_layout C None w queue n d = (Some (Inl (Members (Ms_Io w))), d1)"
    using assms(2,3,7) m(1) init_members_fault [OF assms(6) none(2)]
    by (simp add: resolve_legacy_unfold adopt_legacy_def)
  obtain ok where s: "save_at_legacy_path C t s d1 = (Inr ok, d1\<lparr>qd_log := Some (task_line C t @ [newline])\<rparr>)"
    using save_at_legacy_path_none [OF none(1)] .
  obtain d3 where d3: "resolve_layout C None Io_Ok queue n (d1\<lparr>qd_log := Some (task_line C t @ [newline])\<rparr>)
      = (Some (Inr 1), d3)"
    "adopted (d1\<lparr>qd_log := Some (task_line C t @ [newline])\<rparr>) (task_line C t @ [newline]) d3"
    using resolve_legacy [OF assms(1), of "d1\<lparr>qd_log := Some (task_line C t @ [newline])\<rparr>"
        "task_line C t @ [newline]" queue n] none(2,3) by auto
  show "\<exists>d1 ok d2 d3. resolve_layout C None w queue n d = (Some (Inl (Members (Ms_Io w))), d1) \<and>
       sf_log (shard_dir shard0 d1) = Some b \<and> save_at_legacy_path C t s d1 = (Inr ok, d2) \<and>
       resolve_layout C None Io_Ok queue n d2 = (Some (Inr 1), d3) \<and> qd_log d3 = None \<and>
       sf_log (shard_dir shard0 d3) = Some (task_line C t @ [newline])"
    using r s d3 m(2) by (intro exI conjI) (auto simp: adopted_def)
qed

lemma running_queue_not_fenced_witness:
  "\<exists>d1 ok d2 d3. resolve_layout demo_crates None Rename_Fails ''q'' 1 (demo_legacy True)
      = (Some (Inl (Members (Ms_Io Rename_Fails))), d1) \<and>
     sf_log (shard_dir shard0 d1) = Some ''old'' \<and>
     save_at_legacy_path demo_crates demo_task demo_store d1 = (Inr ok, d2) \<and>
     resolve_layout demo_crates None Io_Ok ''q'' 1 d2 = (Some (Inr 1), d3) \<and>
     sf_log (shard_dir shard0 d3) = Some (task_line demo_crates demo_task @ [newline])"
  using running_queue_not_fenced [OF serde_ok_demo, of "demo_legacy True" "''old''" Rename_Fails "''q''" 1
      demo_task demo_store, THEN conjunct2] by fastforce

text \<open>
  With at least one owned shard an id is routed to the shard at position
  \<open>fnv1a64 mod length\<close> of the given list, so always to an owned one and always to the same for the same list; with
  none it panics. The result depends on the order of the list: for every id and every owned shard
  there is an order of the same shards that routes the id there.
\<close>

lemma route_shard_exact:
  assumes "owned \<noteq> []" "length owned < 2 ^ 64"
  shows "route_shard tid owned = Some (owned ! (unat (fnv1a64 tid) mod length owned)) \<and>
    owned ! (unat (fnv1a64 tid) mod length owned) \<in> set owned \<and> route_shard tid [] = None \<and>
    (\<forall>s \<in> set owned. \<exists>owned'. mset owned' = mset owned \<and> route_shard tid owned' = Some s)"
  using assms route_shard_nth [OF assms] route_any_order [OF _ assms(2)]
  by (simp add: route_shard_def)

lemma route_shard_exact_example:
  "\<exists>owned. mset owned = mset [''shard-0'', ''shard-1''] \<and> route_shard ''task-1'' owned = Some ''shard-0''"
  using route_shard_exact [of "[''shard-0'', ''shard-1'']" "''task-1''"] by simp

end
