(* ===== verification/Dashboard.thy ===== *)
theory Dashboard
  imports Queue
begin

text \<open>
  \<open>src/dashboard.rs\<close>: the dashboard's view of the task logs, the ring of progress events and the
  HTTP answers. A log is its content (\<^const>\<open>None\<close>: it cannot be opened), a request is what one read
  of the connection returned, and the answer is what is written. Threads, sockets and the broadcast
  channel are outside; the feeder is a step per received message.
\<close>

section \<open>Parsed lines\<close>

text \<open>\<open>serde_json::Value\<close>: an object keeps the last of equal keys and is sorted by key.\<close>

fun to_value :: "value \<Rightarrow> value" where
  "to_value (JArr xs) = JArr (map to_value xs)"
| "to_value (JObj kvs) =
     (let m = rev (map (\<lambda>(k, v). (k, to_value v)) kvs)
      in JObj (map (\<lambda>k. (k, the (map_of m k))) (remdups (sort (map fst kvs)))))"
| "to_value j = j"

fun value_str :: "value option \<Rightarrow> string option" where
  "value_str (Some (JStr s)) = Some s"
| "value_str _ = None"

fun value_i64 :: "value option \<Rightarrow> int option" where
  "value_i64 (Some (JInt i)) = (if - (2 ^ 63) \<le> i \<and> i < 2 ^ 63 then Some i else None)"
| "value_i64 _ = None"

definition or_int :: "int option \<Rightarrow> int" where
  "or_int v = (case v of Some i \<Rightarrow> i | None \<Rightarrow> 0)"

definition read_line :: "crates \<Rightarrow> (string, value) hashmap \<Rightarrow> string \<Rightarrow> (string, value) hashmap" where
  "read_line C m line =
     (if blank_line line then m
      else case map_option to_value (json_of_text C line) of
             None \<Rightarrow> m
           | Some t \<Rightarrow>
               (case value_str (json_get t ''taskId'') of
                  None \<Rightarrow> m
                | Some i \<Rightarrow> hm_insert i t m))"

definition read_file :: "crates \<Rightarrow> (string, value) hashmap \<Rightarrow> string option \<Rightarrow> (string, value) hashmap" where
  "read_file C m f = (case f of None \<Rightarrow> m | Some text \<Rightarrow> foldl (read_line C) m (read_lines text))"

definition read_deduped_tasks_multiple :: "crates \<Rightarrow> string option list \<Rightarrow> (string, value) hashmap" where
  "read_deduped_tasks_multiple C paths = foldl (read_file C) [] paths"

section \<open>Status and counts\<close>

definition has_job_error :: "value \<Rightarrow> bool" where
  "has_job_error t = (json_get t ''LastJobError'' \<noteq> None \<or> json_get t ''lastJobError'' \<noteq> None)"

definition is_deleted :: "value \<Rightarrow> bool" where
  "is_deleted t = (case json_get t ''deletedAt'' of None \<Rightarrow> False | Some v \<Rightarrow> v \<noteq> JNull)"

definition dashboard_status :: "crates \<Rightarrow> instant \<Rightarrow> value \<Rightarrow> string" where
  "dashboard_status C now t =
     (let has_err = has_job_error t in
      if is_deleted t then
        let retry_count = or_int (value_i64 (json_get t ''retryCount''));
            max_retries = or_int (value_i64 (json_get t ''maxRetries''))
        in if has_err \<and> retry_count \<ge> max_retries then ''dead_letter''
           else if has_err then ''failed''
           else ''completed''
      else if has_err then ''failed''
      else case value_str (json_get t ''executeAt'') of
             Some e \<Rightarrow>
               (case parse_from_rfc3339 C e of
                  Some et \<Rightarrow> if et \<le> now then ''active'' else ''queued''
                | None \<Rightarrow> ''queued'')
           | None \<Rightarrow> ''queued'')"

definition count_task :: "nat \<times> nat \<Rightarrow> value \<Rightarrow> nat \<times> nat" where
  "count_task = (\<lambda>(processed, failed) t.
     if is_deleted t then
       if has_job_error t then (processed, failed + 1) else (processed + 1, failed)
     else (processed, failed))"

definition stats_text :: "nat \<Rightarrow> nat \<Rightarrow> nat \<Rightarrow> string" where
  "stats_text enqueued processed failed =
     [CHR 0x7B, CHR 0x22] @ ''enqueued'' @ [CHR 0x22] @ '':'' @ show_nat enqueued @ '','' @
     [CHR 0x22] @ ''processed'' @ [CHR 0x22] @ '':'' @ show_nat processed @ '','' @
     [CHR 0x22] @ ''failed'' @ [CHR 0x22] @ '':'' @ show_nat failed @ [CHR 0x7D]"

definition stats_body_multiple :: "crates \<Rightarrow> string option list \<Rightarrow> string" where
  "stats_body_multiple C paths =
     (let m = read_deduped_tasks_multiple C paths;
          enqueued = length m;
          (processed, failed) = foldl count_task (0, 0) (hm_values m)
      in stats_text enqueued processed failed)"

text \<open>\<open>json!\<close> sorts the keys; an absent optional value is written as \<open>null\<close>.\<close>

definition or_null :: "value option \<Rightarrow> value" where
  "or_null v = (case v of Some j \<Rightarrow> j | None \<Rightarrow> JNull)"

definition task_row :: "crates \<Rightarrow> instant \<Rightarrow> value \<Rightarrow> value" where
  "task_row C now t = JObj
     [(''cronExpression'', or_null (json_get t ''cronExpression'')),
      (''id'', or_null (json_get t ''taskId'')),
      (''maxExecutionSeconds'', or_null (json_get t ''maxExecutionSeconds'')),
      (''maxRetries'', JInt (or_int (value_i64 (json_get t ''maxRetries'')))),
      (''progress'', JInt 0),
      (''retryAfterTime'', JStr (case value_str (json_get t ''retryAfterTime'') of Some s \<Rightarrow> s | None \<Rightarrow> [])),
      (''retryCount'', JInt (or_int (value_i64 (json_get t ''retryCount'')))),
      (''status'', JStr (dashboard_status C now t)),
      (''type'', or_null (json_get t ''taskType'')),
      (''webhookUrl'', or_null (json_get t ''webhookUrl''))]"

text \<open>\<open>clk n\<close> is the reading of \<open>Utc::now()\<close> for the \<open>n\<close>-th row.\<close>

definition tasks_body_multiple :: "crates \<Rightarrow> (nat \<Rightarrow> instant) \<Rightarrow> string option list \<Rightarrow> string" where
  "tasks_body_multiple C clk paths =
     json_text C (JArr (map (\<lambda>(n, t). task_row C (clk n) t)
       (enumerate 0 (hm_values (read_deduped_tasks_multiple C paths)))))"

section \<open>The ring of progress events\<close>

record progress_event =
  ev_ts :: f64
  ev_task :: string
  ev_data :: string

definition ring_cap :: nat where
  "ring_cap = 500"

definition ring_push :: "progress_event \<Rightarrow> progress_event list \<Rightarrow> progress_event list" where
  "ring_push ev r = (let r = r @ [ev] in if length r > ring_cap then tl r else r)"

datatype received = Message string string | Lagged | Closed

text \<open>The feeder; the second component is False once the loop has ended.\<close>

definition feeder_step ::
  "f64 \<Rightarrow> received \<Rightarrow> progress_event list \<times> bool \<Rightarrow> progress_event list \<times> bool" where
  "feeder_step now msg = (\<lambda>(r, running).
     if \<not> running then (r, running)
     else case msg of
            Message tid data \<Rightarrow> (ring_push \<lparr>ev_ts = now, ev_task = tid, ev_data = data\<rparr> r, True)
          | Lagged \<Rightarrow> (r, True)
          | Closed \<Rightarrow> (r, False))"

definition event_row :: "progress_event \<Rightarrow> value" where
  "event_row ev = JObj
     [(''data'', JStr (ev_data ev)), (''task_id'', JStr (ev_task ev)), (''ts'', ser_f64 (ev_ts ev))]"

definition progress_body :: "crates \<Rightarrow> progress_event list \<Rightarrow> string" where
  "progress_body C r = json_text C (JArr (map event_row (drop (length r - 100) r)))"

section \<open>Requests\<close>

text \<open>
  \<open>String::from_utf8_lossy\<close>: how many bytes the next character takes and whether it is valid. A
  sequence that goes wrong is replaced, up to the byte that does not fit, by U+FFFD.
\<close>

definition second_of_3 :: "nat \<Rightarrow> nat \<Rightarrow> bool" where
  "second_of_3 b c = (cont_byte c \<and> (b = 224 \<longrightarrow> 160 \<le> c) \<and> (b = 237 \<longrightarrow> c \<le> 159))"

definition second_of_4 :: "nat \<Rightarrow> nat \<Rightarrow> bool" where
  "second_of_4 b c = (cont_byte c \<and> (b = 240 \<longrightarrow> 144 \<le> c) \<and> (b = 244 \<longrightarrow> c \<le> 143))"

definition get_byte :: "nat list \<Rightarrow> nat \<Rightarrow> nat" where
  "get_byte bs i = (if i < length bs then bs ! i else 0)"

definition utf8_chunk :: "nat list \<Rightarrow> nat \<times> bool" where
  "utf8_chunk bs =
     (let b = get_byte bs 0; c1 = get_byte bs 1; c2 = get_byte bs 2; c3 = get_byte bs 3 in
      if b \<le> 127 then (1, True)
      else if 194 \<le> b \<and> b \<le> 223 then (if cont_byte c1 then (2, True) else (1, False))
      else if 224 \<le> b \<and> b \<le> 239 then
        (if \<not> second_of_3 b c1 then (1, False)
         else if \<not> cont_byte c2 then (2, False) else (3, True))
      else if 240 \<le> b \<and> b \<le> 244 then
        (if \<not> second_of_4 b c1 then (1, False)
         else if \<not> cont_byte c2 then (2, False)
         else if \<not> cont_byte c3 then (3, False) else (4, True))
      else (1, False))"

function lossy_bytes :: "nat list \<Rightarrow> nat list" where
  "lossy_bytes [] = []"
| "lossy_bytes (b # bs) =
     (case utf8_chunk (b # bs) of
        (n, ok) \<Rightarrow>
          (if ok then take n (b # bs) else [239, 191, 189]) @ lossy_bytes (drop (n - 1) bs))"
  by pat_completeness auto
termination
  by (relation "measure length") auto

definition from_utf8_lossy :: "string \<Rightarrow> string" where
  "from_utf8_lossy s = map char_of (lossy_bytes (map of_char s))"

text \<open>\<open>split_whitespace\<close> and \<open>lines\<close> are those of \<open>Rust_Text\<close>.\<close>

definition request_line :: "string \<Rightarrow> string" where
  "request_line s = (case raw_lines s of l # _ \<Rightarrow> l | [] \<Rightarrow> [])"

definition request_method :: "string list \<Rightarrow> string" where
  "request_method parts = (case parts of m # _ \<Rightarrow> m | [] \<Rightarrow> [])"

definition request_path :: "string list \<Rightarrow> string" where
  "request_path parts =
     takeWhile (\<lambda>c. c \<noteq> CHR ''?'') (case parts of _ # target # _ \<Rightarrow> target | _ \<Rightarrow> ''/'')"

definition crlf :: string where
  "crlf = [CHR 0x0D, CHR 0x0A]"

definition http_response :: "string \<Rightarrow> string \<Rightarrow> string \<Rightarrow> string" where
  "http_response status content_type body =
     ''HTTP/1.1 '' @ status @ crlf @ ''Content-Type: '' @ content_type @ crlf @
     ''Access-Control-Allow-Origin: *'' @ crlf @ ''Content-Length: '' @ show_nat (length body) @ crlf @
     ''Connection: close'' @ crlf @ crlf @ body"

definition index_missing :: string where
  "index_missing = ''Dashboard UI not found: place the dashboard bundle at ./static/index.html''"

definition respond ::
  "crates \<Rightarrow> (nat \<Rightarrow> instant) \<Rightarrow> string option \<Rightarrow> string option list \<Rightarrow> progress_event list \<Rightarrow>
   string \<Rightarrow> string \<Rightarrow> string \<times> string \<times> string" where
  "respond C clk html paths r method path =
     (if method \<noteq> ''GET'' then (''405 Method Not Allowed'', ''text/plain'', ''Method Not Allowed'')
      else if path = ''/api/stats'' then (''200 OK'', ''application/json'', stats_body_multiple C paths)
      else if path = ''/api/tasks'' then (''200 OK'', ''application/json'', tasks_body_multiple C clk paths)
      else if path = ''/api/progress'' then (''200 OK'', ''application/json'', progress_body C r)
      else if path = ''/'' then
        (case html of
           Some page \<Rightarrow>
             if utf8_valid page then (''200 OK'', ''text/html'', page)
             else (''404 Not Found'', ''text/plain'', index_missing)
         | None \<Rightarrow> (''404 Not Found'', ''text/plain'', index_missing))
      else (''404 Not Found'', ''text/plain'', ''Not Found''))"

text \<open>\<open>got\<close> is what one read of at most 4096 bytes returned; \<^const>\<open>None\<close> when it failed.\<close>

definition handle_connection ::
  "crates \<Rightarrow> (nat \<Rightarrow> instant) \<Rightarrow> string option \<Rightarrow> string option list \<Rightarrow> progress_event list \<Rightarrow>
   string option \<Rightarrow> string option" where
  "handle_connection C clk html paths r got =
     (case got of
        None \<Rightarrow> None
      | Some buf \<Rightarrow>
          if buf = [] then None
          else
            let parts = split_whitespace (request_line (from_utf8_lossy buf));
                (status, content_type, body) =
                  respond C clk html paths r (request_method parts) (request_path parts)
            in Some (http_response status content_type body))"

section \<open>A task's line as the dashboard sees it\<close>

lemma map_of_rev_distinct: "distinct (map fst l) \<Longrightarrow> map_of (rev l) = map_of l"
  using map_of_inject_set [of "rev l" l] by (simp add: rev_map [symmetric])

lemma map_of_keys: "map_of (map (\<lambda>k. (k, g k)) ks) k = (if k \<in> set ks then Some (g k) else None)"
  by (induction ks) auto

lemma json_get_to_value: "json_get (to_value j) k = map_option to_value (json_get j k)"
proof (cases j)
  case (JObj kvs)
  let ?m = "rev (map (\<lambda>(k, v). (k, to_value v)) kvs)" and ?ks = "remdups (sort (map fst kvs))"
  have d: "distinct (map fst (map (\<lambda>k. (k, the (map_of ?m k))) ?ks))" by (simp add: comp_def)
  have m: "map_of ?m = (\<lambda>k. map_option to_value (map_of (rev kvs) k))"
    using map_of_map [of to_value "rev kvs"] by (simp add: rev_map comp_def)
  have n: "map_of (rev kvs) k = None \<longleftrightarrow> k \<notin> set (map fst kvs)" by (simp add: map_of_eq_None_iff)
  have "json_get (to_value j) k = map_of (map (\<lambda>k. (k, the (map_of ?m k))) ?ks) k"
    unfolding JObj to_value.simps(2) Let_def json_get_def json.case map_of_rev_distinct [OF d] ..
  also have "\<dots> = map_option to_value (map_of (rev kvs) k)"
    unfolding map_of_keys m using n by (cases "map_of (rev kvs) k") auto
  finally show ?thesis by (simp add: JObj json_get_def)
qed (simp_all add: json_get_def)

lemma json_get_present:
  assumes "distinct (map fst l)"
  shows "json_get (map_json f (JObj (present l))) k =
    map_option (map_json f) (Option.bind (map_of l k) (\<lambda>v. v))"
proof -
  let ?l = "map (\<lambda>(k, v). (k, map_option (map_json f) v)) l"
  have d: "distinct (map fst ?l)" using assms by (simp add: comp_def case_prod_beta')
  have "map_of ?l k = map_option (map_option (map_json f)) (map_of l k)"
    using map_of_map [of "map_option (map_json f)" l] by simp
  then show ?thesis
    unfolding map_json_present json_get_def json.case
      map_of_rev_distinct [OF distinct_present [OF d]] map_of_present [OF d]
    by (cases "map_of l k") simp_all
qed

definition task_value :: "crates \<Rightarrow> rtask \<Rightarrow> value" where
  "task_value C t = to_value (map_json (reread C) (task_to_json C t))"

lemma json_get_task:
  "json_get (task_value C t) k =
     map_option to_value (map_option (map_json (reread C)) (Option.bind (map_of (task_fields C t) k) (\<lambda>v. v)))"
proof -
  have d: "distinct (map fst (task_fields C t))" by (simp add: task_fields_def)
  show ?thesis
    unfolding task_value_def task_to_json_def json_get_to_value json_get_present [OF d] ..
qed

lemma task_value_fields [simp]:
  "json_get (task_value C t) ''taskId'' = Some (JStr (task_id t))"
  "json_get (task_value C t) ''retryCount'' = Some (JInt (sint (retry_count t)))"
  "json_get (task_value C t) ''maxRetries'' = Some (JInt (sint (max_retries t)))"
  "json_get (task_value C t) ''executeAt'' = Some (JStr (rfc3339 C (execute_at t)))"
  "json_get (task_value C t) ''deletedAt'' = map_option (\<lambda>i. JStr (rfc3339 C i)) (deleted_at t)"
  "json_get (task_value C t) ''LastJobError'' = None \<longleftrightarrow> last_job_error t = None"
  "json_get (task_value C t) ''lastJobError'' = None"
  unfolding json_get_task by (simp_all add: task_fields_def option.map_comp comp_def)

lemma is_deleted_task [simp]: "is_deleted (task_value C t) \<longleftrightarrow> deleted_at t \<noteq> None"
  by (cases "deleted_at t") (simp_all add: is_deleted_def)

lemma has_job_error_task [simp]: "has_job_error (task_value C t) \<longleftrightarrow> last_job_error t \<noteq> None"
  by (simp add: has_job_error_def)

lemma value_i64_i32: "value_i64 (Some (JInt (sint (w :: i32)))) = Some (sint w)"
  using sint_range_size [of w] by (simp add: word_size)

text \<open>The status of a task, from its fields.\<close>

definition task_status :: "instant \<Rightarrow> rtask \<Rightarrow> string" where
  "task_status now t =
     (if deleted_at t \<noteq> None then
        (if last_job_error t = None then ''completed''
         else if sint (retry_count t) \<ge> sint (max_retries t) then ''dead_letter'' else ''failed'')
      else if last_job_error t \<noteq> None then ''failed''
      else if execute_at t \<le> now then ''active'' else ''queued'')"

lemma dashboard_status_task: "serde_ok C \<Longrightarrow> dashboard_status C now (task_value C t) = task_status now t"
  by (simp add: dashboard_status_def task_status_def Let_def value_i64_i32 or_int_def serde_okD
      del: value_i64.simps)

section \<open>A log as the dashboard sees it\<close>

lemma read_line_task:
  "serde_ok C \<Longrightarrow> read_line C m (task_line C t) = hm_insert (task_id t) (task_value C t) m"
  using task_line_clean(3) [of C t]
  by (simp add: read_line_def) (simp add: task_line_def serde_okD task_value_def [symmetric])

definition last_version :: "rtask list \<Rightarrow> string \<Rightarrow> rtask option" where
  "last_version ts i = find (\<lambda>t. task_id t = i) (rev ts)"

lemma read_file_log:
  "serde_ok C \<Longrightarrow> read_file C m (Some (log_text C ts)) =
     foldl (\<lambda>m t. hm_insert (task_id t) (task_value C t) m) m ts"
proof -
  assume C: "serde_ok C"
  have "foldl (read_line C) m (map (task_line C) ts) =
      foldl (\<lambda>m t. hm_insert (task_id t) (task_value C t) m) m ts"
    using C by (induction ts arbitrary: m) (simp_all add: read_line_task)
  then show ?thesis
    using C by (simp add: read_file_def read_lines_whole log_text_whole raw_lines_log_text)
qed

lemma read_deduped_log:
  assumes "serde_ok C"
  shows "hm_ok (read_deduped_tasks_multiple C [Some (log_text C ts)])"
    and "hm_get (read_deduped_tasks_multiple C [Some (log_text C ts)]) i =
      map_option (task_value C) (last_version ts i)"
proof -
  have "hm_ok (foldl (\<lambda>m t. hm_insert (task_id t) (task_value C t) m) [] ts) \<and>
      hm_get (foldl (\<lambda>m t. hm_insert (task_id t) (task_value C t) m) [] ts) i =
      map_option (task_value C) (last_version ts i)"
    by (induction ts rule: rev_induct) (auto simp: last_version_def)
  then show "hm_ok (read_deduped_tasks_multiple C [Some (log_text C ts)])"
    "hm_get (read_deduped_tasks_multiple C [Some (log_text C ts)]) i =
      map_option (task_value C) (last_version ts i)"
    using assms by (simp_all add: read_deduped_tasks_multiple_def read_file_log)
qed

section \<open>The counts\<close>

lemma foldl_count:
  "foldl count_task (p, f) vs =
     (p + length (filter (\<lambda>t. is_deleted t \<and> \<not> has_job_error t) vs),
      f + length (filter (\<lambda>t. is_deleted t \<and> has_job_error t) vs))"
  by (induction vs arbitrary: p f) (simp_all add: count_task_def)

lemma hm_count:
  assumes "hm_ok m"
  shows "length (filter P (hm_values m)) = card {k. \<exists>v. hm_get m k = Some v \<and> P v}"
proof -
  let ?m = "filter (\<lambda>(k, v). P v) m"
  have d: "distinct (map fst m)" using assms by (simp add: hm_ok_def)
  then have d': "distinct (map fst ?m)" by (rule distinct_map_filter)
  have "length (filter P (hm_values m)) = length (map fst ?m)"
    by (simp add: hm_values_def filter_map comp_def case_prod_beta')
  also have "\<dots> = card (set (map fst ?m))" using d' by (rule distinct_card [symmetric])
  also have "set (map fst ?m) = {k. \<exists>v. hm_get m k = Some v \<and> P v}"
    using d by (force simp: hm_get_def)
  finally show ?thesis .
qed

lemma hm_length:
  "hm_ok m \<Longrightarrow> length m = card {k. \<exists>v. hm_get m k = Some v}"
  using hm_count [of m "\<lambda>_. True"] by (simp add: hm_values_def)

text \<open>The identifiers whose last version satisfies \<open>P\<close>.\<close>

definition ids_with :: "(rtask \<Rightarrow> bool) \<Rightarrow> rtask list \<Rightarrow> string set" where
  "ids_with P ts = {i. \<exists>t. last_version ts i = Some t \<and> P t}"

lemma last_version_id: "last_version ts i = Some t \<Longrightarrow> task_id t = i \<and> t \<in> set ts"
proof (induction ts rule: rev_induct)
  case Nil
  then show ?case by (simp add: last_version_def)
next
  case (snoc u ts)
  then show ?case by (cases "task_id u = i") (simp_all add: last_version_def)
qed

lemma finite_ids [simp]: "finite (ids_with P ts)"
proof (rule finite_subset)
  show "ids_with P ts \<subseteq> task_id ` set ts"
  proof
    fix i
    assume "i \<in> ids_with P ts"
    then obtain t where "last_version ts i = Some t" by (auto simp: ids_with_def)
    then show "i \<in> task_id ` set ts" using last_version_id by blast
  qed
qed simp

lemma reload_live:
  assumes "serde_ok C" "\<forall>t \<in> set ts. f64_finite (retry_after_hours t)"
    and "store_new C Io_Ok clk (Some (log_text C ts)) = (r, s)"
  shows "length (read_tasks s) = card (ids_with (\<lambda>t. deleted_at t = None) ts)"
proof -
  let ?m = "log_map.replay (log_entries C clk (log_text C ts)) []"
  have s: "tasks_cache s = ?m"
    using assms(3) by (auto simp: store_new_def rebuild_metadata_def rebuild_fold)
  have "hm_get (log_map.replay (log_entries C clk (log_text C ts)) []) i \<noteq> None \<longleftrightarrow>
      (\<exists>t. last_version ts i = Some t \<and> deleted_at t = None)" for i
    using assms(2)
  proof (induction ts rule: rev_induct)
    case Nil
    then show ?case by (simp add: log_text_def last_version_def log_entries_def read_lines_def List.map_filter_def)
  next
    case (snoc t ts)
    have "log_view C clk (log_text C (ts @ [t])) i \<noteq> None \<longleftrightarrow>
        (if i = task_id t then deleted_at t = None else log_view C clk (log_text C ts) i \<noteq> None)"
      using snoc.prems log_view_snoc [OF assms(1) log_text_whole [OF assms(1)], of t clk ts i]
      by (simp add: log_text_snoc)
    then show ?case using snoc by (auto simp: log_view_def last_version_def)
  qed
  then have "{i. \<exists>t. hm_get ?m i = Some t} = ids_with (\<lambda>t. deleted_at t = None) ts"
    unfolding ids_with_def by simp
  moreover have "hm_ok ?m" by (rule log_map.wf_replay) simp
  ultimately show ?thesis using hm_length [of ?m] s by (simp add: read_tasks_def hm_values_def)
qed

lemma ids_with_split:
  "card (ids_with (\<lambda>t. True) ts) =
     card (ids_with (\<lambda>t. deleted_at t \<noteq> None \<and> last_job_error t = None) ts) +
     card (ids_with (\<lambda>t. deleted_at t \<noteq> None \<and> last_job_error t \<noteq> None) ts) +
     card (ids_with (\<lambda>t. deleted_at t = None) ts)"
proof -
  let ?p = "ids_with (\<lambda>t. deleted_at t \<noteq> None \<and> last_job_error t = None) ts"
    and ?f = "ids_with (\<lambda>t. deleted_at t \<noteq> None \<and> last_job_error t \<noteq> None) ts"
    and ?l = "ids_with (\<lambda>t. deleted_at t = None) ts"
  have "ids_with (\<lambda>t. True) ts = ?p \<union> ?f \<union> ?l" by (auto simp: ids_with_def)
  moreover have "?p \<inter> ?f = {}" "(?p \<union> ?f) \<inter> ?l = {}" by (auto simp: ids_with_def)
  ultimately show ?thesis by (simp add: card_Un_disjoint)
qed

lemma stats_body_log:
  assumes "serde_ok C"
  shows "stats_body_multiple C [Some (log_text C ts)] =
    stats_text (card (ids_with (\<lambda>t. True) ts))
      (card (ids_with (\<lambda>t. deleted_at t \<noteq> None \<and> last_job_error t = None) ts))
      (card (ids_with (\<lambda>t. deleted_at t \<noteq> None \<and> last_job_error t \<noteq> None) ts))"
proof -
  let ?m = "read_deduped_tasks_multiple C [Some (log_text C ts)]"
  note r = read_deduped_log [OF assms, of ts]
  have "{k. \<exists>v. hm_get ?m k = Some v \<and> P v} = ids_with (\<lambda>t. P (task_value C t)) ts" for P
    by (auto simp: r(2) ids_with_def)
  then have "length (filter P (hm_values ?m)) = card (ids_with (\<lambda>t. P (task_value C t)) ts)"
    and "length ?m = card (ids_with (\<lambda>t. True) ts)" for P
    using hm_count [OF r(1), of P] hm_length [OF r(1)] by (simp_all add: r(2) ids_with_def)
  then show ?thesis by (simp add: stats_body_multiple_def Let_def foldl_count)
qed

section \<open>A request\<close>

text \<open>A well-formed sequence starts with a character of one to four bytes, and the rest is well-formed.\<close>

lemma utf8_chunk_valid:
  assumes "utf8_bytes (b # bs)"
  shows "\<exists>n r. utf8_chunk (b # bs) = (Suc n, True) \<and> length r = n \<and> bs = r @ drop n bs \<and> utf8_bytes (drop n bs)"
proof -
  consider "b \<le> 127" | "194 \<le> b" "b \<le> 223" | "224 \<le> b" "b \<le> 239" | "240 \<le> b" "b \<le> 244"
    using assms by (fastforce split: if_splits)
  then show ?thesis
  proof cases
    case 1
    then show ?thesis using assms by (intro exI [of _ 0]) (simp add: utf8_chunk_def get_byte_def)
  next
    case 2
    then obtain c1 r where "bs = c1 # r" "cont_byte c1" "utf8_bytes r"
      using assms by (cases bs) (auto split: if_splits)
    then show ?thesis
      using 2 by (intro exI [of _ 1] exI [of _ "[c1]"]) (simp add: utf8_chunk_def get_byte_def)
  next
    case 3
    then obtain c1 c2 r where "bs = c1 # c2 # r" "second_of_3 b c1" "cont_byte c2" "utf8_bytes r"
      using assms by (cases bs; cases "tl bs") (auto simp: second_of_3_def split: if_splits)
    then show ?thesis
      using 3 by (intro exI [of _ 2] exI [of _ "[c1, c2]"])
        (simp add: utf8_chunk_def get_byte_def numeral_2_eq_2)
  next
    case 4
    then obtain c1 c2 c3 r where "bs = c1 # c2 # c3 # r" "second_of_4 b c1" "cont_byte c2" "cont_byte c3"
        "utf8_bytes r"
      using assms by (cases bs; cases "tl bs"; cases "tl (tl bs)") (auto simp: second_of_4_def split: if_splits)
    then show ?thesis
      using 4 by (intro exI [of _ 3] exI [of _ "[c1, c2, c3]"])
        (simp add: utf8_chunk_def get_byte_def numeral_3_eq_3 numeral_2_eq_2)
  qed
qed

lemma lossy_valid: "utf8_bytes bs \<Longrightarrow> lossy_bytes bs = bs"
proof (induction bs rule: lossy_bytes.induct)
  case (2 b bs)
  obtain n r where u: "utf8_chunk (b # bs) = (Suc n, True)" "utf8_bytes (drop n bs)"
    using utf8_chunk_valid [OF 2(2)] by blast
  then have "lossy_bytes (drop n bs) = drop n bs" using 2(1) [OF u(1) [symmetric]] by simp
  then show ?case using u(1) by simp
qed simp

lemma from_utf8_lossy_valid: "utf8_valid s \<Longrightarrow> from_utf8_lossy s = s"
  by (simp add: from_utf8_lossy_def utf8_valid_def lossy_valid comp_def)

definition get_request :: "string \<Rightarrow> string \<Rightarrow> string" where
  "get_request target rest = ''GET '' @ target @ '' HTTP/1.1'' @ crlf @ rest"

lemma handle_get:
  assumes "target \<noteq> []" "\<forall>c \<in> set target. graphic c" "utf8_valid (get_request target rest)"
  shows "handle_connection C clk html paths r (Some (get_request target rest)) =
    (case respond C clk html paths r ''GET'' (takeWhile (\<lambda>c. c \<noteq> CHR ''?'') target) of
       (status, content_type, body) \<Rightarrow> Some (http_response status content_type body))"
proof -
  let ?l = "''GET'' @ blank # target @ blank # ''HTTP/1.1''"
  have g: "newline \<notin> set ''GET'' \<and> newline \<notin> set target \<and> newline \<notin> set ''HTTP/1.1''"
    using assms(2) by (auto simp: newline_def graphic_def)
  have req: "get_request target rest = (?l @ [carriage_return]) @ newline # rest"
    by (simp add: get_request_def crlf_def blank_def carriage_return_def newline_def)
  have n: "newline \<notin> set (?l @ [carriage_return])"
    using g by (simp add: newline_def blank_def carriage_return_def)
  have f: "request_line (get_request target rest) = ?l"
    unfolding req request_line_def raw_lines_first [OF n]
    by (simp only: list.case strip_cr_def last_snoc butlast_snoc) simp
  have "split_whitespace ?l = split_whitespace ''GET'' @ split_whitespace target @ split_whitespace ''HTTP/1.1''"
    by (simp only: split_whitespace_blank)
  also have "\<dots> = [''GET'', target, ''HTTP/1.1'']"
    using assms(1,2) by (subst (1 2 3) split_whitespace_graphic) (simp_all add: graphic_def)
  finally have parts: "split_whitespace (request_line (get_request target rest)) = [''GET'', target, ''HTTP/1.1'']"
    unfolding f .
  have "get_request target rest \<noteq> []" by (simp add: get_request_def)
  then show ?thesis
    by (simp add: handle_connection_def Let_def from_utf8_lossy_valid [OF assms(3)] parts request_method_def
        request_path_def)
qed

section \<open>A bounded buffer\<close>

text \<open>A buffer that drops its oldest item when it is full.\<close>

definition newest :: "nat \<Rightarrow> 'a list \<Rightarrow> 'a list" where
  "newest n xs = drop (length xs - n) xs"

lemma newest_rev: "newest n xs = rev (take n (rev xs))"
  by (simp add: newest_def rev_take)

lemma newest_snoc: "newest n (newest n xs @ [x]) = newest n (xs @ [x])"
  by (cases n) (simp_all add: newest_rev take_Cons')

lemma length_newest: "length (newest n xs) \<le> n"
  by (simp add: newest_def)

lemma newest_newest: "m \<le> n \<Longrightarrow> newest m (newest n xs) = newest m xs"
  by (simp add: newest_rev min_def)

locale bounded_buffer =
  fixes push :: "'a \<Rightarrow> 'b \<Rightarrow> 'b" and items :: "'b \<Rightarrow> 'a list" and cap :: nat
  assumes push_room: "length (items b) < cap \<Longrightarrow> items (push x b) = items b @ [x]"
    and push_full: "length (items b) = cap \<Longrightarrow> items (push x b) = tl (items b @ [x])"
begin

lemma push_newest:
  assumes "length (items b) \<le> cap"
  shows "items (push x b) = newest cap (items b @ [x])"
proof (cases "length (items b) < cap")
  case True
  then show ?thesis using push_room by (simp add: newest_def)
next
  case False
  then have "length (items b) = cap" using assms by simp
  then show ?thesis using push_full [of b x] by (simp add: newest_def drop_Suc del: drop_append)
qed

lemma pushes_newest:
  "length (items b) \<le> cap \<Longrightarrow>
   items (foldl (\<lambda>b x. push x b) b xs) = newest cap (items b @ xs)"
proof (induction xs rule: rev_induct)
  case Nil
  then show ?case by (simp add: newest_def)
next
  case (snoc x xs)
  let ?b = "foldl (\<lambda>b x. push x b) b xs"
  have "items ?b = newest cap (items b @ xs)" using snoc by simp
  then show ?case
    using push_newest [of ?b x] length_newest [of cap "items b @ xs"] newest_snoc [of cap "items b @ xs" x]
    by simp
qed

end

interpretation ring: bounded_buffer ring_push "\<lambda>r. r" ring_cap
  by unfold_locales (simp_all add: ring_push_def Let_def)

text \<open>What a feeder receives before it ends, with the time of each message.\<close>

fun heard :: "(f64 \<times> received) list \<Rightarrow> progress_event list" where
  "heard [] = []"
| "heard ((now, Message tid data) # ms) = \<lparr>ev_ts = now, ev_task = tid, ev_data = data\<rparr> # heard ms"
| "heard ((now, Lagged) # ms) = heard ms"
| "heard ((now, Closed) # ms) = []"

definition feed :: "(f64 \<times> received) list \<Rightarrow> progress_event list \<times> bool" where
  "feed ms = foldl (\<lambda>s (now, m). feeder_step now m s) ([], True) ms"

lemma feeder_stopped: "foldl (\<lambda>s (now, m). feeder_step now m s) (r, False) ms = (r, False)"
proof (induction ms)
  case (Cons m ms)
  then show ?case by (cases m) (simp add: feeder_step_def)
qed simp

lemma feed_heard:
  "fst (foldl (\<lambda>s (now, m). feeder_step now m s) (r, True) ms) = foldl (\<lambda>r ev. ring_push ev r) r (heard ms)"
proof (induction ms arbitrary: r rule: heard.induct)
  case (4 now ms)
  then show ?case using feeder_stopped by (simp add: feeder_step_def [of now Closed])
qed (simp_all add: feeder_step_def [of _ "Message t d" for t d] feeder_step_def [of _ Lagged])

text \<open>
  Property C28: The ring never holds more than 500 events. After any sequence of messages it holds,
  oldest first, the last 500 of those that the feeder received before its channel closed; a lag
  loses what the channel dropped and nothing more. \<open>/api/progress\<close> shows the last 100 of them, or
  all if there are fewer.
\<close>

theorem progress_ring_exact:
  "fst (feed ms) = drop (length (heard ms) - 500) (heard ms) \<and> length (fst (feed ms)) \<le> 500 \<and>
   progress_body C (fst (feed ms)) =
     json_text C (JArr (map event_row (drop (length (heard ms) - 100) (heard ms))))"
proof -
  have f: "fst (feed ms) = newest 500 (heard ms)"
    unfolding feed_def feed_heard using ring.pushes_newest [of "[]" "heard ms"] by (simp add: ring_cap_def)
  moreover have "drop (length (fst (feed ms)) - 100) (fst (feed ms)) = newest 100 (heard ms)"
    unfolding f newest_def [symmetric] by (simp add: newest_newest)
  ultimately show ?thesis
    using length_newest [of 500 "heard ms"] by (simp add: progress_body_def) (simp add: newest_def)
qed

section \<open>The properties of the task views\<close>

text \<open>
  Property C21: \<open>GET /api/stats\<close> on the log of any history of saves is answered by a complete HTTP
  response whose counts are exact: \<open>processed\<close> is the number of ids whose last version is removed
  without an error, \<open>failed\<close> of those removed with one, and \<open>enqueued\<close> exceeds their sum by the
  number of tasks that a restart of the queue finds alive in that log.
\<close>

theorem get_stats_exact:
  assumes "serde_ok C" "\<forall>t \<in> set ts. f64_finite (retry_after_hours t)"
    and "store_new C Io_Ok clk (Some (log_text C ts)) = (r, s)"
    and "utf8_valid (get_request ''/api/stats'' rest)"
  shows "let processed = card (ids_with (\<lambda>t. deleted_at t \<noteq> None \<and> last_job_error t = None) ts);
             failed = card (ids_with (\<lambda>t. deleted_at t \<noteq> None \<and> last_job_error t \<noteq> None) ts)
    in handle_connection C clk' html [Some (log_text C ts)] ring (Some (get_request ''/api/stats'' rest)) =
         Some (http_response ''200 OK'' ''application/json''
           (stats_text (processed + failed + length (read_tasks s)) processed failed))"
proof -
  have "\<forall>c \<in> set ''/api/stats''. graphic c" by (simp add: graphic_def)
  then have h: "handle_connection C clk' html [Some (log_text C ts)] ring (Some (get_request ''/api/stats'' rest)) =
      Some (http_response ''200 OK'' ''application/json'' (stats_body_multiple C [Some (log_text C ts)]))"
    using handle_get [OF _ _ assms(4)] by (simp add: respond_def)
  show ?thesis
    unfolding h stats_body_log [OF assms(1)] ids_with_split reload_live [OF assms(1-3)] Let_def ..
qed

text \<open>A last failure without children appends one line, the tombstone of the task as it was.\<close>

lemma buried_log:
  assumes "log_file (q_store q) = Some (log_text C ts)" "get_latest_task (task_id t) (q_store q) = Some t"
    and "deleted_at t = None" "children_of (task_id t) q = []" "\<not> sint (retry_count t) < sint (max_retries t - 1)"
  shows "log_file (q_store (snd (exec_failure C (\<lambda>n. Io_Ok) clk mtime e t q))) =
    Some (log_text C (ts @ [mark_deleted (clk 0) (clk 1) t]))"
proof -
  let ?t = "mark_deleted (clk 0) (clk 1) t"
  have "q_store (snd (exec_failure C (\<lambda>n. Io_Ok) clk mtime e t q)) =
      snd (delete_task C Io_Ok (clk 0) (clk 1) (task_id t) (q_store q))"
    using assms(4,5) by (simp add: exec_failure_def Let_def complete_task_def)
  also have "\<dots> = snd (save_task_inner C Io_Ok ?t False (q_store q))"
    using assms(2,3) by (simp add: delete_task_def get_latest_task_def)
  finally show ?thesis
    using assms(1) by (simp add: save_task_ok Let_def file_bytes_def log_text_snoc)
qed

text \<open>
  Property C27: \<open>/api/tasks\<close> shows one row per id in the log, for its last version, with the
  status that the fields of the task say, under the keys that the store writes: removed tasks are
  \<open>completed\<close> without an error and else \<open>dead_letter\<close> or \<open>failed\<close> by their attempts; live ones are
  \<open>failed\<close> with an error, \<open>active\<close> from their execution time on, and \<open>queued\<close> before. A task that the queue buries
  with its last attempt is never shown as a dead letter: its last failure is not recorded in the
  tombstone, so it is \<open>failed\<close>, and \<open>completed\<close> if that was its only attempt.
\<close>

theorem task_rows_exact:
  assumes "serde_ok C" "log_file (q_store q) = Some (log_text C ts)"
    and "get_latest_task (task_id t) (q_store q) = Some t" "deleted_at t = None"
    and "children_of (task_id t) q = []"
    and "sint (retry_count t) = sint (max_retries t - 1) \<or>
         last_job_error t = None \<and> sint (max_retries t - 1) \<le> sint (retry_count t)"
    and "0 < sint (max_retries t)"
  shows "(\<forall>i. map_option (dashboard_status C now)
             (hm_get (read_deduped_tasks_multiple C [Some (log_text C ts)]) i) =
           map_option (task_status now) (last_version ts i)) \<and>
    map_option (dashboard_status C now)
       (hm_get (read_deduped_tasks_multiple C
          [log_file (q_store (snd (exec_failure C (\<lambda>n. Io_Ok) clk mtime e t q)))]) (task_id t)) =
      Some (if last_job_error t = None then ''completed'' else ''failed'')"
proof
  show "\<forall>i. map_option (dashboard_status C now)
      (hm_get (read_deduped_tasks_multiple C [Some (log_text C ts)]) i) =
      map_option (task_status now) (last_version ts i)"
    using read_deduped_log(2) [OF assms(1)] dashboard_status_task [OF assms(1)]
    by (simp add: option.map_comp comp_def)
next
  let ?t = "mark_deleted (clk 0) (clk 1) t"
  have "\<not> sint (retry_count t) < sint (max_retries t - 1)" using assms(6) by auto
  then have "log_file (q_store (snd (exec_failure C (\<lambda>n. Io_Ok) clk mtime e t q))) = Some (log_text C (ts @ [?t]))"
    by (rule buried_log [OF assms(2-5)])
  moreover have "last_version (ts @ [?t]) (task_id t) = Some ?t"
    by (simp add: last_version_def mark_deleted_def)
  moreover have "task_status now ?t = (if last_job_error t = None then ''completed'' else ''failed'')"
  proof (cases "last_job_error t = None")
    case False
    then have "sint (retry_count t) < sint (max_retries t)"
      using assms(6,7) sint_dec [of "max_retries t"] by auto
    with False show ?thesis by (simp add: task_status_def mark_deleted_def)
  qed (simp add: task_status_def mark_deleted_def)
  ultimately show "map_option (dashboard_status C now)
       (hm_get (read_deduped_tasks_multiple C
          [log_file (q_store (snd (exec_failure C (\<lambda>n. Io_Ok) clk mtime e t q)))]) (task_id t)) =
      Some (if last_job_error t = None then ''completed'' else ''failed'')"
    by (simp only: read_deduped_log(2) [OF assms(1)] dashboard_status_task [OF assms(1)] option.map)
qed

section \<open>Witnesses\<close>

lemma get_stats_exact_witness:
  "\<exists>r s. store_new demo_crates Io_Ok (\<lambda>n. (0, 0)) (Some (log_text demo_crates [demo_task])) = (r, s) \<and>
     handle_connection demo_crates (\<lambda>n. 0) None [Some (log_text demo_crates [demo_task])] []
       (Some (get_request ''/api/stats'' [])) =
     Some (http_response ''200 OK'' ''application/json'' (stats_text (length (read_tasks s)) 0 0))"
proof -
  obtain r s where n: "store_new demo_crates Io_Ok (\<lambda>n. (0, 0)) (Some (log_text demo_crates [demo_task])) = (r, s)"
    by fastforce
  have u: "utf8_valid (get_request ''/api/stats'' [])"
    by (rule utf8_ascii) (simp add: get_request_def crlf_def)
  have "ids_with (\<lambda>t. deleted_at t \<noteq> None \<and> P t) [demo_task] = {}" for P
    by (auto simp: ids_with_def last_version_def demo_task_def task_new_def split: if_splits)
  then show ?thesis
    using n get_stats_exact [OF serde_ok_demo _ n u, of "\<lambda>n. 0" None "[]"] demo_task_finite by simp
qed

lemma task_rows_exact_witness:
  "\<exists>q t. get_latest_task ''a'' (q_store q) = Some t \<and> map_option (dashboard_status demo_crates 0)
     (hm_get (read_deduped_tasks_multiple demo_crates
       [log_file (q_store (snd (exec_failure demo_crates (\<lambda>n. Io_Ok) (\<lambda>n. 0) 0 ''e'' t q)))]) ''a'') =
     Some ''completed''"
proof -
  let ?t = "demo_task\<lparr>max_retries := 1\<rparr>"
  let ?s = "snd (save_task_inner demo_crates Io_Ok ?t True (empty_store None))"
  let ?q = "demo_queue\<lparr>q_store := ?s\<rparr>"
  have t: "task_id ?t = ''a''" "deleted_at ?t = None" "trigger_after_ids ?t = None" "retry_count ?t = 0"
    "last_job_error ?t = None"
    by (simp_all add: demo_task_def task_new_def)
  have c: "tasks_cache ?s = [(''a'', ?t)]"
    using t by (simp add: save_task_ok Let_def empty_store_def apply_entry_def hm_insert_def)
  have l: "log_file (q_store ?q) = Some (log_text demo_crates [?t])"
    by (simp add: save_task_ok Let_def empty_store_def file_bytes_def log_text_def)
  have g: "get_latest_task (task_id ?t) (q_store ?q) = Some ?t"
    using c t by (simp add: get_latest_task_def hm_get_def)
  have k: "children_of (task_id ?t) ?q = []"
    using c t(3) by (simp add: children_of_def read_tasks_def hm_values_def)
  have "map_option (dashboard_status demo_crates 0)
     (hm_get (read_deduped_tasks_multiple demo_crates
       [log_file (q_store (snd (exec_failure demo_crates (\<lambda>n. Io_Ok) (\<lambda>n. 0) 0 ''e'' ?t ?q)))]) (task_id ?t)) =
     Some (if last_job_error ?t = None then ''completed'' else ''failed'')"
    by (rule task_rows_exact [OF serde_ok_demo l g t(2) k, THEN conjunct2]) (use t in simp_all)
  then show ?thesis using g unfolding t by (intro exI [of _ ?q] exI [of _ ?t]) simp
qed

end
