(* ===== verification/Sharded_Queue.thy ===== *)
theory Sharded_Queue
  imports Sharding Queue
begin

text \<open>
  \<open>src/sharded_queue.rs\<close>: a daemon that claims shards of a queue directory and runs one \<open>SnerdQueue\<close>,
  here an engine, per shard that it owns.

  The state is the daemon and the directory. All engines share the pools, the heaps and the
  dispatcher counts (\<open>dm_pools\<close>, \<open>dm_pqs\<close>, \<open>dm_counts\<close>): an engine's own copies of these fields are
  replaced by the shared ones whenever it runs. The processor of an engine works on a clone of
  it, so an engine that is only removed from the map goes on: \<open>dm_lost\<close>. The log of an engine's
  store is the file in the directory, and so are its rate limits, one file for all shards. One claim of a shard with what follows it is a step; a
  heartbeat is the steps of all claimable shards and the reconciliation.
\<close>

section \<open>State\<close>

record daemon =
  dm_owner :: string
  dm_shards :: "(string, queue) hashmap"
  dm_lost :: "(string \<times> queue) list"
  dm_handlers :: "string set"
  dm_max_handlers :: "string set"
  dm_stop :: bool
  dm_heart :: bool
  dm_pools :: "(string, nat) hashmap"
  dm_pqs :: "(string, rtask list) hashmap"
  dm_counts :: "(string, nat) hashmap"

text \<open>\<open>dm_heart\<close> says whether the heartbeat task still runs: it ends on \<open>dm_stop\<close> and when it panics.\<close>

definition daemon_new ::
  "crates \<Rightarrow> dir_call option \<Rightarrow> io \<Rightarrow> string \<Rightarrow> string \<Rightarrow> u32 \<Rightarrow> queue_dir \<Rightarrow> daemon option \<times> queue_dir"
where
  "daemon_new C fault w me name requested d =
     (case resolve_layout C fault w name requested d of
        (Some (Inr n), d') \<Rightarrow>
          (Some \<lparr>dm_owner = me, dm_shards = [], dm_lost = [], dm_handlers = {}, dm_max_handlers = {},
             dm_stop = False, dm_heart = True, dm_pools = [(''default'', 100)],
             dm_pqs = [(''default'', [])], dm_counts = [(''default'', 0)]\<rparr>, d')
      | (_, d') \<Rightarrow> (None, d'))"

definition daemon_register_task_handler :: "string \<Rightarrow> daemon \<Rightarrow> daemon" where
  "daemon_register_task_handler ty dm = dm\<lparr>
     dm_handlers := insert ty (dm_handlers dm),
     dm_shards := map (\<lambda>(s, q). (s, register_task_handler ty q)) (dm_shards dm)\<rparr>"

definition daemon_register_max_retry_handler :: "string \<Rightarrow> daemon \<Rightarrow> daemon" where
  "daemon_register_max_retry_handler ty dm = dm\<lparr>
     dm_max_handlers := insert ty (dm_max_handlers dm),
     dm_shards := map (\<lambda>(s, q). (s, register_max_retry_handler ty q)) (dm_shards dm)\<rparr>"

section \<open>Engines\<close>

text \<open>\<open>SnerdQueue::new_with_shared_pools\<close>; \<^const>\<open>None\<close>: \<open>tasks.log.lock\<close> is held, and it panics.\<close>

definition new_with_shared_pools ::
  "bool \<Rightarrow> file_store \<Rightarrow> string option \<Rightarrow> daemon \<Rightarrow> queue option" where
  "new_with_shared_pools lock_free st limits dm =
     (if \<not> lock_free then None
      else Some \<lparr>q_store = st, q_limits = limits, task_handlers = {}, max_retry_handlers = {},
             active_hashes = store_hashes st, executing_tasks = {}, queued_tasks = {},
             completed_tasks = [], worker_pools = dm_pools dm, shared_pqs = dm_pqs dm,
             dispatcher_counts = dm_counts dm\<rparr>)"

definition stop_heart :: "daemon \<Rightarrow> daemon" where
  "stop_heart dm = dm\<lparr>dm_heart := False\<rparr>"

text \<open>The shard's \<open>.lock\<close>, which the caller holds, is dropped on every path, also when unwinding.\<close>

definition instantiate_shard ::
  "crates \<Rightarrow> io \<Rightarrow> clock \<Rightarrow> string \<Rightarrow> daemon \<times> queue_dir \<Rightarrow> daemon \<times> queue_dir" where
  "instantiate_shard C w clk s = (\<lambda>(dm, d).
     if hm_contains (dm_shards dm) s then (dm, drop_lock s d)
     else
       case store_new C w clk (sf_log (shard_dir s d)) of
         (Inl e, st) \<Rightarrow> (stop_heart dm, drop_lock s d)
       | (Inr u, st) \<Rightarrow>
           let d1 = drop_lock s d in
           (case new_with_shared_pools (\<not> sf_queue_lock (shard_dir s d1)) st (qd_limits d1) dm of
              None \<Rightarrow> (stop_heart dm, d1)
            | Some q \<Rightarrow>
                let q = q\<lparr>task_handlers := dm_handlers dm, max_retry_handlers := dm_max_handlers dm\<rparr>
                in (dm\<lparr>dm_shards := hm_insert s q (dm_shards dm)\<rparr>,
                    put_shard s ((shard_dir s d1)\<lparr>sf_queue_lock := True\<rparr>) d1)))"

section \<open>The heartbeat\<close>

text \<open>What the operating system answers in one heartbeat, per shard.\<close>

record beat_io =
  bi_load :: io
  bi_claim :: "string \<Rightarrow> io"
  bi_lock :: "string \<Rightarrow> io"
  bi_open :: "string \<Rightarrow> io"
  bi_revert :: "string \<Rightarrow> io"
  bi_clock :: "string \<Rightarrow> clock"

definition claim_one ::
  "crates \<Rightarrow> beat_io \<Rightarrow> string \<Rightarrow> instant \<Rightarrow> duration \<Rightarrow> daemon \<times> queue_dir \<times> string list \<Rightarrow> string \<Rightarrow>
   daemon \<times> queue_dir \<times> string list" where
  "claim_one C w pid now skew = (\<lambda>(dm, d, owned) s.
     if \<not> dm_heart dm then (dm, d, owned)
     else
       case claim_shard C (bi_claim w s) s (dm_owner dm) now skew (qd_members d) of
         (Inl e, f) \<Rightarrow> (dm, d\<lparr>qd_members := f\<rparr>, owned)
       | (Inr outcome, f) \<Rightarrow>
           (case try_lock_shard (bi_lock w s) pid s (d\<lparr>qd_members := f\<rparr>) of
              (Inr True, d2) \<Rightarrow>
                (case outcome of
                   Renewed \<Rightarrow> (dm, drop_lock s d2, owned @ [s])
                 | _ \<Rightarrow> (case instantiate_shard C (bi_open w s) (bi_clock w s) s (dm, d2) of
                          (dm', d3) \<Rightarrow> (dm', d3, owned @ [s])))
            | (_, d2) \<Rightarrow>
                (dm, d2\<lparr>qd_members :=
                   snd (revert_claim C (bi_revert w s) s (dm_owner dm) (qd_members d2))\<rparr>, owned)))"

definition reconcile_shards :: "string list \<Rightarrow> daemon \<Rightarrow> daemon" where
  "reconcile_shards owned dm = dm\<lparr>
     dm_shards := filter (\<lambda>(s, q). s \<in> set owned) (dm_shards dm),
     dm_lost := dm_lost dm @ filter (\<lambda>(s, q). s \<notin> set owned) (dm_shards dm)\<rparr>"

definition heartbeat ::
  "crates \<Rightarrow> beat_io \<Rightarrow> string \<Rightarrow> instant \<Rightarrow> duration \<Rightarrow> daemon \<times> queue_dir \<Rightarrow> daemon \<times> queue_dir" where
  "heartbeat C w pid now skew = (\<lambda>(dm, d).
     if \<not> dm_heart dm then (dm, d)
     else if dm_stop dm then (stop_heart dm, d)
     else
       let claimable = (case fst (load C (bi_load w) (qd_members d)) of
                          Inl e \<Rightarrow> [] | Inr m \<Rightarrow> claimable_shards m now skew (dm_owner dm));
           (dm', d', owned) = foldl (claim_one C w pid now skew) (dm, d, []) claimable
       in if dm_heart dm' then (reconcile_shards owned dm', d') else (dm', d'))"

section \<open>Using the shards\<close>

datatype sharded_error = Standby | No_Target | Shard_Error queue_error

definition at_log :: "string \<Rightarrow> queue_dir \<Rightarrow> queue \<Rightarrow> queue" where
  "at_log s d q = q\<lparr>q_store := (q_store q)\<lparr>log_file := sf_log (shard_dir s d)\<rparr>,
     q_limits := qd_limits d\<rparr>"

definition put_log :: "string \<Rightarrow> queue \<Rightarrow> queue_dir \<Rightarrow> queue_dir" where
  "put_log s q d =
     (put_shard s ((shard_dir s d)\<lparr>sf_log := log_file (q_store q)\<rparr>) d)\<lparr>qd_limits := q_limits q\<rparr>"

text \<open>
  \<open>owned\<close> are the keys of the map as read first, \<open>uuid\<close> is a fresh identifier; the map may have
  changed before it is read again.
\<close>

definition enqueue_routed ::
  "crates \<Rightarrow> io \<Rightarrow> string \<Rightarrow> string list \<Rightarrow> rtask \<Rightarrow> daemon \<times> queue_dir \<Rightarrow>
   (sharded_error + unit) option \<times> daemon \<times> queue_dir" where
  "enqueue_routed C w uuid owned t = (\<lambda>(dm, d).
     if owned = [] then (Some (Inl Standby), dm, d)
     else
       let t = (if task_id t = [] then t\<lparr>task_id := uuid\<rparr> else t) in
       case route_shard (task_id t) owned of
         None \<Rightarrow> (None, dm, d)
       | Some s \<Rightarrow>
           (case hm_get (dm_shards dm) s of
              None \<Rightarrow> (Some (Inl No_Target), dm, d)
            | Some q \<Rightarrow>
                (case enqueue C w t (at_log s d q) of
                   (r, q') \<Rightarrow>
                     (Some (case r of Inl e \<Rightarrow> Inl (Shard_Error e) | Inr u \<Rightarrow> Inr u),
                      dm\<lparr>dm_shards := hm_insert s q' (dm_shards dm)\<rparr>, put_log s q' d))))"

definition daemon_enqueue ::
  "crates \<Rightarrow> io \<Rightarrow> string \<Rightarrow> rtask \<Rightarrow> daemon \<times> queue_dir \<Rightarrow>
   (sharded_error + unit) option \<times> daemon \<times> queue_dir" where
  "daemon_enqueue C w uuid t = (\<lambda>(dm, d). enqueue_routed C w uuid (hm_keys (dm_shards dm)) t (dm, d))"

text \<open>An engine at work: it sees the shared pools, and its changes to them are seen by all.\<close>

definition engine_view :: "daemon \<Rightarrow> queue \<Rightarrow> queue" where
  "engine_view dm q =
     q\<lparr>worker_pools := dm_pools dm, shared_pqs := dm_pqs dm, dispatcher_counts := dm_counts dm\<rparr>"

definition put_engine :: "string \<Rightarrow> queue \<Rightarrow> daemon \<Rightarrow> daemon" where
  "put_engine s q dm =
     dm\<lparr>dm_shards := hm_insert s q (dm_shards dm), dm_pools := worker_pools q, dm_pqs := shared_pqs q,
       dm_counts := dispatcher_counts q\<rparr>"

definition engine_step :: "(queue \<Rightarrow> 'r \<times> queue) \<Rightarrow> string \<Rightarrow> daemon \<times> queue_dir \<Rightarrow> 'r option \<times> daemon \<times> queue_dir"
where
  "engine_step op s = (\<lambda>(dm, d).
     case hm_get (dm_shards dm) s of
       None \<Rightarrow> (None, dm, d)
     | Some q \<Rightarrow>
         (case op (engine_view dm (at_log s d q)) of
            (r, q') \<Rightarrow> (Some r, put_engine s q' dm, put_log s q' d)))"

text \<open>
  \<open>shutdown\<close>, once the processors have seen their stop flags and the dispatchers have run dry: only
  then the clones are gone and the locks on \<open>tasks.log.lock\<close> with them. The engines in \<open>dm_lost\<close> are not reached.
\<close>

definition release_queue_lock :: "queue_dir \<Rightarrow> string \<Rightarrow> queue_dir" where
  "release_queue_lock d s = put_shard s ((shard_dir s d)\<lparr>sf_queue_lock := False\<rparr>) d"

definition shutdown :: "daemon \<times> queue_dir \<Rightarrow> daemon \<times> queue_dir" where
  "shutdown = (\<lambda>(dm, d).
     (dm\<lparr>dm_stop := True, dm_shards := []\<rparr>, foldl release_queue_lock d (hm_keys (dm_shards dm))))"

section \<open>One claim\<close>

definition healthy :: "beat_io \<Rightarrow> bool" where
  "healthy w \<longleftrightarrow> bi_load w = Io_Ok \<and>
     (\<forall>s. bi_claim w s = Io_Ok \<and> bi_lock w s = Io_Ok \<and> bi_open w s = Io_Ok \<and> bi_revert w s = Io_Ok)"

lemma lock_taken_free [simp]: "\<not> lock_taken (Some \<lparr>lf_text = t, lf_held = False\<rparr>)"
  by (simp add: lock_taken_def)

lemma lock_and_drop:
  assumes "\<not> lock_taken (sf_lock (shard_dir s d))"
  obtains d2 where "try_lock_shard Io_Ok pid s d = (Inr True, d2)"
    "shard_dir s d2 = (shard_dir s d)\<lparr>sf_lock := Some \<lparr>lf_text = pid, lf_held = True\<rparr>\<rparr>"
    "shard_dir s (drop_lock s d2) = (shard_dir s d)\<lparr>sf_lock := Some \<lparr>lf_text = pid, lf_held = False\<rparr>\<rparr>"
    "\<And>s'. s' \<noteq> s \<Longrightarrow> shard_dir s' d2 = shard_dir s' d"
    "\<And>s'. s' \<noteq> s \<Longrightarrow> shard_dir s' (drop_lock s d2) = shard_dir s' d"
    "qd_members d2 = qd_members d" "qd_members (drop_lock s d2) = qd_members d" "qd_limits (drop_lock s d2) = qd_limits d"
proof -
  have "\<exists>d2. try_lock_shard Io_Ok pid s d = (Inr True, d2) \<and>
      shard_dir s d2 = (shard_dir s d)\<lparr>sf_lock := Some \<lparr>lf_text = pid, lf_held = True\<rparr>\<rparr> \<and>
      (\<forall>s'. s' \<noteq> s \<longrightarrow> shard_dir s' d2 = shard_dir s' d) \<and> qd_members d2 = qd_members d \<and> qd_limits d2 = qd_limits d"
    using assms by (cases "sf_lock (shard_dir s d)") (auto simp: try_lock_shard_def Let_def lock_taken_def)
  then show ?thesis using that by (auto simp: drop_lock_def)
qed

text \<open>What a claim that succeeds leaves of the directory before an engine is started.\<close>

definition claimed_dir :: "crates \<Rightarrow> string \<Rightarrow> string \<Rightarrow> membership \<Rightarrow> queue_dir \<Rightarrow> queue_dir \<Rightarrow> bool" where
  "claimed_dir C pid s m d d' \<longleftrightarrow>
     read_unlocked C (qd_members d') = Inr m \<and>
     shard_dir s d' = (shard_dir s d)\<lparr>sf_lock := Some \<lparr>lf_text = pid, lf_held = False\<rparr>\<rparr> \<and>
     (\<forall>s'. s' \<noteq> s \<longrightarrow> shard_dir s' d' = shard_dir s' d) \<and> qd_limits d' = qd_limits d"

lemma claim_one_ok:
  assumes "serde_ok C" "healthy w" "dm_heart dm" "read_unlocked C (qd_members d) = Inr m"
    and "claim_step s (dm_owner dm) now skew m = Inr (out, m1)" "\<not> lock_taken (sf_lock (shard_dir s d))"
  obtains d2 where "claimed_dir C pid s (next_version m1) d (drop_lock s d2)"
    "sf_log (shard_dir s d2) = sf_log (shard_dir s d)"
    "claim_one C w pid now skew (dm, d, owned) s =
       (case out of
          Renewed \<Rightarrow> (dm, drop_lock s d2, owned @ [s])
        | _ \<Rightarrow> (case instantiate_shard C (bi_open w s) (bi_clock w s) s (dm, d2) of
                 (dm', d3) \<Rightarrow> (dm', d3, owned @ [s])))"
proof -
  have io: "bi_claim w s = Io_Ok" "bi_lock w s = Io_Ok" using assms(2) by (simp_all add: healthy_def)
  obtain r f where c: "claim_shard C Io_Ok s (dm_owner dm) now skew (qd_members d) = (r, f)" by fastforce
  have r: "r = Inr out" "read_unlocked C f = Inr (next_version m1)"
    using claiming.mutate_reads [OF assms(1,4,5)] c by (simp_all add: claim_shard_def)
  obtain d2 where d2: "try_lock_shard Io_Ok pid s (d\<lparr>qd_members := f\<rparr>) = (Inr True, d2)"
    "shard_dir s d2 = (shard_dir s d)\<lparr>sf_lock := Some \<lparr>lf_text = pid, lf_held = True\<rparr>\<rparr>"
    "shard_dir s (drop_lock s d2) = (shard_dir s d)\<lparr>sf_lock := Some \<lparr>lf_text = pid, lf_held = False\<rparr>\<rparr>"
    "\<And>s'. s' \<noteq> s \<Longrightarrow> shard_dir s' (drop_lock s d2) = shard_dir s' d"
    "qd_members (drop_lock s d2) = f" "qd_limits (drop_lock s d2) = qd_limits d"
    by (rule lock_and_drop [of s "d\<lparr>qd_members := f\<rparr>" pid]) (use assms(6) in auto)
  show ?thesis
  proof
    show "claimed_dir C pid s (next_version m1) d (drop_lock s d2)"
      using d2(3,5,6) d2(4) r(2) by (simp add: claimed_dir_def)
    show "sf_log (shard_dir s d2) = sf_log (shard_dir s d)" by (simp add: d2(2))
    show "claim_one C w pid now skew (dm, d, owned) s =
       (case out of
          Renewed \<Rightarrow> (dm, drop_lock s d2, owned @ [s])
        | _ \<Rightarrow> (case instantiate_shard C (bi_open w s) (bi_clock w s) s (dm, d2) of
                 (dm', d3) \<Rightarrow> (dm', d3, owned @ [s])))"
      using assms(3) d2(1) c r(1) by (simp add: claim_one_def io)
  qed
qed

lemma claim_step_own:
  "hm_get (claims m) s = Some c \<Longrightarrow> owner c = me \<Longrightarrow>
   claim_step s me now skew m = Inr (Renewed, put_claim s me (now + nanos lease_duration_secs) m)"
  by (simp add: claim_step_def Let_def)

lemma claim_step_free:
  "hm_get (claims m) s = None \<Longrightarrow>
   claim_step s me now skew m = Inr (Claimed, put_claim s me (now + nanos lease_duration_secs) m)"
  by (simp add: claim_step_def Let_def)

lemma put_claim_simps [simp]:
  "claims (put_claim s me e m) = hm_insert s \<lparr>owner = me, lease_expiry = e\<rparr> (claims m)"
  "ms_shards (put_claim s me e m) = ms_shards m"
  by (simp_all add: put_claim_def)

lemma next_version_shards [simp]: "ms_shards (next_version m) = ms_shards m"
  by (simp add: next_version_def)

section \<open>A daemon that only renews\<close>

text \<open>Every shard is claimed by \<open>me\<close>, and no \<open>.lock\<close> is held.\<close>

definition all_mine :: "crates \<Rightarrow> string \<Rightarrow> u32 \<Rightarrow> queue_dir \<Rightarrow> bool" where
  "all_mine C me n d \<longleftrightarrow>
     (\<exists>m. read_unlocked C (qd_members d) = Inr m \<and> ms_shards m = n \<and>
        (\<forall>i < unat n. \<exists>c. hm_get (claims m) (shard_key i) = Some c \<and> owner c = me)) \<and>
     (\<forall>s. \<not> lock_taken (sf_lock (shard_dir s d)))"

definition leases_until :: "crates \<Rightarrow> string \<Rightarrow> string set \<Rightarrow> instant \<Rightarrow> queue_dir \<Rightarrow> bool" where
  "leases_until C me S e d \<longleftrightarrow>
     (\<exists>m. read_unlocked C (qd_members d) = Inr m \<and>
        (\<forall>s \<in> S. hm_get (claims m) s = Some \<lparr>owner = me, lease_expiry = e\<rparr>))"

lemma claim_one_renews:
  assumes "serde_ok C" "healthy w" "dm_heart dm" "all_mine C (dm_owner dm) n d" "i < unat n"
    and "leases_until C (dm_owner dm) S (now + nanos lease_duration_secs) d"
  obtains d' where "claim_one C w pid now skew (dm, d, owned) (shard_key i) = (dm, d', owned @ [shard_key i])"
    "all_mine C (dm_owner dm) n d'"
    "leases_until C (dm_owner dm) (insert (shard_key i) S) (now + nanos lease_duration_secs) d'"
proof -
  let ?s = "shard_key i" and ?e = "now + nanos lease_duration_secs"
  obtain m where m: "read_unlocked C (qd_members d) = Inr m" "ms_shards m = n"
    "\<And>j. j < unat n \<Longrightarrow> \<exists>c. hm_get (claims m) (shard_key j) = Some c \<and> owner c = dm_owner dm"
    and l: "\<And>s. \<not> lock_taken (sf_lock (shard_dir s d))"
    using assms(4) by (auto simp: all_mine_def)
  obtain c where c: "hm_get (claims m) ?s = Some c" "owner c = dm_owner dm" using m(3) [OF assms(5)] by blast
  obtain d2 where d2: "claimed_dir C pid ?s (next_version (put_claim ?s (dm_owner dm) ?e m)) d (drop_lock ?s d2)"
    "claim_one C w pid now skew (dm, d, owned) ?s = (dm, drop_lock ?s d2, owned @ [?s])"
    using claim_one_ok [OF assms(1-3) m(1) claim_step_own [OF c] l] by (metis claim_outcome.simps(9))
  have "all_mine C (dm_owner dm) n (drop_lock ?s d2)"
  proof -
    let ?m = "next_version (put_claim ?s (dm_owner dm) ?e m)"
    have "read_unlocked C (qd_members (drop_lock ?s d2)) = Inr ?m"
      using d2(1) by (simp add: claimed_dir_def)
    moreover have "ms_shards ?m = n" using m(2) by simp
    moreover have "\<forall>j < unat n. \<exists>c. hm_get (claims ?m) (shard_key j) = Some c \<and> owner c = dm_owner dm"
      using m(3) by (auto simp: shard_key_inj)
    moreover have "\<not> lock_taken (sf_lock (shard_dir s (drop_lock ?s d2)))" for s
      using d2(1) l by (cases "s = ?s") (simp_all add: claimed_dir_def)
    ultimately show ?thesis unfolding all_mine_def by blast
  qed
  moreover have "leases_until C (dm_owner dm) (insert ?s S) ?e (drop_lock ?s d2)"
    using d2(1) assms(6) m(1) by (auto simp: leases_until_def claimed_dir_def)
  ultimately show ?thesis using that d2(2) by blast
qed

lemma fold_renews:
  assumes "serde_ok C" "healthy w" "dm_heart dm" "all_mine C (dm_owner dm) n d" "\<forall>i \<in> set is. i < unat n"
    and "leases_until C (dm_owner dm) S (now + nanos lease_duration_secs) d"
  shows "\<exists>d'. foldl (claim_one C w pid now skew) (dm, d, owned) (map shard_key is) =
      (dm, d', owned @ map shard_key is) \<and> all_mine C (dm_owner dm) n d' \<and>
    leases_until C (dm_owner dm) (S \<union> shard_key ` set is) (now + nanos lease_duration_secs) d'"
  using assms(4-6)
proof (induction "is" arbitrary: d owned S)
  case (Cons i "is")
  obtain d' where d': "claim_one C w pid now skew (dm, d, owned) (shard_key i) = (dm, d', owned @ [shard_key i])"
    "all_mine C (dm_owner dm) n d'"
    "leases_until C (dm_owner dm) (insert (shard_key i) S) (now + nanos lease_duration_secs) d'"
    using claim_one_renews [OF assms(1-3) Cons.prems(1) _ Cons.prems(3)] Cons.prems(2) by (metis list.set_intros(1))
  then show ?case
    using Cons.IH [OF d'(2) _ d'(3), of "owned @ [shard_key i]"] Cons.prems(2) by simp
qed simp

lemma renewing_heartbeat:
  assumes "serde_ok C" "healthy w" "dm_heart dm" "\<not> dm_stop dm" "dm_shards dm = []"
    and "all_mine C (dm_owner dm) n d"
  obtains d' where "heartbeat C w pid now skew (dm, d) = (dm, d')" "all_mine C (dm_owner dm) n d'"
    "leases_until C (dm_owner dm) (shard_key ` {..< unat n}) (now + nanos lease_duration_secs) d'"
proof -
  obtain m where m: "read_unlocked C (qd_members d) = Inr m" "ms_shards m = n"
    "\<forall>j < unat n. \<exists>c. hm_get (claims m) (shard_key j) = Some c \<and> owner c = dm_owner dm"
    using assms(6) by (auto simp: all_mine_def)
  have ld: "fst (load C (bi_load w) (qd_members d)) = Inr m"
    using assms(2) m(1) by (simp add: healthy_def load_def with_lock_def)
  have cl: "claimable_shards m now skew (dm_owner dm) = map shard_key [0..<unat n]"
    using m(2,3) by (fastforce simp: claimable_shards_def filter_id_conv)
  have "leases_until C (dm_owner dm) {} (now + nanos lease_duration_secs) d"
    using m(1) by (simp add: leases_until_def)
  from fold_renews [OF assms(1-3,6) _ this, of "[0..<unat n]" pid skew "[]"]
  obtain d' where d': "foldl (claim_one C w pid now skew) (dm, d, []) (map shard_key [0..<unat n]) =
      (dm, d', map shard_key [0..<unat n])" "all_mine C (dm_owner dm) n d'"
    "leases_until C (dm_owner dm) (shard_key ` {..< unat n}) (now + nanos lease_duration_secs) d'"
    by (auto simp: atLeast0LessThan)
  have "reconcile_shards owned dm = dm" for owned
    using assms(5) by (simp add: reconcile_shards_def)
  then have "heartbeat C w pid now skew (dm, d) = (dm, d')"
    using assms(3,4) ld cl d'(1) by (simp add: heartbeat_def)
  then show ?thesis using that d'(2,3) by blast
qed

definition heartbeats ::
  "crates \<Rightarrow> string \<Rightarrow> duration \<Rightarrow> (beat_io \<times> instant) list \<Rightarrow> daemon \<times> queue_dir \<Rightarrow> daemon \<times> queue_dir" where
  "heartbeats C pid skew beats x = foldl (\<lambda>x (w, now). heartbeat C w pid now skew x) x beats"

lemma renewing_heartbeats:
  assumes "serde_ok C" "\<forall>(w, now) \<in> set beats. healthy w" "dm_heart dm" "\<not> dm_stop dm" "dm_shards dm = []"
    and "all_mine C (dm_owner dm) n d"
  shows "\<exists>d'. heartbeats C pid skew beats (dm, d) = (dm, d') \<and> all_mine C (dm_owner dm) n d' \<and>
    (beats \<noteq> [] \<longrightarrow> leases_until C (dm_owner dm) (shard_key ` {..< unat n})
       (snd (last beats) + nanos lease_duration_secs) d')"
  using assms(2)
proof (induction beats rule: rev_induct)
  case Nil
  then show ?case using assms(6) by (simp add: heartbeats_def)
next
  case (snoc b beats)
  obtain w now where b: "b = (w, now)" by fastforce
  then have w: "healthy w" using snoc.prems by simp
  obtain d1 where d1: "heartbeats C pid skew beats (dm, d) = (dm, d1)" "all_mine C (dm_owner dm) n d1"
    using snoc by auto
  obtain d' where "heartbeat C w pid now skew (dm, d1) = (dm, d')" "all_mine C (dm_owner dm) n d'"
    "leases_until C (dm_owner dm) (shard_key ` {..< unat n}) (now + nanos lease_duration_secs) d'"
    using renewing_heartbeat [OF assms(1) w assms(3-5) d1(2)] .
  then show ?case using d1(1) b by (simp add: heartbeats_def)
qed


section \<open>Starting engines\<close>

lemma store_new_opens: "fst (store_new C Io_Ok clk f) = Inr ()"
  by (cases f) (simp_all add: store_new_def rebuild_metadata_def split: prod.split)

definition fresh_engine :: "crates \<Rightarrow> beat_io \<Rightarrow> daemon \<Rightarrow> string \<Rightarrow> queue_dir \<Rightarrow> queue" where
  "fresh_engine C w dm s d =
     (let st = snd (store_new C Io_Ok (bi_clock w s) (sf_log (shard_dir s d)))
      in \<lparr>q_store = st, q_limits = qd_limits d, task_handlers = dm_handlers dm,
          max_retry_handlers = dm_max_handlers dm, active_hashes = store_hashes st, executing_tasks = {},
          queued_tasks = {}, completed_tasks = [], worker_pools = dm_pools dm, shared_pqs = dm_pqs dm,
          dispatcher_counts = dm_counts dm\<rparr>)"

lemma instantiate_starts:
  assumes "healthy w" "\<not> hm_contains (dm_shards dm) s" "\<not> sf_queue_lock (shard_dir s (drop_lock s d))"
    and "sf_log (shard_dir s (drop_lock s d)) = sf_log (shard_dir s d)"
  shows "instantiate_shard C (bi_open w s) (bi_clock w s) s (dm, d) =
    (dm\<lparr>dm_shards := hm_insert s (fresh_engine C w dm s (drop_lock s d)) (dm_shards dm)\<rparr>,
     put_shard s ((shard_dir s (drop_lock s d))\<lparr>sf_queue_lock := True\<rparr>) (drop_lock s d))"
proof -
  have "bi_open w s = Io_Ok" using assms(1) by (simp add: healthy_def)
  moreover obtain st where "store_new C Io_Ok (bi_clock w s) (sf_log (shard_dir s d)) = (Inr (), st)"
    using store_new_opens by (metis prod.collapse)
  ultimately show ?thesis
    using assms(2-4) by (simp add: instantiate_shard_def new_with_shared_pools_def fresh_engine_def Let_def)
qed

text \<open>A shard that nobody claims and nobody works on.\<close>

definition idle_shard :: "membership \<Rightarrow> queue_dir \<Rightarrow> daemon \<Rightarrow> string \<Rightarrow> bool" where
  "idle_shard m d dm s \<longleftrightarrow>
     hm_get (claims m) s = None \<and> \<not> lock_taken (sf_lock (shard_dir s d)) \<and>
     \<not> sf_queue_lock (shard_dir s d) \<and> \<not> hm_contains (dm_shards dm) s"

text \<open>A shard that the daemon has taken over from the directory \<open>d0\<close> and runs an engine for.\<close>

definition served_shard ::
  "crates \<Rightarrow> beat_io \<Rightarrow> instant \<Rightarrow> queue_dir \<Rightarrow> membership \<Rightarrow> queue_dir \<Rightarrow> daemon \<Rightarrow> string \<Rightarrow> bool" where
  "served_shard C w now d0 m d dm s \<longleftrightarrow>
     hm_get (claims m) s = Some \<lparr>owner = dm_owner dm, lease_expiry = now + nanos lease_duration_secs\<rparr> \<and>
     hm_get (dm_shards dm) s = Some (fresh_engine C w dm s d0) \<and>
     sf_log (shard_dir s d) = sf_log (shard_dir s d0) \<and> sf_queue_lock (shard_dir s d) \<and>
     \<not> lock_taken (sf_lock (shard_dir s d))"

lemma fresh_engine_cong:
  "dm_handlers dm' = dm_handlers dm \<Longrightarrow> dm_max_handlers dm' = dm_max_handlers dm \<Longrightarrow>
   dm_pools dm' = dm_pools dm \<Longrightarrow> dm_pqs dm' = dm_pqs dm \<Longrightarrow> dm_counts dm' = dm_counts dm \<Longrightarrow>
   sf_log (shard_dir s d') = sf_log (shard_dir s d) \<Longrightarrow> qd_limits d' = qd_limits d \<Longrightarrow>
   fresh_engine C w dm' s d' = fresh_engine C w dm s d"
  by (simp add: fresh_engine_def Let_def)

lemma claim_one_starts:
  assumes "serde_ok C" "healthy w" "dm_heart dm" "read_unlocked C (qd_members d) = Inr m" "idle_shard m d dm s"
  obtains d' m' where
    "claim_one C w pid now skew (dm, d, owned) s =
       (dm\<lparr>dm_shards := hm_insert s (fresh_engine C w dm s d) (dm_shards dm)\<rparr>, d', owned @ [s])"
    "read_unlocked C (qd_members d') = Inr m'" "ms_shards m' = ms_shards m"
    "\<And>s'. hm_get (claims m') s' = (if s' = s then
        Some \<lparr>owner = dm_owner dm, lease_expiry = now + nanos lease_duration_secs\<rparr> else hm_get (claims m) s')"
    "shard_dir s d' = (shard_dir s d)\<lparr>sf_lock := Some \<lparr>lf_text = pid, lf_held = False\<rparr>, sf_queue_lock := True\<rparr>"
    "\<And>s'. s' \<noteq> s \<Longrightarrow> shard_dir s' d' = shard_dir s' d" "qd_limits d' = qd_limits d"
proof -
  let ?e = "now + nanos lease_duration_secs"
  have i: "hm_get (claims m) s = None" "\<not> lock_taken (sf_lock (shard_dir s d))"
    "\<not> sf_queue_lock (shard_dir s d)" "\<not> hm_contains (dm_shards dm) s"
    using assms(5) by (simp_all add: idle_shard_def)
  obtain d2 where d2: "claimed_dir C pid s (next_version (put_claim s (dm_owner dm) ?e m)) d (drop_lock s d2)"
    "sf_log (shard_dir s d2) = sf_log (shard_dir s d)"
    "claim_one C w pid now skew (dm, d, owned) s =
      (case instantiate_shard C (bi_open w s) (bi_clock w s) s (dm, d2) of (dm', d3) \<Rightarrow> (dm', d3, owned @ [s]))"
    using claim_one_ok [OF assms(1-4) claim_step_free [OF i(1)] i(2), where pid = pid and owned = owned]
    by (metis claim_outcome.simps(8))
  let ?x = "shard_dir s (drop_lock s d2)"
  have x: "?x = (shard_dir s d)\<lparr>sf_lock := Some \<lparr>lf_text = pid, lf_held = False\<rparr>\<rparr>"
    using d2(1) by (simp add: claimed_dir_def)
  then have "instantiate_shard C (bi_open w s) (bi_clock w s) s (dm, d2) =
      (dm\<lparr>dm_shards := hm_insert s (fresh_engine C w dm s (drop_lock s d2)) (dm_shards dm)\<rparr>,
       put_shard s (?x\<lparr>sf_queue_lock := True\<rparr>) (drop_lock s d2))"
    using i(3,4) d2(2) by (intro instantiate_starts [OF assms(2)]) simp_all
  moreover have "fresh_engine C w dm s (drop_lock s d2) = fresh_engine C w dm s d"
    by (rule fresh_engine_cong) (use d2(1) in \<open>simp_all add: x claimed_dir_def\<close>)
  ultimately show ?thesis
    using that [of "put_shard s (?x\<lparr>sf_queue_lock := True\<rparr>) (drop_lock s d2)"
        "next_version (put_claim s (dm_owner dm) ?e m)"] d2(1,3) x
    by (simp add: claimed_dir_def)
qed

text \<open>Over the shards \<open>ps\<close>, from the daemon \<open>dm0\<close>, the directory \<open>d0\<close> and its membership \<open>m0\<close>.\<close>

definition started ::
  "crates \<Rightarrow> beat_io \<Rightarrow> instant \<Rightarrow> daemon \<Rightarrow> queue_dir \<Rightarrow> membership \<Rightarrow> string list \<Rightarrow> daemon \<Rightarrow> queue_dir \<Rightarrow> bool"
where
  "started C w now dm0 d0 m0 ps dm d \<longleftrightarrow>
     (\<exists>m M. dm = dm0\<lparr>dm_shards := M\<rparr> \<and> read_unlocked C (qd_members d) = Inr m \<and> ms_shards m = ms_shards m0 \<and>
        (\<forall>s \<in> set ps. served_shard C w now d0 m d dm s) \<and>
        (\<forall>s. s \<notin> set ps \<longrightarrow> hm_get (claims m) s = hm_get (claims m0) s \<and>
           shard_dir s d = shard_dir s d0 \<and> hm_get M s = hm_get (dm_shards dm0) s) \<and> qd_limits d = qd_limits d0)"

lemma started_step:
  assumes "serde_ok C" "healthy w" "dm_heart dm0" "started C w now dm0 d0 m0 ps dm d"
    and "idle_shard m0 d0 dm0 s" "s \<notin> set ps"
  shows "\<exists>dm' d'. claim_one C w pid now skew (dm, d, owned) s = (dm', d', owned @ [s]) \<and>
    started C w now dm0 d0 m0 (ps @ [s]) dm' d'"
proof -
  obtain m M where dm: "dm = dm0\<lparr>dm_shards := M\<rparr>" and m: "read_unlocked C (qd_members d) = Inr m"
    "ms_shards m = ms_shards m0" and served: "\<And>s'. s' \<in> set ps \<Longrightarrow> served_shard C w now d0 m d dm s'"
    and todo: "\<And>s'. s' \<notin> set ps \<Longrightarrow> hm_get (claims m) s' = hm_get (claims m0) s' \<and>
      shard_dir s' d = shard_dir s' d0 \<and> hm_get M s' = hm_get (dm_shards dm0) s'" and lim: "qd_limits d = qd_limits d0"
    using assms(4) unfolding started_def by blast
  have "idle_shard m d dm s"
    using assms(5) todo [OF assms(6)] dm by (simp add: idle_shard_def hm_contains_get)
  moreover have "dm_heart dm" using assms(3) dm by simp
  ultimately obtain d' m' where c: "claim_one C w pid now skew (dm, d, owned) s =
       (dm\<lparr>dm_shards := hm_insert s (fresh_engine C w dm s d) (dm_shards dm)\<rparr>, d', owned @ [s])"
    "read_unlocked C (qd_members d') = Inr m'" "ms_shards m' = ms_shards m"
    and cl: "\<And>s'. hm_get (claims m') s' = (if s' = s then
        Some \<lparr>owner = dm_owner dm, lease_expiry = now + nanos lease_duration_secs\<rparr> else hm_get (claims m) s')"
    and sd: "shard_dir s d' = (shard_dir s d)\<lparr>sf_lock := Some \<lparr>lf_text = pid, lf_held = False\<rparr>, sf_queue_lock := True\<rparr>"
    and od: "\<And>s'. s' \<noteq> s \<Longrightarrow> shard_dir s' d' = shard_dir s' d" and ol: "qd_limits d' = qd_limits d"
    using claim_one_starts [OF assms(1,2) _ m(1)] by metis
  let ?M = "hm_insert s (fresh_engine C w dm s d) M"
  let ?dm = "dm0\<lparr>dm_shards := ?M\<rparr>"
  have e: "fresh_engine C w (dm0\<lparr>dm_shards := N\<rparr>) s' x = fresh_engine C w dm0 s' x" for N s' x
    by (rule fresh_engine_cong) simp_all
  have e0: "fresh_engine C w dm0 s d = fresh_engine C w dm0 s d0"
    by (rule fresh_engine_cong) (simp_all add: todo [OF assms(6)] lim)
  have "served_shard C w now d0 m' d' ?dm s'" if "s' \<in> set (ps @ [s])" for s'
  proof (cases "s' = s")
    case True
    then show ?thesis
      using todo [OF assms(6)] by (simp add: served_shard_def cl sd dm e e0)
  next
    case False
    then show ?thesis
      using served [of s'] that od [OF False] by (simp add: served_shard_def cl dm e)
  qed
  moreover have "hm_get (claims m') s' = hm_get (claims m0) s' \<and> shard_dir s' d' = shard_dir s' d0 \<and>
      hm_get ?M s' = hm_get (dm_shards dm0) s'" if "s' \<notin> set (ps @ [s])" for s'
    using todo [of s'] od [of s'] that by (simp add: cl)
  ultimately have "started C w now dm0 d0 m0 (ps @ [s]) ?dm d'"
    unfolding started_def using c(2,3) m(2) lim ol by (intro exI [of _ m'] exI [of _ ?M]) simp
  then show ?thesis using c(1) dm by (intro exI [of _ ?dm] exI [of _ d']) simp
qed

lemma fold_starts:
  assumes "serde_ok C" "healthy w" "dm_heart dm0" "\<forall>s \<in> set ss. idle_shard m0 d0 dm0 s"
    and "distinct ss" "started C w now dm0 d0 m0 ps dm d" "set ps \<inter> set ss = {}"
  shows "\<exists>dm' d'. foldl (claim_one C w pid now skew) (dm, d, owned) ss = (dm', d', owned @ ss) \<and>
    started C w now dm0 d0 m0 (ps @ ss) dm' d'"
  using assms(4-7)
proof (induction ss arbitrary: ps dm d owned)
  case (Cons s ss)
  obtain dm' d' where c: "claim_one C w pid now skew (dm, d, owned) s = (dm', d', owned @ [s])"
    "started C w now dm0 d0 m0 (ps @ [s]) dm' d'"
    using started_step [OF assms(1-3) Cons.prems(3), of s pid skew owned] Cons.prems(1,4) by auto
  show ?case
    using Cons.IH [OF _ _ c(2), of "owned @ [s]"] Cons.prems c(1) by auto
qed auto

text \<open>
  Property C16: The first heartbeat of a daemon on a directory whose shards are all unclaimed and
  idle starts an engine for every shard: its leases run for 30 seconds from the heartbeat, each engine has
  loaded the shard's log and has the handlers registered so far, no log is changed, and the
  daemon lives on. Every engine holds the lock of \<open>tasks.log.lock\<close>; the shard's \<open>.lock\<close>, which the
  sources call the lock for the engine's lifetime, is free again.
\<close>

theorem first_heartbeat_starts_all:
  assumes "serde_ok C" "healthy w" "dm_heart dm" "\<not> dm_stop dm" "dm_shards dm = []"
    and "read_unlocked C (qd_members d) = Inr m"
    and "\<forall>i < unat (ms_shards m). idle_shard m d dm (shard_key i)"
  shows "\<exists>dm' d' m'. heartbeat C w pid now skew (dm, d) = (dm', d') \<and> dm_heart dm' \<and> dm_lost dm' = dm_lost dm \<and>
    set (hm_keys (dm_shards dm')) = shard_key ` {..< unat (ms_shards m)} \<and>
    read_unlocked C (qd_members d') = Inr m' \<and>
    (\<forall>i < unat (ms_shards m). served_shard C w now d m' d' dm' (shard_key i))"
proof -
  let ?ss = "map shard_key [0..<unat (ms_shards m)]"
  have ld: "fst (load C (bi_load w) (qd_members d)) = Inr m"
    using assms(2,6) by (simp add: healthy_def load_def with_lock_def)
  have cl: "claimable_shards m now skew (dm_owner dm) = ?ss"
    using assms(7) by (auto simp: claimable_shards_def filter_id_conv idle_shard_def)
  have st: "started C w now dm d m [] dm d"
    unfolding started_def using assms(6) by (intro exI [of _ m] exI [of _ "dm_shards dm"]) simp
  have di: "distinct ?ss" by (auto simp: distinct_map inj_on_def shard_key_inj)
  have idle: "\<forall>s \<in> set ?ss. idle_shard m d dm s" using assms(7) by auto
  obtain dm' d' where f: "foldl (claim_one C w pid now skew) (dm, d, []) ?ss = (dm', d', ?ss)"
    "started C w now dm d m ?ss dm' d'"
    using fold_starts [OF assms(1-3) idle di st, of pid skew "[]"] by auto
  then obtain m' M where s: "dm' = dm\<lparr>dm_shards := M\<rparr>" "read_unlocked C (qd_members d') = Inr m'"
    "\<forall>s \<in> set ?ss. served_shard C w now d m' d' dm' s" "\<forall>s. s \<notin> set ?ss \<longrightarrow> hm_get M s = None"
    using assms(5) unfolding started_def by auto
  have keys: "set (hm_keys M) = set ?ss"
    using s(1,3,4) by (auto simp: set_hm_keys dom_def served_shard_def)
  have "x \<in> set ?ss" if "(x, q) \<in> set M" for x q
    using that keys by (force simp: hm_keys_def)
  then have "reconcile_shards ?ss dm' = dm'"
    using s(1) by (auto simp: reconcile_shards_def filter_id_conv filter_empty_conv intro!: daemon.equality)
  then have "heartbeat C w pid now skew (dm, d) = (dm', d')"
    using assms(3,4) ld cl f(1) s(1) by (simp add: heartbeat_def)
  moreover have "set (hm_keys (dm_shards dm')) = shard_key ` {..< unat (ms_shards m)}"
    using keys s(1) by (simp add: atLeast0LessThan)
  ultimately show ?thesis using assms(3) s(1-3) by (intro exI [of _ dm'] exI [of _ d'] exI [of _ m']) simp
qed

section \<open>Enqueueing into a shard\<close>

text \<open>The result of an enqueue that went to the engine of shard \<open>s\<close> and nowhere else.\<close>

definition enqueued_at ::
  "crates \<Rightarrow> io \<Rightarrow> rtask \<Rightarrow> string \<Rightarrow> daemon \<times> queue_dir \<Rightarrow> (sharded_error + unit) option \<times> daemon \<times> queue_dir \<Rightarrow> bool"
where
  "enqueued_at C w t s = (\<lambda>(dm, d) (r, dm', d').
     \<exists>q q' r'. hm_get (dm_shards dm) s = Some q \<and> enqueue C w t (at_log s d q) = (r', q') \<and>
       r = Some (case r' of Inl e \<Rightarrow> Inl (Shard_Error e) | Inr u \<Rightarrow> Inr u) \<and>
       hm_get (dm_shards dm') s = Some q' \<and> sf_log (shard_dir s d') = log_file (q_store q') \<and>
       qd_members d' = qd_members d \<and>
       (\<forall>s'. s' \<noteq> s \<longrightarrow> hm_get (dm_shards dm') s' = hm_get (dm_shards dm) s' \<and> shard_dir s' d' = shard_dir s' d))"

lemma put_log_simps [simp]:
  "shard_dir s' (put_log s q d) = (if s' = s then (shard_dir s d)\<lparr>sf_log := log_file (q_store q)\<rparr>
     else shard_dir s' d)"
  "qd_members (put_log s q d) = qd_members d"
  by (simp_all add: put_log_def)

lemma enqueue_routed_at:
  assumes "task_id t \<noteq> []" "route_shard (task_id t) owned = Some s" "hm_contains (dm_shards dm) s"
  shows "enqueued_at C w t s (dm, d) (enqueue_routed C w uuid owned t (dm, d))"
proof -
  obtain q where q: "hm_get (dm_shards dm) s = Some q" using assms(3) by (auto simp: hm_contains_get)
  obtain r' q' where "enqueue C w t (at_log s d q) = (r', q')" by fastforce
  moreover have "owned \<noteq> []" using assms(2) by (auto simp: route_shard_def)
  ultimately show ?thesis using assms(1,2) q by (simp add: enqueued_at_def enqueue_routed_def)
qed

lemma reorder_map:
  assumes "hm_ok M" "mset ks = mset (hm_keys M)"
  shows "\<exists>M'. mset M' = mset M \<and> hm_keys M' = ks \<and> hm_get M' = hm_get M"
proof -
  let ?f = "\<lambda>k. (k, the (map_of M k))"
  have "map ?f (map fst M) = M"
    using assms(1) by (auto simp: hm_ok_def comp_def intro!: map_idI)
  then have m: "mset (map ?f ks) = mset M"
    using assms(2) by (metis hm_keys_def mset_map)
  have k: "hm_keys (map ?f ks) = ks" by (simp add: hm_keys_def comp_def)
  have "map_of (map ?f ks) = map_of M"
  proof (subst map_of_inject_set)
    show "distinct (map fst (map ?f ks))"
      using assms mset_eq_imp_distinct_iff [OF assms(2)] by (simp add: hm_ok_def hm_keys_def comp_def)
    show "set (map ?f ks) = set M" using mset_eq_setD [OF m] .
  qed (use assms(1) in \<open>simp add: hm_ok_def\<close>)
  then show ?thesis using m k by (intro exI [of _ "map ?f ks"]) (simp add: hm_get_def fun_eq_iff)
qed

text \<open>
  Property C23: A daemon that owns shards enqueues a task with an id into exactly one of them, the one at
  position \<open>fnv1a64 mod length\<close> of its map's key order: that engine's \<open>enqueue\<close> decides and is written to
  that shard's log, all other shards and \<open>membership.json\<close> stay as they are; with no shard the task is refused. The
  routing is not stable, though: a hash map's order is left open, and for every owned shard there is an order
  of the same map that sends the same id there, so the same id can be live in several shards.
\<close>

theorem daemon_enqueue_routes:
  assumes "task_id t \<noteq> []" "hm_ok (dm_shards dm)" "dm_shards dm \<noteq> []" "length (dm_shards dm) < 2 ^ 64"
  shows "enqueued_at C w t
      (hm_keys (dm_shards dm) ! (unat (fnv1a64 (task_id t)) mod length (dm_shards dm))) (dm, d)
      (daemon_enqueue C w uuid t (dm, d)) \<and>
    daemon_enqueue C w uuid t (dm\<lparr>dm_shards := []\<rparr>, d) = (Some (Inl Standby), dm\<lparr>dm_shards := []\<rparr>, d) \<and>
    (\<forall>s \<in> set (hm_keys (dm_shards dm)). \<exists>M'. mset M' = mset (dm_shards dm) \<and>
       hm_get M' = hm_get (dm_shards dm) \<and>
       enqueued_at C w t s (dm\<lparr>dm_shards := M'\<rparr>, d) (daemon_enqueue C w uuid t (dm\<lparr>dm_shards := M'\<rparr>, d)))"
proof (intro conjI ballI)
  let ?ks = "hm_keys (dm_shards dm)"
  have ks: "?ks \<noteq> []" "length ?ks < 2 ^ 64" "length ?ks = length (dm_shards dm)"
    using assms(3,4) by (simp_all add: hm_keys_def)
  have r: "route_shard (task_id t) ?ks = Some (?ks ! (unat (fnv1a64 (task_id t)) mod length (dm_shards dm)))"
    using route_shard_nth [OF ks(1,2)] ks(3) by simp
  have "?ks ! (unat (fnv1a64 (task_id t)) mod length (dm_shards dm)) \<in> set ?ks"
    using ks(1,3) assms(3) by (intro nth_mem) simp
  then have "hm_contains (dm_shards dm) (?ks ! (unat (fnv1a64 (task_id t)) mod length (dm_shards dm)))"
    by (simp add: hm_contains_def hm_keys_def)
  then show "enqueued_at C w t (?ks ! (unat (fnv1a64 (task_id t)) mod length (dm_shards dm))) (dm, d)
      (daemon_enqueue C w uuid t (dm, d))"
    using enqueue_routed_at [OF assms(1) r] by (simp add: daemon_enqueue_def)
  show "daemon_enqueue C w uuid t (dm\<lparr>dm_shards := []\<rparr>, d) = (Some (Inl Standby), dm\<lparr>dm_shards := []\<rparr>, d)"
    by (simp add: daemon_enqueue_def enqueue_routed_def hm_keys_def)
  fix s assume s: "s \<in> set ?ks"
  obtain ks' where "mset ks' = mset ?ks" "route_shard (task_id t) ks' = Some s"
    using route_any_order [OF s ks(2)] by blast
  moreover then obtain M' where "mset M' = mset (dm_shards dm)" "hm_keys M' = ks'" "hm_get M' = hm_get (dm_shards dm)"
    using reorder_map [OF assms(2)] by blast
  moreover then have "hm_contains M' s"
    using s by (auto simp: hm_contains_get set_hm_keys)
  ultimately show "\<exists>M'. mset M' = mset (dm_shards dm) \<and> hm_get M' = hm_get (dm_shards dm) \<and>
       enqueued_at C w t s (dm\<lparr>dm_shards := M'\<rparr>, d) (daemon_enqueue C w uuid t (dm\<lparr>dm_shards := M'\<rparr>, d))"
    using enqueue_routed_at [OF assms(1), of ks' s "dm\<lparr>dm_shards := M'\<rparr>"]
    by (intro exI [of _ M']) (simp add: daemon_enqueue_def)
qed

section \<open>Engines that share a heap\<close>

lemma engine_view_simps [simp]:
  "worker_pools (engine_view dm q) = dm_pools dm" "shared_pqs (engine_view dm q) = dm_pqs dm"
  "dispatcher_counts (engine_view dm q) = dm_counts dm" "q_store (engine_view dm q) = q_store q"
  "executing_tasks (engine_view dm q) = executing_tasks q" "queued_tasks (engine_view dm q) = queued_tasks q"
  "task_handlers (engine_view dm q) = task_handlers q" "q_limits (engine_view dm q) = q_limits q"
  by (simp_all add: engine_view_def)

lemma at_log_simps [simp]:
  "executing_tasks (at_log s d q) = executing_tasks q" "queued_tasks (at_log s d q) = queued_tasks q"
  "task_handlers (at_log s d q) = task_handlers q" "tasks_cache (q_store (at_log s d q)) = tasks_cache (q_store q)"
  "log_file (q_store (at_log s d q)) = sf_log (shard_dir s d)" "q_limits (at_log s d q) = qd_limits d"
  by (simp_all add: at_log_def)

lemma engine_step_others:
  assumes "engine_step op s (dm, d) = (r, dm', d')" "s' \<noteq> s"
  shows "hm_get (dm_shards dm') s' = hm_get (dm_shards dm) s'" "shard_dir s' d' = shard_dir s' d"
  using assms by (auto simp: engine_step_def put_engine_def split: option.splits prod.splits)

lemma dispatch_starts:
  assumes "hm_get (worker_pools q) p = Some (Suc k)" "heap_pop priority_le (heap_of q p) = Some (t, h)"
    and "rate_limit_group t = None" "task_id t \<notin> executing_tasks q"
  obtains q' where "dispatch C w clk p q = (Starts t, q')" "q_store q' = q_store q" "q_limits q' = q_limits q"
    "task_handlers q' = task_handlers q"
  using assms by (auto simp: dispatch_def rate_check_def Let_def)

lemma execute_unknown:
  assumes "task_type t \<in> task_handlers q" "cron_expression t = None"
    and "hm_get (tasks_cache (q_store q)) (task_id t) = None"
  shows "fst (execute_task C w clk mt (Inr ()) p t q) = []"
    and "q_store (snd (execute_task C w clk mt (Inr ()) p t q)) = q_store q"
    and "q_limits (snd (execute_task C w clk mt (Inr ()) p t q)) = q_limits q"
  using assms
  by (simp_all add: execute_task_def exec_success_def complete_task_def delete_task_def end_execution_def
      release_permit_def split: option.split)


section \<open>Taking over from an engine that still runs\<close>

lemma instantiate_panics:
  assumes "healthy w" "\<not> hm_contains (dm_shards dm) s" "sf_queue_lock (shard_dir s (drop_lock s d))"
  shows "instantiate_shard C (bi_open w s) (bi_clock w s) s (dm, d) = (stop_heart dm, drop_lock s d)"
proof -
  have "bi_open w s = Io_Ok" using assms(1) by (simp add: healthy_def)
  moreover obtain st where "store_new C Io_Ok (bi_clock w s) (sf_log (shard_dir s d)) = (Inr (), st)"
    using store_new_opens by (metis prod.collapse)
  ultimately show ?thesis
    using assms(2,3) by (simp add: instantiate_shard_def new_with_shared_pools_def Let_def)
qed

lemma heartbeats_stopped: "\<not> dm_heart dm \<Longrightarrow> heartbeats C pid skew beats (dm, d) = (dm, d)"
  by (induction beats rule: rev_induct) (auto simp: heartbeats_def heartbeat_def)

text \<open>
  Property C31: A shard's \<open>.lock\<close> does not fence an engine that outlived its lease: it is free, so a daemon that
  takes the lapsed shard over passes the lock check, writes itself into \<open>membership.json\<close>, and then panics
  because the old engine still holds \<open>tasks.log.lock\<close>. Its heartbeat has ended: no later heartbeat
  renews any of its leases or starts an engine, while the shard is recorded as its own.
\<close>

theorem takeover_of_running_engine:
  assumes "serde_ok C" "healthy w" "dm_heart dm" "read_unlocked C (qd_members d) = Inr m"
    and "hm_get (claims m) s = Some c" "owner c \<noteq> dm_owner dm" "is_lapsed c now skew"
    and "\<not> lock_taken (sf_lock (shard_dir s d))" "sf_queue_lock (shard_dir s d)"
    and "\<not> hm_contains (dm_shards dm) s"
  shows "\<exists>d'. claim_one C w pid now skew (dm, d, owned) s = (stop_heart dm, d', owned @ [s]) \<and>
    leases_until C (dm_owner dm) {s} (now + nanos lease_duration_secs) d' \<and>
    (\<forall>beats. heartbeats C pid skew beats (stop_heart dm, d') = (stop_heart dm, d'))"
proof -
  let ?e = "now + nanos lease_duration_secs"
  have step: "claim_step s (dm_owner dm) now skew m = Inr (TakenOver (owner c), put_claim s (dm_owner dm) ?e m)"
    using assms(5-7) by (simp add: claim_step_def Let_def)
  obtain d2 where d2: "claimed_dir C pid s (next_version (put_claim s (dm_owner dm) ?e m)) d (drop_lock s d2)"
    "claim_one C w pid now skew (dm, d, owned) s =
      (case instantiate_shard C (bi_open w s) (bi_clock w s) s (dm, d2) of (dm', d3) \<Rightarrow> (dm', d3, owned @ [s]))"
    using claim_one_ok [OF assms(1-4) step assms(8), where pid = pid and owned = owned]
    by (metis claim_outcome.simps(10))
  have "sf_queue_lock (shard_dir s (drop_lock s d2))" using d2(1) assms(9) by (simp add: claimed_dir_def)
  then have i: "instantiate_shard C (bi_open w s) (bi_clock w s) s (dm, d2) = (stop_heart dm, drop_lock s d2)"
    by (rule instantiate_panics [OF assms(2,10)])
  have "leases_until C (dm_owner dm) {s} ?e (drop_lock s d2)"
    using d2(1) by (auto simp: leases_until_def claimed_dir_def)
  moreover have "\<not> dm_heart (stop_heart dm)" by (simp add: stop_heart_def)
  ultimately show ?thesis using d2(2) i heartbeats_stopped by (intro exI [of _ "drop_lock s d2"]) simp
qed

section \<open>Witnesses\<close>

definition demo_beat :: beat_io where
  "demo_beat = \<lparr>bi_load = Io_Ok, bi_claim = (\<lambda>s. Io_Ok), bi_lock = (\<lambda>s. Io_Ok), bi_open = (\<lambda>s. Io_Ok),
     bi_revert = (\<lambda>s. Io_Ok), bi_clock = (\<lambda>s n. (0, 0))\<rparr>"

definition demo_daemon :: daemon where
  "demo_daemon = \<lparr>dm_owner = ''me'', dm_shards = [], dm_lost = [], dm_handlers = {''mail''}, dm_max_handlers = {},
     dm_stop = False, dm_heart = True, dm_pools = [(''default'', 100)], dm_pqs = [(''default'', [])],
     dm_counts = [(''default'', 0)]\<rparr>"

definition demo_members :: "(string, claim) hashmap \<Rightarrow> membership" where
  "demo_members cs = \<lparr>ms_queue = ''q'', ms_shards = 1, ms_version = 0, claims = cs\<rparr>"

definition demo_dir :: "(string, claim) hashmap \<Rightarrow> (string, shard_files) hashmap \<Rightarrow> queue_dir" where
  "demo_dir cs ss = \<lparr>qd_members = Some (ms_file demo_crates (demo_members cs)), qd_log = None, qd_lock = None,
     qd_queue_lock = False, qd_limits = None, qd_shards = ss\<rparr>"

lemma healthy_demo: "healthy demo_beat"
  by (simp add: healthy_def demo_beat_def)

lemma demo_daemon_simps [simp]:
  "dm_owner demo_daemon = ''me''" "dm_shards demo_daemon = []" "dm_lost demo_daemon = []"
  "dm_heart demo_daemon" "\<not> dm_stop demo_daemon"
  by (simp_all add: demo_daemon_def)

lemma demo_dir_reads: "hm_ok cs \<Longrightarrow> read_unlocked demo_crates (qd_members (demo_dir cs ss)) = Inr (demo_members cs)"
  by (simp add: demo_dir_def read_ms_file [OF serde_ok_demo] ms_ok_def demo_members_def)

lemma demo_members_simps [simp]: "claims (demo_members cs) = cs" "ms_shards (demo_members cs) = 1"
  by (simp_all add: demo_members_def)

lemma demo_dir_empty [simp]: "shard_dir s (demo_dir cs []) = empty_shard"
  by (simp add: shard_dir_def demo_dir_def)

lemma first_heartbeat_starts_all_witness:
  "\<exists>dm' d'. heartbeat demo_crates demo_beat ''1'' 0 0 (demo_daemon, demo_dir [] []) = (dm', d') \<and>
     set (hm_keys (dm_shards dm')) = {shard_key 0}"
proof -
  have "\<forall>i < unat (ms_shards (demo_members [])). idle_shard (demo_members []) (demo_dir [] []) demo_daemon (shard_key i)"
    by (simp add: idle_shard_def empty_shard_def lock_taken_def)
  then show ?thesis
    using first_heartbeat_starts_all [OF serde_ok_demo healthy_demo, of demo_daemon "demo_dir [] []" "demo_members []"
        "''1''" 0 0] demo_dir_reads [of "[]" "[]"] by auto
qed


lemma daemon_enqueue_routes_witness:
  "enqueued_at demo_crates Io_Ok demo_task (shard_key 0)
     (demo_daemon\<lparr>dm_shards := [(shard_key 0, demo_queue)]\<rparr>, demo_dir [] [])
     (daemon_enqueue demo_crates Io_Ok ''u'' demo_task
       (demo_daemon\<lparr>dm_shards := [(shard_key 0, demo_queue)]\<rparr>, demo_dir [] []))"
proof -
  have "task_id demo_task \<noteq> []" by (simp add: demo_task_def task_new_def)
  then show ?thesis
    using daemon_enqueue_routes [of demo_task "demo_daemon\<lparr>dm_shards := [(shard_key 0, demo_queue)]\<rparr>"
        demo_crates Io_Ok "demo_dir [] []" "''u''"]
    by (simp add: hm_ok_def hm_keys_def)
qed


lemma takeover_of_running_engine_witness:
  "\<exists>d'. claim_one demo_crates demo_beat ''1'' (nanos 60) 0
      (demo_daemon, demo_dir [(shard_key 0, \<lparr>owner = ''old'', lease_expiry = 0\<rparr>)]
        [(shard_key 0, empty_shard\<lparr>sf_queue_lock := True\<rparr>)], []) (shard_key 0) =
      (stop_heart demo_daemon, d', [shard_key 0])"
proof -
  let ?cs = "[(shard_key 0, \<lparr>owner = ''old'', lease_expiry = 0\<rparr>)]" and ?ss = "[(shard_key 0, empty_shard\<lparr>sf_queue_lock := True\<rparr>)]"
  have s: "shard_dir (shard_key 0) (demo_dir ?cs ?ss) = empty_shard\<lparr>sf_queue_lock := True\<rparr>"
    by (simp add: shard_dir_def demo_dir_def hm_get_def)
  have r: "read_unlocked demo_crates (qd_members (demo_dir ?cs ?ss)) = Inr (demo_members ?cs)"
    by (rule demo_dir_reads) (simp add: hm_ok_def)
  show ?thesis
    using takeover_of_running_engine [OF serde_ok_demo healthy_demo _ r, of demo_daemon "shard_key 0"
        "\<lparr>owner = ''old'', lease_expiry = 0\<rparr>" "nanos 60" 0 "''1''" "[]"] s
    by (auto simp: hm_get_def is_lapsed_def nanos_def empty_shard_def lock_taken_def)
qed

end
