(* ===== verification/Shared_Limits.thy ===== *)
theory Shared_Limits
  imports Sharded_Queue
begin

text \<open>
  The rate limits of the engines of a daemon (\<open>instantiate_shard\<close> in \<open>src/sharded_queue.rs\<close>, \<open>RateLimiter::new\<close> in
  \<open>src/rate_limiter.rs\<close>, the check in \<open>spawn_dispatcher\<close> in \<open>src/queue.rs\<close>): the engines of all shards of a directory
  count in one file.
\<close>

section \<open>One file\<close>

lemma limits_beside: "has_file_name [s] \<Longrightarrow> rate_limiter_new (dir @ [s]) = dir @ [''rate_limits.json'']"
  by (simp add: rate_limiter_new_def set_file_name_def has_file_name_def)

lemma shard_key_file_name: "has_file_name [shard_key i]"
  by (simp add: has_file_name_def shard_key_def)

section \<open>Checks of several engines\<close>

text \<open>The check of a dispatcher, by itself.\<close>

definition engine_check :: "crates \<Rightarrow> instant \<Rightarrow> rtask \<Rightarrow> queue \<Rightarrow> bool \<times> queue" where
  "engine_check C now t q = (case rate_check C Io_Ok now t (q_limits q) of (ok, f) \<Rightarrow> (ok, q\<lparr>q_limits := f\<rparr>))"

text \<open>A sequence of checks \<open>(shard, time, task)\<close>, each by the engine of that shard.\<close>

fun engine_checks :: "crates \<Rightarrow> (string \<times> instant \<times> rtask) list \<Rightarrow> daemon \<times> queue_dir \<Rightarrow> bool list" where
  "engine_checks C [] st = []"
| "engine_checks C ((s, now, t) # cs) st =
     (case engine_step (engine_check C now t) s st of (r, st') \<Rightarrow> (r = Some True) # engine_checks C cs st')"

text \<open>The call that a limited task makes, and whether it makes one.\<close>

definition limited :: "rtask \<Rightarrow> bool" where
  "limited t \<longleftrightarrow> rate_limit_group t \<noteq> None \<and> max_per_minute t \<noteq> None"

definition rate_calls :: "(string \<times> instant \<times> rtask) list \<Rightarrow> rate_call list" where
  "rate_calls = map (\<lambda>(s, now, t). (now, the (rate_limit_group t), the (max_per_minute t)))"

lemma engine_checks_run:
  "\<forall>(s, now, t) \<in> set cs. hm_contains (dm_shards dm) s \<and> limited t \<Longrightarrow>
   engine_checks C cs (dm, d) = check_run C (rate_calls cs) (qd_limits d)"
proof (induction cs arbitrary: dm d)
  case (Cons x cs)
  obtain s now t where x: "x = (s, now, t)" by (cases x)
  then obtain q g limit where q: "hm_get (dm_shards dm) s = Some q" and t: "rate_limit_group t = Some g" "max_per_minute t = Some limit"
    using Cons.prems by (auto simp: hm_contains_get limited_def)
  obtain r f where c: "check_and_increment C Io_Ok now g limit (qd_limits d) = (r, f)" by fastforce
  let ?q = "(engine_view dm (at_log s d q))\<lparr>q_limits := f\<rparr>"
  have e: "engine_step (engine_check C now t) s (dm, d) = (Some (r = Inr True), put_engine s ?q dm, put_log s ?q d)"
    using q c by (simp add: engine_step_def engine_check_def rate_check_def t)
  have "engine_checks C cs (put_engine s ?q dm, put_log s ?q d) = check_run C (rate_calls cs) f"
    using Cons.IH [of "put_engine s ?q dm" "put_log s ?q d"] Cons.prems x
    by (simp add: put_engine_def put_log_def split_beta)
  then show ?case using e c x t by (simp add: rate_calls_def)
qed (simp add: rate_calls_def)

text \<open>
  Property C13: The engines of all shards of a queue directory share their rate limits, although \<open>instantiate_shard\<close>
  hands each the directory of its shard so that they be partitioned: \<open>RateLimiter::new\<close> replaces that last part of the
  path. Whichever engines of a daemon make the checks of a sequence, they answer as one limiter on one
  file would, and a group gets at most \<open>2 * limit - 1\<close> calls granted in any 60 seconds over all shards together.
\<close>

theorem one_limit_for_all_shards:
  assumes "serde_ok C" "hm_ok m" "\<And>w. hm_get m g = Some w \<Longrightarrow> 1 \<le> sint (rw_count w)"
    and "qd_limits d = Some (limits_line C m)" "\<forall>(s, now, t) \<in> set cs. hm_contains (dm_shards dm) s \<and> limited t"
    and "calls_within g limit (\<lambda>t. a \<le> t \<and> t < a + nanos 60) (rate_calls cs)"
  shows "rate_limiter_new (dir @ [shard_key i]) = rate_limiter_new (dir @ [shard_key j]) \<and>
    engine_checks C cs (dm, d) = check_run C (rate_calls cs) (qd_limits d) \<and>
    granted g (rate_calls cs) (engine_checks C cs (dm, d)) \<le> 2 * nat (sint limit) - 1"
  using engine_checks_run [OF assms(5), of C d] granted_rolling [OF assms(6,3)]
  by (simp add: limits_beside shard_key_file_name check_run_line [OF assms(1,2)] assms(4))

text \<open>Two engines, a limit of one: what the first is granted the second is refused.\<close>

lemma one_limit_for_all_shards_witness:
  "engine_checks demo_crates
     [(shard_key 0, 5, demo_task\<lparr>rate_limit_group := Some ''g'', max_per_minute := Some 1\<rparr>),
      (shard_key 1, 6, demo_task\<lparr>rate_limit_group := Some ''g'', max_per_minute := Some 1\<rparr>)]
     (demo_daemon\<lparr>dm_shards := [(shard_key 0, demo_queue), (shard_key 1, demo_queue)]\<rparr>,
      (demo_dir [] [])\<lparr>qd_limits := Some (limits_line demo_crates [])\<rparr>) = [True, False]"
proof -
  let ?t = "demo_task\<lparr>rate_limit_group := Some ''g'', max_per_minute := Some 1\<rparr>"
  let ?cs = "[(shard_key 0, 5, ?t), (shard_key 1, 6, ?t)]"
  let ?dm = "demo_daemon\<lparr>dm_shards := [(shard_key 0, demo_queue), (shard_key 1, demo_queue)]\<rparr>"
  let ?d = "(demo_dir [] [])\<lparr>qd_limits := Some (limits_line demo_crates [])\<rparr>"
  have cs: "\<forall>(s, now, t) \<in> set ?cs. hm_contains (dm_shards ?dm) s \<and> limited t"
    by (simp add: hm_contains_def limited_def)
  have w: "calls_within ''g'' 1 (\<lambda>t. 0 \<le> t \<and> t < 0 + nanos 60) (rate_calls ?cs)"
    by (simp add: rate_calls_def nanos_def)
  have "engine_checks demo_crates ?cs (?dm, ?d) = check_run demo_crates (rate_calls ?cs) (qd_limits ?d)"
    using one_limit_for_all_shards [OF serde_ok_demo _ _ _ cs w, of "[]"] by simp
  also have "\<dots> = rate_run (rate_calls ?cs) []" by (simp add: check_run_line [OF serde_ok_demo])
  also have "\<dots> = [True, False]" by (simp add: rate_calls_def rate_step_def Let_def num_seconds_def)
  finally show ?thesis .
qed

end
