(* ===== verification/Cluster.thy ===== *)
theory Cluster
  imports Sharded_Queue
begin

text \<open>
  Several daemons (\<open>src/sharded_queue.rs\<close>) on one queue directory: their heartbeats, their engines and their
  users interleave, one claim, one queue operation or one call at a time.

  A node is a daemon process: the daemon, the heartbeat it is in the middle of, and the engines
  that \<open>shutdown\<close> has told to stop and that have not stopped yet. A step of the cluster is a step of one node
  on the common directory, the start of a process or its death. The engines' locks on
  \<open>tasks.log.lock\<close> are what keeps the engines of a shard apart: at most one runs at a time, whatever the leases say.
\<close>

section \<open>Nodes\<close>

record beat =
  bt_now :: instant
  bt_skew :: duration
  bt_todo :: "string list"
  bt_owned :: "string list"

record node =
  nd_daemon :: daemon
  nd_pid :: string
  nd_beat :: "beat option"
  nd_stopping :: "(string \<times> queue) list"

definition new_node :: "string \<Rightarrow> daemon \<Rightarrow> node" where
  "new_node pid dm = \<lparr>nd_daemon = dm, nd_pid = pid, nd_beat = None, nd_stopping = []\<rparr>"

text \<open>The heartbeat loop in pieces: the head of the loop with \<open>load\<close>, one claim, and \<open>reconcile_shards\<close>.\<close>

definition beat_begin :: "crates \<Rightarrow> io \<Rightarrow> instant \<Rightarrow> duration \<Rightarrow> node \<times> queue_dir \<Rightarrow> node \<times> queue_dir" where
  "beat_begin C w now skew = (\<lambda>(n, d).
     if \<not> dm_heart (nd_daemon n) then (n, d)
     else if dm_stop (nd_daemon n) then (n\<lparr>nd_daemon := stop_heart (nd_daemon n)\<rparr>, d)
     else
       let claimable = (case fst (load C w (qd_members d)) of
                          Inl e \<Rightarrow> [] | Inr m \<Rightarrow> claimable_shards m now skew (dm_owner (nd_daemon n)))
       in (n\<lparr>nd_beat := Some \<lparr>bt_now = now, bt_skew = skew, bt_todo = claimable, bt_owned = []\<rparr>\<rparr>, d))"

definition beat_claim :: "crates \<Rightarrow> beat_io \<Rightarrow> beat \<Rightarrow> string \<Rightarrow> string list \<Rightarrow> node \<times> queue_dir \<Rightarrow> node \<times> queue_dir"
where
  "beat_claim C w b s todo = (\<lambda>(n, d).
     case claim_one C w (nd_pid n) (bt_now b) (bt_skew b) (nd_daemon n, d, bt_owned b) s of
       (dm, d', owned) \<Rightarrow>
         (n\<lparr>nd_daemon := dm, nd_beat := Some (b\<lparr>bt_todo := todo, bt_owned := owned\<rparr>)\<rparr>, d'))"

definition beat_end :: "beat \<Rightarrow> node \<Rightarrow> node" where
  "beat_end b n =
     n\<lparr>nd_beat := None,
       nd_daemon := if dm_heart (nd_daemon n) then reconcile_shards (bt_owned b) (nd_daemon n) else nd_daemon n\<rparr>"

text \<open>
  \<open>shutdown\<close> sets the stop flags and empties the map; an engine's lock is freed once its last clone is gone.
\<close>

definition shutdown_begin :: "node \<Rightarrow> node" where
  "shutdown_begin n =
     n\<lparr>nd_daemon := (nd_daemon n)\<lparr>dm_stop := True, dm_shards := []\<rparr>,
       nd_stopping := nd_stopping n @ dm_shards (nd_daemon n)\<rparr>"

text \<open>An engine that is no longer in the map works on, on the shared pools and on its shard's files.\<close>

definition detached_step :: "(queue \<Rightarrow> queue) \<Rightarrow> string \<Rightarrow> queue \<Rightarrow> daemon \<times> queue_dir \<Rightarrow> queue \<times> daemon \<times> queue_dir"
where
  "detached_step op s q = (\<lambda>(dm, d).
     let q' = op (engine_view dm (at_log s d q)) in
     (q', dm\<lparr>dm_pools := worker_pools q', dm_pqs := shared_pqs q', dm_counts := dispatcher_counts q'\<rparr>,
      put_log s q' d))"

text \<open>What a running engine does by itself: its processor, its dispatchers and what they spawn.\<close>

inductive engine_move :: "crates \<Rightarrow> (queue \<Rightarrow> queue) \<Rightarrow> bool" for C where
  move_process: "engine_move C (\<lambda>q. fst (process_due_tasks ts now q))"
| move_dispatch: "engine_move C (\<lambda>q. snd (dispatch C w clk p q))"
| move_skip: "engine_move C (skip_completed p t)"
| move_execute: "engine_move C (\<lambda>q. snd (execute_task C w clk mt outcome p t q))"
| move_evict: "engine_move C (\<lambda>q. q\<lparr>completed_tasks := evict_expired_completed (completed_tasks q) now completed_ttl\<rparr>)"
| move_compact: "engine_move C (\<lambda>q. q\<lparr>q_store := snd (compact_log C io clk ord (q_store q))\<rparr>)"

inductive node_step :: "crates \<Rightarrow> node \<times> queue_dir \<Rightarrow> node \<times> queue_dir \<Rightarrow> bool" for C where
  begin_beat: "nd_beat n = None \<Longrightarrow> node_step C (n, d) (beat_begin C w now skew (n, d))"
| claim_next: "nd_beat n = Some b \<Longrightarrow> bt_todo b = s # todo \<Longrightarrow>
    node_step C (n, d) (beat_claim C w b s todo (n, d))"
| end_beat: "nd_beat n = Some b \<Longrightarrow> bt_todo b = [] \<or> \<not> dm_heart (nd_daemon n) \<Longrightarrow>
    node_step C (n, d) (beat_end b n, d)"
| user_enqueue: "enqueue_routed C w uuid owned t (nd_daemon n, d) = (r, dm, d') \<Longrightarrow>
    node_step C (n, d) (n\<lparr>nd_daemon := dm\<rparr>, d')"
| user_handler: "node_step C (n, d)
    (n\<lparr>nd_daemon := daemon_register_task_handler ty (daemon_register_max_retry_handler ty2 (nd_daemon n))\<rparr>, d)"
| user_shutdown: "node_step C (n, d) (shutdown_begin n, d)"
| engine_works: "engine_move C op \<Longrightarrow>
    engine_step (\<lambda>q. ((), op q)) s (nd_daemon n, d) = (r, dm, d') \<Longrightarrow>
    node_step C (n, d) (n\<lparr>nd_daemon := dm\<rparr>, d')"
| lost_works: "engine_move C op \<Longrightarrow> dm_lost (nd_daemon n) = xs @ (s, q) # ys \<Longrightarrow>
    detached_step op s q (nd_daemon n, d) = (q', dm, d') \<Longrightarrow>
    node_step C (n, d) (n\<lparr>nd_daemon := dm\<lparr>dm_lost := xs @ (s, q') # ys\<rparr>\<rparr>, d')"
| stopping_works: "engine_move C op \<Longrightarrow> nd_stopping n = xs @ (s, q) # ys \<Longrightarrow>
    detached_step op s q (nd_daemon n, d) = (q', dm, d') \<Longrightarrow>
    node_step C (n, d) (n\<lparr>nd_daemon := dm, nd_stopping := xs @ (s, q') # ys\<rparr>, d')"
| engine_stops: "nd_stopping n = xs @ (s, q) # ys \<Longrightarrow>
    node_step C (n, d) (n\<lparr>nd_stopping := xs @ ys\<rparr>, release_queue_lock d s)"

section \<open>The cluster\<close>

record cluster =
  cl_nodes :: "node list"
  cl_dir :: queue_dir

definition node_engines :: "node \<Rightarrow> (string \<times> queue) list" where
  "node_engines n = dm_shards (nd_daemon n) @ dm_lost (nd_daemon n) @ nd_stopping n"

definition cluster_engines :: "cluster \<Rightarrow> (string \<times> queue) multiset" where
  "cluster_engines c = mset (concat (map node_engines (cl_nodes c)))"

text \<open>When a process dies, the operating system frees the locks of its engines.\<close>

inductive cluster_step :: "crates \<Rightarrow> cluster \<Rightarrow> cluster \<Rightarrow> bool" for C where
  boot: "daemon_new C fault w me name requested (cl_dir c) = (Some dm, d) \<Longrightarrow>
    cluster_step C c \<lparr>cl_nodes = cl_nodes c @ [new_node pid dm], cl_dir = d\<rparr>"
| boot_fails: "daemon_new C fault w me name requested (cl_dir c) = (None, d) \<Longrightarrow>
    cluster_step C c (c\<lparr>cl_dir := d\<rparr>)"
| work: "cl_nodes c = xs @ n # ys \<Longrightarrow> node_step C (n, cl_dir c) (n', d) \<Longrightarrow>
    cluster_step C c \<lparr>cl_nodes = xs @ n' # ys, cl_dir = d\<rparr>"
| crash: "cl_nodes c = xs @ n # ys \<Longrightarrow>
    cluster_step C c \<lparr>cl_nodes = xs @ ys, cl_dir = foldl release_queue_lock (cl_dir c) (map fst (node_engines n))\<rparr>"

text \<open>A directory on which no process works; its files may hold anything.\<close>

definition quiet_start :: "cluster \<Rightarrow> bool" where
  "quiet_start c \<longleftrightarrow> cl_nodes c = [] \<and> (\<forall>s. \<not> sf_queue_lock (shard_dir s (cl_dir c)))"

definition cluster_reachable :: "crates \<Rightarrow> cluster \<Rightarrow> bool" where
  "cluster_reachable C c \<longleftrightarrow> (\<exists>c0. quiet_start c0 \<and> (cluster_step C)\<^sup>*\<^sup>* c0 c)"

section \<open>Locks and their holders\<close>

text \<open>
  An exclusive lock per key, free or held, and a multiset of holders: the discipline by which a
  holder is added only while the lock is free keeps at most one of them per key.
\<close>

locale exclusive_lock =
  fixes held :: "'k \<Rightarrow> 'd \<Rightarrow> bool" and take_lock :: "'k \<Rightarrow> 'd \<Rightarrow> 'd" and free_lock :: "'d \<Rightarrow> 'k \<Rightarrow> 'd"
  assumes held_take: "held j (take_lock k d) \<longleftrightarrow> j = k \<or> held j d"
    and held_free: "held j (free_lock d k) \<longleftrightarrow> j \<noteq> k \<and> held j d"
begin

lemma count_take:
  assumes "\<forall>j. count H j = of_bool (held j d)" "\<not> held k d"
  shows "\<forall>j. count (add_mset k H) j = of_bool (held j (take_lock k d))"
  using assms by (simp add: held_take)

lemma count_free:
  assumes "\<forall>j. count (add_mset k H) j = of_bool (held j d)"
  shows "\<forall>j. count H j = of_bool (held j (free_lock d k))"
proof
  fix j
  show "count H j = of_bool (held j (free_lock d k))"
    using assms [rule_format, of j]
    by (cases "j = k"; cases "held j d") (simp_all add: held_free)
qed

lemma only_holder:
  assumes "\<forall>j. count (add_mset k H) j = of_bool (held j d)"
  shows "k \<notin># H" "held k d"
  using assms [rule_format, of k] by (auto simp: not_in_iff of_bool_def split: if_splits)

end

definition take_queue_lock :: "string \<Rightarrow> queue_dir \<Rightarrow> queue_dir" where
  "take_queue_lock s d = put_shard s ((shard_dir s d)\<lparr>sf_queue_lock := True\<rparr>) d"

interpretation log_lock: exclusive_lock "\<lambda>s d. sf_queue_lock (shard_dir s d)" take_queue_lock release_queue_lock
  by unfold_locales (auto simp: take_queue_lock_def release_queue_lock_def)

section \<open>The invariant of the engines\<close>

definition engines_inv :: "(string \<times> queue) multiset \<Rightarrow> queue_dir \<Rightarrow> bool" where
  "engines_inv E d \<longleftrightarrow>
     (\<forall>s. count (image_mset fst E) s = of_bool (sf_queue_lock (shard_dir s d))) \<and>
     (\<forall>s q. (s, q) \<in># E \<longrightarrow> log_file (q_store q) = sf_log (shard_dir s d)) \<and>
     (E \<noteq> {#} \<longrightarrow> qd_members d \<noteq> None)"

text \<open>The parts of the directory that the invariant looks at.\<close>

definition same_files :: "queue_dir \<Rightarrow> queue_dir \<Rightarrow> bool" where
  "same_files d d' \<longleftrightarrow>
     (\<forall>s. sf_queue_lock (shard_dir s d') = sf_queue_lock (shard_dir s d) \<and>
        sf_log (shard_dir s d') = sf_log (shard_dir s d)) \<and>
     (qd_members d \<noteq> None \<longrightarrow> qd_members d' \<noteq> None)"

lemma same_files_refl [simp, intro]: "same_files d d"
  by (simp add: same_files_def)

lemma same_files_trans: "same_files d1 d2 \<Longrightarrow> same_files d2 d3 \<Longrightarrow> same_files d1 d3"
  by (simp add: same_files_def)

lemma engines_inv_same: "engines_inv E d \<Longrightarrow> same_files d d' \<Longrightarrow> engines_inv E d'"
  by (auto simp: engines_inv_def same_files_def)

lemma engines_inv_alone:
  assumes "engines_inv (add_mset (s, q) E) d"
  shows "(s, q') \<notin># E" "sf_queue_lock (shard_dir s d)"
proof -
  have "\<forall>j. count (add_mset s (image_mset fst E)) j = of_bool (sf_queue_lock (shard_dir j d))"
    using assms by (simp add: engines_inv_def)
  note h = log_lock.only_holder [OF this]
  show "(s, q') \<notin># E" using h(1) by (force simp: in_image_mset)
  show "sf_queue_lock (shard_dir s d)" by (rule h(2))
qed

lemma engines_inv_start:
  assumes "engines_inv E d" "\<not> sf_queue_lock (shard_dir s d)" "qd_members d \<noteq> None"
    and "log_file (q_store q) = sf_log (shard_dir s d)"
  shows "engines_inv (add_mset (s, q) E) (take_queue_lock s d)"
proof -
  have "\<forall>j. count (add_mset s (image_mset fst E)) j = of_bool (sf_queue_lock (shard_dir j (take_queue_lock s d)))"
    using assms(1,2) by (intro log_lock.count_take) (simp_all add: engines_inv_def)
  then show ?thesis
    using assms(1,3,4) by (auto simp: engines_inv_def take_queue_lock_def)
qed

lemma engines_inv_stop:
  assumes "engines_inv (add_mset (s, q) E) d"
  shows "engines_inv E (release_queue_lock d s)"
proof -
  have "\<forall>j. count (image_mset fst E) j = of_bool (sf_queue_lock (shard_dir j (release_queue_lock d s)))"
    using assms by (intro log_lock.count_free) (simp add: engines_inv_def)
  moreover have "s' \<noteq> s" if "(s', q') \<in># E" for s' q'
    using engines_inv_alone(1) [OF assms] that by auto
  ultimately show ?thesis
    using assms by (auto simp: engines_inv_def release_queue_lock_def)
qed

lemma engines_inv_write:
  assumes "engines_inv (add_mset (s, q) E) d"
  shows "engines_inv (add_mset (s, q') E) (put_log s q' d)"
proof -
  have "s' \<noteq> s" if "(s', p) \<in># E" for s' p
    using engines_inv_alone(1) [OF assms] that by auto
  moreover have "sf_queue_lock (shard_dir j (put_log s q' d)) = sf_queue_lock (shard_dir j d)" for j by simp
  ultimately show ?thesis using assms by (auto simp: engines_inv_def)
qed

lemma engines_inv_log:
  assumes "engines_inv E d" "(s, q) \<in># E"
  shows "log_file (q_store q) = sf_log (shard_dir s d)"
  using assms unfolding engines_inv_def by blast

lemma engines_inv_replace:
  assumes "engines_inv (add_mset (s, q) E) d" "q_store q' = q_store q"
  shows "engines_inv (add_mset (s, q') E) d"
proof -
  have "log_file (q_store p) = sf_log (shard_dir s' d)"
    if "(s', p) \<in># add_mset (s, q') E" for s' p
    using that engines_inv_log [OF assms(1), of s' p] engines_inv_log [OF assms(1), of s q] assms(2)
    by auto
  moreover have "\<forall>j. count (image_mset fst (add_mset (s, q') E)) j = of_bool (sf_queue_lock (shard_dir j d))"
    using assms(1) unfolding engines_inv_def by simp
  moreover have "qd_members d \<noteq> None" using assms(1) unfolding engines_inv_def by simp
  ultimately show ?thesis unfolding engines_inv_def by blast
qed

section \<open>Every operation keeps the invariant\<close>

lemma mutate_keeps_file:
  assumes "mutate C w step f = (r, f')" "f \<noteq> None \<or> r = Inr x"
  shows "f' \<noteq> None"
  using assms by (auto simp: mutate_def with_lock_def write_unlocked_def read_unlocked_def
      split: if_splits sum.splits option.splits)

lemma claim_keeps_file:
  "claim_shard C w s me now skew f = (r, f') \<Longrightarrow> f \<noteq> None \<or> r = Inr out \<Longrightarrow> f' \<noteq> None"
  unfolding claim_shard_def by (rule mutate_keeps_file)

lemma revert_keeps_file:
  "f \<noteq> None \<Longrightarrow> snd (revert_claim C w s me f) \<noteq> None"
  unfolding revert_claim_def by (cases "mutate C w (revert_step s me) f") (auto dest: mutate_keeps_file)

lemma store_new_file: "log_file (snd (store_new C w clk f)) = f"
  by (simp add: store_new_def rebuild_metadata_def Let_def rebuild_fold split: option.splits)

lemma lock_same_files: "try_lock_shard w pid s d = (r, d') \<Longrightarrow> same_files d d'"
  by (auto simp: try_lock_shard_def Let_def same_files_def split: if_splits option.splits)

lemma drop_same_files: "same_files d (drop_lock s d)"
  by (simp add: drop_lock_def same_files_def)

lemma migrate_queue_lock:
  "migrate_legacy_unlocked fault d = (r, d') \<Longrightarrow> sf_queue_lock (shard_dir s d') = sf_queue_lock (shard_dir s d)"
  by (auto simp: migrate_legacy_unlocked_def Let_def split: if_splits option.splits)

lemma init_members_shards:
  "init_members C w queue n d = (r, d') \<Longrightarrow> shard_dir s d' = shard_dir s d"
  by (auto simp: init_members_def split: prod.splits sum.splits)

lemma adopt_queue_lock:
  "adopt_legacy C fault w queue d = (r, d') \<Longrightarrow> sf_queue_lock (shard_dir s d') = sf_queue_lock (shard_dir s d)"
  by (auto simp: adopt_legacy_def split: if_splits prod.splits sum.splits
      dest!: migrate_queue_lock [of _ _ _ _ s] init_members_shards [of _ _ _ _ _ _ _ s])

lemma init_fresh_shards:
  "init_fresh C w queue n d = (r, d') \<Longrightarrow> shard_dir s d' = shard_dir s d"
  by (auto simp: init_fresh_def split: if_splits prod.splits sum.splits dest!: init_members_shards [of _ _ _ _ _ _ _ s])

text \<open>A boot leaves every lock as it is, and a directory that has its \<open>membership.json\<close> unchanged.\<close>

lemma boot_locks:
  assumes "resolve_layout C fault w queue n d = (r, d')"
  shows "sf_queue_lock (shard_dir s d') = sf_queue_lock (shard_dir s d)" "qd_members d \<noteq> None \<longrightarrow> d' = d"
  using assms
  by (auto simp: resolve_layout_def boot_with_def with_lock_held_def detect_layout_def
      split: if_splits prod.splits dest!: adopt_queue_lock [of _ _ _ _ _ _ _ s] init_fresh_shards [of _ _ _ _ _ _ _ s])

lemma boot_keeps_engines:
  assumes "engines_inv E d" "resolve_layout C fault w queue n d = (r, d')"
  shows "engines_inv E d'"
proof (cases "E = {#}")
  case True
  then show ?thesis using assms(1) boot_locks(1) [OF assms(2)] by (simp add: engines_inv_def)
next
  case False
  then have "d' = d" using assms(1) boot_locks(2) [OF assms(2)] by (simp add: engines_inv_def)
  then show ?thesis using assms(1) by simp
qed

lemma mset_insert_new:
  "\<not> hm_contains m k \<Longrightarrow> mset (hm_insert k v m) = add_mset (k, v) (mset m)"
  unfolding hm_contains_def hm_insert_def by (induction m) auto

lemma mset_insert_old:
  assumes "hm_get m k = Some v"
  obtains M where "mset m = add_mset (k, v) M" "\<And>v'. mset (hm_insert k v' m) = add_mset (k, v') M"
proof -
  have "\<exists>M. mset m = add_mset (k, v) M \<and> (\<forall>v'. mset (hm_insert k v' m) = add_mset (k, v') M)"
    using assms unfolding hm_get_def hm_insert_def
  proof (induction m)
    case (Cons x m)
    obtain j u where x: "x = (j, u)" by fastforce
    show ?case
    proof (cases "j = k")
      case True
      then show ?thesis using Cons.prems x by auto
    next
      case False
      then obtain M where "mset m = add_mset (k, v) M" "\<forall>v'. mset (AList.update k v' m) = add_mset (k, v') M"
        using Cons x by auto
      then show ?thesis using False x by (intro exI [of _ "add_mset x M"]) simp
    qed
  qed simp
  then show ?thesis using that by blast
qed

lemma instantiate_cases:
  assumes "instantiate_shard C w clk s (dm, d) = (dm', d')"
  shows "dm_shards dm' = dm_shards dm \<and> dm_lost dm' = dm_lost dm \<and> d' = drop_lock s d \<or>
    (\<exists>q. \<not> hm_contains (dm_shards dm) s \<and> \<not> sf_queue_lock (shard_dir s (drop_lock s d)) \<and>
      log_file (q_store q) = sf_log (shard_dir s d) \<and>
      dm' = dm\<lparr>dm_shards := hm_insert s q (dm_shards dm)\<rparr> \<and> d' = take_queue_lock s (drop_lock s d) \<and>
      store_new C w clk (sf_log (shard_dir s d)) = (Inr (), q_store q) \<and> executing_tasks q = {} \<and> queued_tasks q = {})"
proof (cases "hm_contains (dm_shards dm) s")
  case True
  then show ?thesis using assms by (simp add: instantiate_shard_def)
next
  case new: False
  obtain r st where st: "store_new C w clk (sf_log (shard_dir s d)) = (r, st)" by fastforce
  then have f: "log_file st = sf_log (shard_dir s d)" using store_new_file by (metis snd_conv)
  show ?thesis
  proof (cases r)
    case (Inl e)
    then show ?thesis using assms new st by (auto simp: instantiate_shard_def stop_heart_def)
  next
    case (Inr u)
    define q where "q = \<lparr>q_store = st, q_limits = qd_limits (drop_lock s d),
      task_handlers = dm_handlers dm, max_retry_handlers = dm_max_handlers dm,
      active_hashes = store_hashes st, executing_tasks = {}, queued_tasks = {}, completed_tasks = [],
      worker_pools = dm_pools dm, shared_pqs = dm_pqs dm, dispatcher_counts = dm_counts dm\<rparr>"
    show ?thesis
    proof (cases "sf_queue_lock (shard_dir s (drop_lock s d))")
      case True
      then show ?thesis
        using assms new st Inr by (auto simp: instantiate_shard_def new_with_shared_pools_def stop_heart_def Let_def)
    next
      case False
      then have "dm' = dm\<lparr>dm_shards := hm_insert s q (dm_shards dm)\<rparr>" "d' = take_queue_lock s (drop_lock s d)"
        using assms new st Inr
        by (simp_all add: instantiate_shard_def new_with_shared_pools_def take_queue_lock_def Let_def q_def)
      moreover have "q_store q = st" "executing_tasks q = {}"
        "queued_tasks q = {}"
        by (simp_all add: q_def)
      ultimately show ?thesis using f new False st Inr by (intro disjI2 exI [of _ q]) simp
    qed
  qed
qed

lemma instantiate_engines:
  assumes "engines_inv (mset (dm_shards dm) + R) d" "qd_members d \<noteq> None"
    and "instantiate_shard C w clk s (dm, d) = (dm', d')"
  shows "engines_inv (mset (dm_shards dm') + R) d' \<and> dm_lost dm' = dm_lost dm"
proof -
  let ?d = "drop_lock s d"
  have i: "engines_inv (mset (dm_shards dm) + R) ?d" by (rule engines_inv_same [OF assms(1) drop_same_files])
  have m: "qd_members ?d \<noteq> None" using assms(2) by (simp add: drop_lock_def)
  have l: "sf_log (shard_dir s ?d) = sf_log (shard_dir s d)" by (simp add: drop_lock_def)
  from instantiate_cases [OF assms(3)] show ?thesis
  proof (elim disjE exE conjE)
    assume "dm_shards dm' = dm_shards dm" "dm_lost dm' = dm_lost dm" "d' = ?d"
    then show ?thesis using i by simp
  next
    fix q
    assume new: "\<not> hm_contains (dm_shards dm) s" "\<not> sf_queue_lock (shard_dir s ?d)"
      "log_file (q_store q) = sf_log (shard_dir s d)"
      "dm' = dm\<lparr>dm_shards := hm_insert s q (dm_shards dm)\<rparr>" "d' = take_queue_lock s ?d"
    have "engines_inv (add_mset (s, q) (mset (dm_shards dm) + R)) d'"
      using engines_inv_start [OF i new(2) m] new(3,5) l by simp
    then show ?thesis using new(4) by (simp add: mset_insert_new [OF new(1)])
  qed
qed

lemma claim_cases:
  assumes "claim_one C w pid now skew (dm, d, owned) s = (dm', d', owned')"
    and "claim_shard C (bi_claim w s) s (dm_owner dm) now skew (qd_members d) = (r, f)"
    and "try_lock_shard (bi_lock w s) pid s (d\<lparr>qd_members := f\<rparr>) = (lr, d2)"
  shows "dm' = dm \<and> d' \<in> {d, d\<lparr>qd_members := f\<rparr>} \<or> (\<exists>out. r = Inr out) \<and>
    (dm' = dm \<and> d' \<in> {drop_lock s d2,
        d2\<lparr>qd_members := snd (revert_claim C (bi_revert w s) s (dm_owner dm) (qd_members d2))\<rparr>} \<or>
     instantiate_shard C (bi_open w s) (bi_clock w s) s (dm, d2) = (dm', d'))"
proof (cases "dm_heart dm")
  case True
  show ?thesis
  proof (cases r)
    case (Inl e)
    then show ?thesis using assms True by (simp add: claim_one_def)
  next
    case (Inr out)
    show ?thesis
    proof (cases "lr = Inr True")
      case True
      show ?thesis
        using assms \<open>dm_heart dm\<close> Inr True
        by (cases "instantiate_shard C (bi_open w s) (bi_clock w s) s (dm, d2)"; cases out) (simp_all add: claim_one_def)
    next
      case False
      then show ?thesis
        using assms \<open>dm_heart dm\<close> Inr by (cases lr; cases "projr lr") (simp_all add: claim_one_def)
    qed
  qed
qed (use assms in \<open>simp add: claim_one_def\<close>)

lemma claim_one_engines:
  assumes "engines_inv (mset (dm_shards dm) + R) d"
    and "claim_one C w pid now skew (dm, d, owned) s = (dm', d', owned')"
  shows "engines_inv (mset (dm_shards dm') + R) d' \<and> dm_lost dm' = dm_lost dm"
proof -
  obtain r f where c: "claim_shard C (bi_claim w s) s (dm_owner dm) now skew (qd_members d) = (r, f)" by fastforce
  obtain lr d2 where l: "try_lock_shard (bi_lock w s) pid s (d\<lparr>qd_members := f\<rparr>) = (lr, d2)" by fastforce
  let ?r = "d2\<lparr>qd_members := snd (revert_claim C (bi_revert w s) s (dm_owner dm) (qd_members d2))\<rparr>"
  have f: "same_files d (d\<lparr>qd_members := f\<rparr>)"
    using claim_keeps_file [OF c] by (auto simp: same_files_def)
  have d2: "same_files d d2" by (rule same_files_trans [OF f lock_same_files [OF l]])
  note inv = engines_inv_same [OF assms(1)]
  from claim_cases [OF assms(2) c l] show ?thesis
  proof (elim disjE conjE exE)
    assume "dm' = dm" "d' \<in> {d, d\<lparr>qd_members := f\<rparr>}"
    then show ?thesis using assms(1) inv [OF f] by auto
  next
    fix out
    assume "r = Inr out"
    then have m: "qd_members d2 \<noteq> None"
      using claim_keeps_file [OF c] lock_same_files [OF l] by (auto simp: same_files_def)
    have "same_files d2 ?r" using revert_keeps_file [OF m] by (simp add: same_files_def)
    then have r: "same_files d ?r" by (rule same_files_trans [OF d2])
    have k: "same_files d (drop_lock s d2)" by (rule same_files_trans [OF d2 drop_same_files])
    {
      assume "dm' = dm" "d' \<in> {drop_lock s d2, ?r}"
      then show ?thesis using inv [OF r] inv [OF k] by auto
    next
      assume "instantiate_shard C (bi_open w s) (bi_clock w s) s (dm, d2) = (dm', d')"
      then show ?thesis by (rule instantiate_engines [OF inv [OF d2] m])
    }
  qed
qed

lemma reconcile_engines:
  "mset (dm_shards (reconcile_shards owned dm)) + mset (dm_lost (reconcile_shards owned dm)) =
   mset (dm_shards dm) + mset (dm_lost dm)"
  by (simp add: reconcile_shards_def case_prod_unfold)

lemma put_engines:
  assumes "engines_inv (mset (dm_shards dm) + R) d" "hm_get (dm_shards dm) s = Some q"
    and "dm_shards dm' = hm_insert s q' (dm_shards dm)"
  shows "engines_inv (mset (dm_shards dm') + R) (put_log s q' d)"
proof -
  obtain M where "mset (dm_shards dm) = add_mset (s, q) M" "mset (dm_shards dm') = add_mset (s, q') M"
    using mset_insert_old [OF assms(2)] assms(3) by metis
  then show ?thesis using assms(1) engines_inv_write [of s q "M + R" d q'] by simp
qed

lemma enqueue_cases:
  assumes "enqueue_routed C w uuid owned t (dm, d) = (r, dm', d')"
  shows "dm' = dm \<and> d' = d \<or> (\<exists>s q q'. hm_get (dm_shards dm) s = Some q \<and>
    dm' = dm\<lparr>dm_shards := hm_insert s q' (dm_shards dm)\<rparr> \<and> d' = put_log s q' d)"
proof -
  define u where "u = (if task_id t = [] then t\<lparr>task_id := uuid\<rparr> else t)"
  have e: "enqueue_routed C w uuid owned t (dm, d) =
    (if owned = [] then (Some (Inl Standby), dm, d)
     else case route_shard (task_id u) owned of
         None \<Rightarrow> (None, dm, d)
       | Some s \<Rightarrow>
           (case hm_get (dm_shards dm) s of
              None \<Rightarrow> (Some (Inl No_Target), dm, d)
            | Some q \<Rightarrow>
                (case enqueue C w u (at_log s d q) of
                   (r, q') \<Rightarrow>
                     (Some (case r of Inl e \<Rightarrow> Inl (Shard_Error e) | Inr u \<Rightarrow> Inr u),
                      dm\<lparr>dm_shards := hm_insert s q' (dm_shards dm)\<rparr>, put_log s q' d))))"
    unfolding enqueue_routed_def u_def [symmetric] Let_def by (rule prod.case)
  show ?thesis
    using assms unfolding e by (auto split: if_splits option.splits prod.splits) blast?
qed

lemma enqueue_engines:
  assumes "engines_inv (mset (dm_shards dm) + R) d" "enqueue_routed C w uuid owned t (dm, d) = (r, dm', d')"
  shows "engines_inv (mset (dm_shards dm') + R) d' \<and> dm_lost dm' = dm_lost dm"
  using enqueue_cases [OF assms(2)] assms(1) by (auto intro: put_engines)

lemma engine_step_cases:
  assumes "engine_step op s (dm, d) = (r, dm', d')"
  shows "dm' = dm \<and> d' = d \<or> (\<exists>q q'. hm_get (dm_shards dm) s = Some q \<and>
    dm_shards dm' = hm_insert s q' (dm_shards dm) \<and> dm_lost dm' = dm_lost dm \<and> d' = put_log s q' d)"
  using assms
  by (cases "hm_get (dm_shards dm) s") (auto simp: engine_step_def put_engine_def split: prod.splits)

lemma engine_step_engines:
  assumes "engines_inv (mset (dm_shards dm) + R) d" "engine_step op s (dm, d) = (r, dm', d')"
  shows "engines_inv (mset (dm_shards dm') + R) d' \<and> dm_lost dm' = dm_lost dm"
  using engine_step_cases [OF assms(2)] assms(1) by (auto intro: put_engines)

text \<open>New handlers do not change what the engines have in common with the disk.\<close>

lemma engines_inv_map:
  assumes "engines_inv (mset xs + R) d" "\<And>s q. q_store (f s q) = q_store q"
  shows "engines_inv (mset (map (\<lambda>(s, q). (s, f s q)) xs) + R) d"
  using assms(1)
proof (induction xs arbitrary: R)
  case (Cons x xs)
  obtain s q where x: "x = (s, q)" by fastforce
  have "engines_inv (add_mset (s, q) (mset xs + R)) d" using Cons.prems x by simp
  then have "engines_inv (add_mset (s, f s q) (mset xs + R)) d"
    using assms(2) by (auto intro: engines_inv_replace)
  then have "engines_inv (mset xs + add_mset (s, f s q) R) d" by simp
  from Cons.IH [OF this] show ?case using x by simp
qed simp

section \<open>Every step keeps the invariant\<close>

abbreviation rest_engines :: "node \<Rightarrow> (string \<times> queue) multiset \<Rightarrow> (string \<times> queue) multiset" where
  "rest_engines n R \<equiv> mset (dm_lost (nd_daemon n)) + mset (nd_stopping n) + R"

lemma node_engines_split: "mset (node_engines n) + R = mset (dm_shards (nd_daemon n)) + rest_engines n R"
  by (simp add: node_engines_def)

lemma node_daemon_changes:
  assumes "engines_inv (mset (dm_shards dm) + rest_engines n R) d \<and> dm_lost dm = dm_lost (nd_daemon n)"
    and "nd_stopping n' = nd_stopping n" "nd_daemon n' = dm"
  shows "engines_inv (mset (node_engines n') + R) d"
  using assms by (simp add: node_engines_def ac_simps)

lemma beat_begin_engines:
  "fst (beat_begin C w now skew (n, d)) = n' \<Longrightarrow> node_engines n' = node_engines n"
  "snd (beat_begin C w now skew (n, d)) = d"
  by (auto simp: beat_begin_def node_engines_def stop_heart_def Let_def)

lemma detached_engines:
  assumes "engines_inv (mset (xs @ (s, q) # ys) + R) d" "detached_step op s q (dm, d) = (q', dm', d')"
  shows "engines_inv (mset (xs @ (s, q') # ys) + R) d'" "dm_shards dm' = dm_shards dm" "dm_lost dm' = dm_lost dm"
proof -
  have e: "d' = put_log s q' d" "dm_shards dm' = dm_shards dm" "dm_lost dm' = dm_lost dm"
    using assms(2) by (auto simp: detached_step_def Let_def)
  show "engines_inv (mset (xs @ (s, q') # ys) + R) d'"
    using engines_inv_write [of s q "mset xs + mset ys + R" d q'] assms(1) by (simp add: e(1))
  show "dm_shards dm' = dm_shards dm" "dm_lost dm' = dm_lost dm" by (rule e(2), rule e(3))
qed

lemma handler_engines:
  assumes "engines_inv (mset (dm_shards dm) + R) d"
    and dm'_def: "dm' = daemon_register_task_handler ty (daemon_register_max_retry_handler ty2 dm)"
  shows "engines_inv (mset (dm_shards dm') + R) d \<and> dm_lost dm' = dm_lost dm"
proof -
  have "engines_inv (mset (dm_shards (daemon_register_max_retry_handler ty2 dm)) + R) d"
    using engines_inv_map [OF assms(1), of "\<lambda>s. register_max_retry_handler ty2"]
    by (simp add: daemon_register_max_retry_handler_def register_max_retry_handler_def)
  from engines_inv_map [OF this, of "\<lambda>s. register_task_handler ty"] show ?thesis
    by (simp add: dm'_def daemon_register_task_handler_def daemon_register_max_retry_handler_def
        register_task_handler_def)
qed

inductive_cases node_stepE: "node_step C (n, d) (n', d')"

lemmas node_step_cases =
  node_stepE [consumes 1, case_names begin_beat claim_next end_beat user_enqueue user_handler user_shutdown
    engine_works lost_works stopping_works engine_stops]

lemma node_step_keeps:
  assumes "node_step C (n, d) (n', d')" "engines_inv (mset (node_engines n) + R) d"
  shows "engines_inv (mset (node_engines n') + R) d'"
proof -
  note i = assms(2) [unfolded node_engines_split]
  from assms(1) show ?thesis
  proof (cases rule: node_step_cases)
    case (begin_beat w now skew)
    then show ?thesis using assms(2) beat_begin_engines by (metis fst_conv snd_conv)
  next
    case (claim_next b s todo w)
    obtain dm e owned where c: "claim_one C w (nd_pid n) (bt_now b) (bt_skew b) (nd_daemon n, d, bt_owned b) s = (dm, e, owned)"
      by (metis prod_cases3)
    show ?thesis
      using claim_one_engines [OF i c] claim_next(1) c by (simp add: beat_claim_def node_engines_def ac_simps)
  next
    case (end_beat b)
    then show ?thesis
      using assms(2) reconcile_engines [of "bt_owned b" "nd_daemon n"]
      by (simp add: beat_end_def node_engines_def add.assoc [symmetric])
  next
    case (user_enqueue w uuid owned t r dm)
    show ?thesis by (rule node_daemon_changes [OF enqueue_engines [OF i user_enqueue(2)]]) (simp_all add: user_enqueue(1))
  next
    case (user_handler ty ty2)
    show ?thesis unfolding user_handler(2) by (rule node_daemon_changes [OF handler_engines [OF i refl]]) (simp_all add: user_handler(1))
  next
    case user_shutdown
    then show ?thesis using assms(2) by (simp add: shutdown_begin_def node_engines_def ac_simps)
  next
    case (engine_works op s r dm)
    show ?thesis by (rule node_daemon_changes [OF engine_step_engines [OF i engine_works(3)]]) (simp_all add: engine_works(1))
  next
    case (lost_works op xs s q ys q' dm)
    have "engines_inv (mset (xs @ (s, q) # ys) + (mset (dm_shards (nd_daemon n)) + mset (nd_stopping n) + R)) d"
      using assms(2) lost_works(3) by (simp add: node_engines_def ac_simps)
    from detached_engines [OF this lost_works(4)] show ?thesis using lost_works(1) by (simp add: node_engines_def ac_simps)
  next
    case (stopping_works op xs s q ys q' dm)
    have "engines_inv (mset (xs @ (s, q) # ys) + (mset (dm_shards (nd_daemon n)) + mset (dm_lost (nd_daemon n)) + R)) d"
      using assms(2) stopping_works(3) by (simp add: node_engines_def ac_simps)
    from detached_engines [OF this stopping_works(4)] show ?thesis using stopping_works(1) by (simp add: node_engines_def ac_simps)
  next
    case (engine_stops xs s q ys)
    have "engines_inv (add_mset (s, q) (mset (node_engines n') + R)) d"
      using assms(2) engine_stops(1,2) by (simp add: node_engines_def)
    then show ?thesis using engines_inv_stop engine_stops(3) by simp
  qed
qed

lemma release_engines:
  "engines_inv (mset xs + R) d \<Longrightarrow> engines_inv R (foldl release_queue_lock d (map fst xs))"
proof (induction xs arbitrary: d)
  case (Cons x xs)
  then have "engines_inv (add_mset (fst x, snd x) (mset xs + R)) d" by simp
  from Cons.IH [OF engines_inv_stop [OF this]] show ?case by simp
qed simp

lemma cluster_engines_split:
  "cl_nodes c = xs @ n # ys \<Longrightarrow>
   cluster_engines c = mset (node_engines n) + mset (concat (map node_engines (xs @ ys)))"
  by (simp add: cluster_engines_def ac_simps)

definition cluster_inv :: "cluster \<Rightarrow> bool" where
  "cluster_inv c \<longleftrightarrow> engines_inv (cluster_engines c) (cl_dir c)"

lemma daemon_new_engines:
  assumes "engines_inv E d" "daemon_new C fault w me name requested d = (r, d')"
  shows "engines_inv E d'" "r = Some dm \<Longrightarrow> dm_shards dm = [] \<and> dm_lost dm = []"
proof -
  obtain b e where b: "resolve_layout C fault w name requested d = (b, e)" by fastforce
  then have "d' = e" using assms(2) by (auto simp: daemon_new_def split: option.splits sum.splits)
  then show "engines_inv E d'" using boot_keeps_engines [OF assms(1) b] by simp
  show "r = Some dm \<Longrightarrow> dm_shards dm = [] \<and> dm_lost dm = []"
    using assms(2) by (auto simp: daemon_new_def split: option.splits sum.splits prod.splits)
qed

lemma cluster_inv_step:
  assumes "cluster_step C c c'" "cluster_inv c"
  shows "cluster_inv c'"
  using assms(1)
proof (cases rule: cluster_step.cases)
  case (boot fault w me name requested dm d pid)
  have "cluster_engines c' = cluster_engines c"
    using boot(1) daemon_new_engines(2) [OF assms(2) [unfolded cluster_inv_def] boot(2)]
    by (simp add: cluster_engines_def new_node_def node_engines_def)
  then show ?thesis
    using boot(1) daemon_new_engines(1) [OF assms(2) [unfolded cluster_inv_def] boot(2)] by (simp add: cluster_inv_def)
next
  case (boot_fails fault w me name requested d)
  then show ?thesis
    using daemon_new_engines(1) [OF assms(2) [unfolded cluster_inv_def] boot_fails(2)]
    by (simp add: cluster_inv_def cluster_engines_def)
next
  case (work xs n ys n' d)
  show ?thesis
    using node_step_keeps [OF work(3)] assms(2) cluster_engines_split [OF work(2)]
      cluster_engines_split [of c' xs n' ys] work(1) by (simp add: cluster_inv_def)
next
  case (crash xs n ys)
  have "cluster_engines c' = mset (concat (map node_engines (xs @ ys)))"
    using crash(1) by (simp add: cluster_engines_def)
  then show ?thesis
    using release_engines assms(2) cluster_engines_split [OF crash(2)] crash(1) by (simp add: cluster_inv_def)
qed

lemma cluster_inv_reachable:
  assumes "cluster_reachable C c"
  shows "cluster_inv c"
proof -
  obtain c0 where c0: "quiet_start c0" "(cluster_step C)\<^sup>*\<^sup>* c0 c"
    using assms unfolding cluster_reachable_def by blast
  have "cluster_inv c0"
    using c0(1) by (simp add: quiet_start_def cluster_inv_def cluster_engines_def engines_inv_def)
  with c0(2) show ?thesis by (induction rule: rtranclp_induct) (auto intro: cluster_inv_step)
qed

section \<open>Heartbeats and shutdowns are runs of steps\<close>

text \<open>The operations of a daemon, as defined for it alone, are what a node does when nothing comes between.\<close>

lemma run_claims:
  "foldl (claim_one C w pid now skew) (dm, d, owned) ss = (dm', d', owned') \<Longrightarrow>
   (node_step C)\<^sup>*\<^sup>*
     (\<lparr>nd_daemon = dm, nd_pid = pid, nd_beat = Some \<lparr>bt_now = now, bt_skew = skew, bt_todo = ss, bt_owned = owned\<rparr>,
        nd_stopping = st\<rparr>, d)
     (\<lparr>nd_daemon = dm', nd_pid = pid, nd_beat = Some \<lparr>bt_now = now, bt_skew = skew, bt_todo = [], bt_owned = owned'\<rparr>,
        nd_stopping = st\<rparr>, d')"
proof (induction ss arbitrary: dm d owned)
  case (Cons s ss)
  obtain dm1 d1 owned1 where c: "claim_one C w pid now skew (dm, d, owned) s = (dm1, d1, owned1)" by (metis prod_cases3)
  let ?b = "\<lparr>bt_now = now, bt_skew = skew, bt_todo = s # ss, bt_owned = owned\<rparr>"
  let ?n = "\<lparr>nd_daemon = dm, nd_pid = pid, nd_beat = Some ?b, nd_stopping = st\<rparr>"
  have "node_step C (?n, d) (beat_claim C w ?b s ss (?n, d))"
    by (rule claim_next) simp_all
  moreover have "beat_claim C w ?b s ss (?n, d) = (\<lparr>nd_daemon = dm1, nd_pid = pid,
      nd_beat = Some \<lparr>bt_now = now, bt_skew = skew, bt_todo = ss, bt_owned = owned1\<rparr>, nd_stopping = st\<rparr>, d1)"
    using c by (simp add: beat_claim_def)
  ultimately show ?case
    using Cons.IH [of dm1 d1 owned1] Cons.prems c by (simp add: converse_rtranclp_into_rtranclp)
qed simp

lemma heartbeat_is_run:
  assumes "heartbeat C w pid now skew (dm, d) = (dm', d')"
  shows "(node_step C)\<^sup>*\<^sup>*
    (\<lparr>nd_daemon = dm, nd_pid = pid, nd_beat = None, nd_stopping = st\<rparr>, d)
    (\<lparr>nd_daemon = dm', nd_pid = pid, nd_beat = None, nd_stopping = st\<rparr>, d')"
proof -
  let ?n = "\<lambda>dm b. \<lparr>nd_daemon = dm, nd_pid = pid, nd_beat = b, nd_stopping = st\<rparr>"
  have first: "node_step C (?n dm None, d) (beat_begin C (bi_load w) now skew (?n dm None, d))"
    by (rule begin_beat) simp
  show ?thesis
  proof (cases "dm_heart dm \<and> \<not> dm_stop dm")
    case True
    define ss where "ss = (case fst (load C (bi_load w) (qd_members d)) of
      Inl e \<Rightarrow> [] | Inr m \<Rightarrow> claimable_shards m now skew (dm_owner dm))"
    obtain dm1 d1 owned where f: "foldl (claim_one C w pid now skew) (dm, d, []) ss = (dm1, d1, owned)"
      by (metis prod_cases3)
    let ?b = "\<lambda>todo owned. \<lparr>bt_now = now, bt_skew = skew, bt_todo = todo, bt_owned = owned\<rparr>"
    have "(node_step C)\<^sup>*\<^sup>* (?n dm None, d) (?n dm (Some (?b ss [])), d)"
      using first True by (auto simp: beat_begin_def ss_def cong: sum.case_cong)
    also have "(node_step C)\<^sup>*\<^sup>* \<dots> (?n dm1 (Some (?b [] owned)), d1)"
      by (rule run_claims [OF f])
    also have "(node_step C)\<^sup>*\<^sup>* \<dots> (beat_end (?b [] owned) (?n dm1 (Some (?b [] owned))), d1)"
      by (rule r_into_rtranclp, rule end_beat) simp_all
    also have "(beat_end (?b [] owned) (?n dm1 (Some (?b [] owned))), d1) = (?n dm' None, d')"
      using assms True f by (auto simp: heartbeat_def ss_def [symmetric] beat_end_def Let_def split: if_splits)
    finally show ?thesis .
  next
    case False
    then have "beat_begin C (bi_load w) now skew (?n dm None, d) = (?n dm' None, d')"
      using assms by (auto simp: heartbeat_def beat_begin_def)
    then show ?thesis using first by (simp add: r_into_rtranclp)
  qed
qed

lemma run_stops:
  "(node_step C)\<^sup>*\<^sup>* (n\<lparr>nd_stopping := st @ xs\<rparr>, d) (n\<lparr>nd_stopping := st\<rparr>, foldl release_queue_lock d (map fst xs))"
proof (induction xs arbitrary: d)
  case (Cons x xs)
  obtain s q where x: "x = (s, q)" by fastforce
  have "node_step C (n\<lparr>nd_stopping := st @ x # xs\<rparr>, d)
      ((n\<lparr>nd_stopping := st @ x # xs\<rparr>)\<lparr>nd_stopping := st @ xs\<rparr>, release_queue_lock d s)"
    by (rule engine_stops [where q = q]) (simp add: x)
  then show ?case using Cons.IH x by (simp add: converse_rtranclp_into_rtranclp)
qed simp

lemma shutdown_is_run:
  assumes "shutdown (nd_daemon n, d) = (dm', d')"
  shows "(node_step C)\<^sup>*\<^sup>* (n, d) (n\<lparr>nd_daemon := dm'\<rparr>, d')"
proof -
  have e: "dm' = (nd_daemon n)\<lparr>dm_stop := True, dm_shards := []\<rparr>"
    "d' = foldl release_queue_lock d (map fst (dm_shards (nd_daemon n)))"
    using assms by (auto simp: shutdown_def hm_keys_def)
  have "node_step C (n, d) (shutdown_begin n, d)" by (rule user_shutdown)
  moreover have "shutdown_begin n = n\<lparr>nd_daemon := dm', nd_stopping := nd_stopping n @ dm_shards (nd_daemon n)\<rparr>"
    by (simp add: shutdown_begin_def e)
  ultimately show ?thesis
    using run_stops [where n = "n\<lparr>nd_daemon := dm'\<rparr>" and st = "nd_stopping n" and xs = "dm_shards (nd_daemon n)"] e(2)
    by (simp add: converse_rtranclp_into_rtranclp)
qed

section \<open>Who writes a shard's log\<close>

text \<open>A step leaves the log of a shard as it is, unless it is a step of the engine that runs on the shard.\<close>

definition log_kept :: "string \<Rightarrow> queue_dir \<Rightarrow> queue_dir \<Rightarrow> bool" where
  "log_kept s d d' \<longleftrightarrow> sf_log (shard_dir s d') = sf_log (shard_dir s d)"

definition own_write :: "string \<Rightarrow> (string \<times> queue) list \<Rightarrow> queue_dir \<Rightarrow> queue_dir \<Rightarrow> bool" where
  "own_write s es d d' \<longleftrightarrow>
     s \<in> fst ` set es \<and> sf_queue_lock (shard_dir s d') = sf_queue_lock (shard_dir s d)"

lemma same_files_log: "same_files d d' \<Longrightarrow> log_kept s d d'"
  by (simp add: same_files_def log_kept_def)

lemma log_kept_trans: "log_kept s d1 d2 \<Longrightarrow> log_kept s d2 d3 \<Longrightarrow> log_kept s d1 d3"
  by (simp add: log_kept_def)

lemma log_kept_locks [simp, intro]:
  "log_kept s d (take_queue_lock s' d)" "log_kept s d (release_queue_lock d s')" "log_kept s d d"
  by (simp_all add: log_kept_def take_queue_lock_def release_queue_lock_def)

lemma put_log_own: "s' \<in> fst ` set es \<Longrightarrow> log_kept s d (put_log s' q d) \<or> own_write s es d (put_log s' q d)"
  by (cases "s = s'") (simp_all add: log_kept_def own_write_def)

lemma hm_get_key: "hm_get m k = Some v \<Longrightarrow> k \<in> fst ` set m"
  unfolding hm_get_def by (force dest: map_of_SomeD)

lemma node_has_engine: "hm_get (dm_shards (nd_daemon n)) s = Some q \<Longrightarrow> s \<in> fst ` set (node_engines n)"
  using hm_get_key by (fastforce simp: node_engines_def)

lemma claim_one_log:
  assumes "claim_one C w pid now skew (dm, d, owned) s = (dm', d', owned')"
  shows "log_kept s' d d'"
proof -
  obtain r f where c: "claim_shard C (bi_claim w s) s (dm_owner dm) now skew (qd_members d) = (r, f)" by fastforce
  obtain lr d2 where l: "try_lock_shard (bi_lock w s) pid s (d\<lparr>qd_members := f\<rparr>) = (lr, d2)" by fastforce
  have d2: "log_kept s' d d2" using same_files_log [OF lock_same_files [OF l]] by (simp add: log_kept_def)
  have k: "log_kept s' d (drop_lock s d2)"
    by (rule log_kept_trans [OF d2 same_files_log [OF drop_same_files]])
  from claim_cases [OF assms c l] show ?thesis
  proof (elim disjE conjE exE)
    assume "d' \<in> {d, d\<lparr>qd_members := f\<rparr>}"
    then show ?thesis by (auto simp: log_kept_def)
  next
    assume "d' \<in> {drop_lock s d2, d2\<lparr>qd_members := snd (revert_claim C (bi_revert w s) s (dm_owner dm) (qd_members d2))\<rparr>}"
    then show ?thesis using k d2 by (auto simp: log_kept_def)
  next
    assume "instantiate_shard C (bi_open w s) (bi_clock w s) s (dm, d2) = (dm', d')"
    then show ?thesis using instantiate_cases log_kept_trans [OF k] k by blast
  qed
qed

lemma node_step_log:
  assumes "node_step C (n, d) (n', d')"
  shows "log_kept s d d' \<or> own_write s (node_engines n) d d'"
  using assms
proof (cases rule: node_step_cases)
  case (begin_beat w now skew)
  then show ?thesis using beat_begin_engines(2) by (metis log_kept_locks(3) snd_conv)
next
  case (claim_next b s' todo w)
  obtain dm e owned where c: "claim_one C w (nd_pid n) (bt_now b) (bt_skew b) (nd_daemon n, d, bt_owned b) s' = (dm, e, owned)"
    by (metis prod_cases3)
  show ?thesis using claim_one_log [OF c] claim_next(1) c by (simp add: beat_claim_def)
next
  case (user_enqueue w uuid owned t r dm)
  show ?thesis using enqueue_cases [OF user_enqueue(2)] put_log_own node_has_engine log_kept_locks(3) by metis
next
  case (engine_works op s' r dm)
  show ?thesis using engine_step_cases [OF engine_works(3)] put_log_own node_has_engine log_kept_locks(3) by metis
next
  case (lost_works op xs s' q ys q' dm)
  then have "s' \<in> fst ` set (node_engines n)" "d' = put_log s' q' d"
    by (auto simp: node_engines_def detached_step_def Let_def)
  then show ?thesis using put_log_own by simp
next
  case (stopping_works op xs s' q ys q' dm)
  then have "s' \<in> fst ` set (node_engines n)" "d' = put_log s' q' d"
    by (auto simp: node_engines_def detached_step_def Let_def)
  then show ?thesis using put_log_own by simp
qed simp_all

section \<open>New engines\<close>

text \<open>An engine that has just loaded the log of its shard.\<close>

definition fresh_on :: "crates \<Rightarrow> string \<Rightarrow> queue_dir \<Rightarrow> queue \<Rightarrow> bool" where
  "fresh_on C s d q \<longleftrightarrow>
     (\<exists>w clk. store_new C w clk (sf_log (shard_dir s d)) = (Inr (), q_store q)) \<and>
     executing_tasks q = {} \<and> queued_tasks q = {}"

lemma key_insert: "(s', q) \<in> set (hm_insert s p m) \<Longrightarrow> s' \<noteq> s \<Longrightarrow> (s', q) \<in> set m"
  unfolding hm_insert_def by (induction m) (auto split: if_splits)

lemma new_insert: "(s, q) \<in> set (hm_insert s p m) \<Longrightarrow> s \<notin> fst ` set m \<Longrightarrow> q = p"
  unfolding hm_insert_def by (induction m) force+

lemma claim_one_new:
  assumes "claim_one C w pid now skew (dm, d, owned) s = (dm', d', owned')"
    and "(s', q) \<in> set (dm_shards dm')" "s' \<notin> fst ` set (dm_shards dm)"
  shows "fresh_on C s' d q"
proof -
  obtain r f where c: "claim_shard C (bi_claim w s) s (dm_owner dm) now skew (qd_members d) = (r, f)" by fastforce
  obtain lr d2 where l: "try_lock_shard (bi_lock w s) pid s (d\<lparr>qd_members := f\<rparr>) = (lr, d2)" by fastforce
  have ne: "dm_shards dm' \<noteq> dm_shards dm" using assms(2,3) by force
  then have "instantiate_shard C (bi_open w s) (bi_clock w s) s (dm, d2) = (dm', d')"
    using claim_cases [OF assms(1) c l] by auto
  from instantiate_cases [OF this] ne obtain p where p:
    "dm' = dm\<lparr>dm_shards := hm_insert s p (dm_shards dm)\<rparr>" "executing_tasks p = {}" "queued_tasks p = {}"
    "store_new C (bi_open w s) (bi_clock w s) (sf_log (shard_dir s d2)) = (Inr (), q_store p)" by blast
  have s: "s' = s" using key_insert [of s' q s p "dm_shards dm"] assms(2,3) p(1) by force
  then have "q = p" using new_insert [of s q p "dm_shards dm"] assms(2,3) p(1) by simp
  moreover have "sf_log (shard_dir s d2) = sf_log (shard_dir s d)"
    using same_files_log [OF lock_same_files [OF l]] by (simp add: log_kept_def)
  ultimately show ?thesis using p(2-4) s by (auto simp: fresh_on_def)
qed

lemma keys_insert: "hm_get m s = Some q \<Longrightarrow> fst ` set (hm_insert s p m) = fst ` set m"
  using hm_get_key [of m s q] hm_keys_insert [of s p m] by (simp add: hm_keys_def insert_absorb)

lemma claim_one_lost:
  assumes "claim_one C w pid now skew (dm, d, owned) s = (dm', d', owned')"
  shows "dm_lost dm' = dm_lost dm"
proof -
  obtain r f where c: "claim_shard C (bi_claim w s) s (dm_owner dm) now skew (qd_members d) = (r, f)" by fastforce
  obtain lr d2 where l: "try_lock_shard (bi_lock w s) pid s (d\<lparr>qd_members := f\<rparr>) = (lr, d2)" by fastforce
  from claim_cases [OF assms c l] show ?thesis
  proof (elim disjE conjE exE)
    assume "instantiate_shard C (bi_open w s) (bi_clock w s) s (dm, d2) = (dm', d')"
    from instantiate_cases [OF this] show ?thesis by (elim disjE conjE exE) simp_all
  qed simp_all
qed

lemma node_keys:
  "fst ` set (node_engines n) =
   fst ` set (dm_shards (nd_daemon n)) \<union> fst ` set (dm_lost (nd_daemon n)) \<union> fst ` set (nd_stopping n)"
  by (simp add: node_engines_def image_Un Un_assoc)

lemma handler_keys:
  "fst ` set (dm_shards (daemon_register_task_handler ty (daemon_register_max_retry_handler ty2 dm))) = fst ` set (dm_shards dm)"
  by (simp add: daemon_register_task_handler_def daemon_register_max_retry_handler_def image_image case_prod_unfold)

lemma enqueue_keys:
  assumes "enqueue_routed C w uuid owned t (dm, d) = (r, dm', d')"
  shows "fst ` set (dm_shards dm') = fst ` set (dm_shards dm)" "dm_lost dm' = dm_lost dm"
  using enqueue_cases [OF assms] by (elim disjE exE conjE; simp add: keys_insert)+

lemma engine_step_keys:
  assumes "engine_step op s (dm, d) = (r, dm', d')"
  shows "fst ` set (dm_shards dm') = fst ` set (dm_shards dm)" "dm_lost dm' = dm_lost dm"
  using engine_step_cases [OF assms] by (elim disjE exE conjE; simp add: keys_insert)+

lemma node_step_new:
  assumes "node_step C (n, d) (n', d')" "(s, q) \<in> set (node_engines n')" "s \<notin> fst ` set (node_engines n)"
  shows "fresh_on C s d q"
proof (rule ccontr)
  assume nf: "\<not> fresh_on C s d q"
  have "fst ` set (node_engines n') \<subseteq> fst ` set (node_engines n)"
    using assms(1)
  proof (cases rule: node_step_cases)
    case (begin_beat w now skew)
    then show ?thesis using beat_begin_engines(1) by (metis fst_conv order_refl)
  next
    case (claim_next b s' todo w)
    obtain dm e owned where c: "claim_one C w (nd_pid n) (bt_now b) (bt_skew b) (nd_daemon n, d, bt_owned b) s' = (dm, e, owned)"
      by (metis prod_cases3)
    have "node_engines n' = dm_shards dm @ dm_lost (nd_daemon n) @ nd_stopping n"
      using claim_next(1) c claim_one_lost [OF c] by (simp add: beat_claim_def node_engines_def)
    then have "(s, q) \<in> set (dm_shards dm)" using assms(2,3) by (force simp: node_keys)
    then show ?thesis using claim_one_new [OF c] nf assms(3) by (simp add: node_keys)
  next
    case (end_beat b)
    show ?thesis using end_beat(3) by (auto simp: beat_end_def node_keys reconcile_shards_def)
  next
    case (user_enqueue w uuid owned t r dm)
    show ?thesis using enqueue_keys [OF user_enqueue(2)] by (simp add: user_enqueue(1) node_keys)
  next
    case (user_handler ty ty2)
    have "dm_lost (daemon_register_task_handler ty (daemon_register_max_retry_handler ty2 dm)) = dm_lost dm" for dm
      by (simp add: daemon_register_task_handler_def daemon_register_max_retry_handler_def)
    then show ?thesis by (simp add: user_handler(1) node_keys handler_keys)
  next
    case user_shutdown
    then show ?thesis by (auto simp: node_keys shutdown_begin_def)
  next
    case (engine_works op s' r dm)
    show ?thesis using engine_step_keys [OF engine_works(3)] by (simp add: engine_works(1) node_keys)
  next
    case (lost_works op xs s' q ys q' dm)
    then have "dm_shards dm = dm_shards (nd_daemon n)" by (auto simp: detached_step_def Let_def)
    then show ?thesis by (simp add: lost_works(1,3) node_keys)
  next
    case (stopping_works op xs s' q ys q' dm)
    then have "dm_shards dm = dm_shards (nd_daemon n)" "dm_lost dm = dm_lost (nd_daemon n)"
      by (auto simp: detached_step_def Let_def)
    then show ?thesis by (simp add: stopping_works(1,3) node_keys)
  next
    case (engine_stops xs s' q' ys)
    then show ?thesis by (auto simp: node_keys)
  qed
  then show False using assms(2,3) by force
qed

section \<open>What a step of the cluster does to a shard\<close>

definition quiet_on :: "string \<Rightarrow> cluster \<Rightarrow> bool" where
  "quiet_on s c \<longleftrightarrow> (\<forall>q. (s, q) \<notin># cluster_engines c)"

lemma quiet_on_free: "cluster_inv c \<Longrightarrow> quiet_on s c \<longleftrightarrow> \<not> sf_queue_lock (shard_dir s (cl_dir c))"
proof -
  assume "cluster_inv c"
  then have "count (image_mset fst (cluster_engines c)) s = of_bool (sf_queue_lock (shard_dir s (cl_dir c)))"
    by (simp add: cluster_inv_def engines_inv_def)
  then have "s \<in># image_mset fst (cluster_engines c) \<longleftrightarrow> sf_queue_lock (shard_dir s (cl_dir c))"
    unfolding count_greater_zero_iff [symmetric] by simp
  moreover have "quiet_on s c \<longleftrightarrow> s \<notin> fst ` set_mset (cluster_engines c)"
    unfolding quiet_on_def image_iff by (metis fst_conv prod.collapse)
  ultimately show ?thesis by simp
qed

lemma release_log: "log_kept s d (foldl release_queue_lock d ks)"
proof (induction ks arbitrary: d)
  case (Cons k ks)
  show ?case using log_kept_trans [OF log_kept_locks(2) Cons.IH] by simp
qed simp

lemma release_members: "qd_members (foldl release_queue_lock d ks) = qd_members d"
  by (induction ks arbitrary: d) (simp_all add: release_queue_lock_def)

lemma daemon_new_dir:
  assumes "daemon_new C fault w me name requested d = (r, d')" "qd_members d \<noteq> None"
  shows "d' = d"
proof -
  obtain b e where b: "resolve_layout C fault w name requested d = (b, e)" by fastforce
  then have "d' = e" using assms(1) by (auto simp: daemon_new_def split: option.splits sum.splits)
  then show ?thesis using boot_locks(2) [OF b] assms(2) by simp
qed

lemma node_in_cluster: "cl_nodes c = xs @ n # ys \<Longrightarrow> (s, q) \<in> set (node_engines n) \<Longrightarrow> (s, q) \<in># cluster_engines c"
  by (simp add: cluster_engines_def)

lemma cluster_step_log:
  assumes "cluster_step C c c'" "qd_members (cl_dir c) \<noteq> None"
  shows "log_kept s (cl_dir c) (cl_dir c') \<or>
    \<not> quiet_on s c \<and> sf_queue_lock (shard_dir s (cl_dir c')) = sf_queue_lock (shard_dir s (cl_dir c))"
  using assms(1)
proof (cases rule: cluster_step.cases)
  case (work xs n ys n' d)
  show ?thesis
  proof (cases "s \<in> fst ` set (node_engines n)")
    case True
    then obtain q where "(s, q) \<in> set (node_engines n)" by force
    then have "\<not> quiet_on s c" using node_in_cluster [OF work(2)] unfolding quiet_on_def by blast
    then show ?thesis using node_step_log [OF work(3), of s] work(1) by (auto simp: own_write_def)
  next
    case False
    then show ?thesis using node_step_log [OF work(3), of s] work(1) by (auto simp: own_write_def)
  qed
next
  case (boot fault w me name requested dm d pid)
  then show ?thesis using daemon_new_dir [OF boot(2) assms(2)] by simp
next
  case (boot_fails fault w me name requested d)
  then show ?thesis using daemon_new_dir [OF boot_fails(2) assms(2)] by simp
next
  case (crash xs n ys)
  then show ?thesis using release_log by simp
qed

lemma claim_one_members:
  assumes "claim_one C w pid now skew (dm, d, owned) s = (dm', d', owned')" "qd_members d \<noteq> None"
  shows "qd_members d' \<noteq> None"
proof -
  obtain r f where c: "claim_shard C (bi_claim w s) s (dm_owner dm) now skew (qd_members d) = (r, f)" by fastforce
  obtain lr d2 where l: "try_lock_shard (bi_lock w s) pid s (d\<lparr>qd_members := f\<rparr>) = (lr, d2)" by fastforce
  have f: "f \<noteq> None" using claim_keeps_file [OF c] assms(2) by blast
  then have d2: "qd_members d2 \<noteq> None" using lock_same_files [OF l] by (simp add: same_files_def)
  from claim_cases [OF assms(1) c l] show ?thesis
  proof (elim disjE conjE exE)
    assume "d' \<in> {d, d\<lparr>qd_members := f\<rparr>}"
    then show ?thesis using f assms(2) by auto
  next
    assume "d' \<in> {drop_lock s d2, d2\<lparr>qd_members := snd (revert_claim C (bi_revert w s) s (dm_owner dm) (qd_members d2))\<rparr>}"
    then show ?thesis using d2 revert_keeps_file [OF d2] by (auto simp: drop_lock_def)
  next
    assume "instantiate_shard C (bi_open w s) (bi_clock w s) s (dm, d2) = (dm', d')"
    from instantiate_cases [OF this] show ?thesis
      by (elim disjE conjE exE) (use d2 in \<open>simp_all add: drop_lock_def take_queue_lock_def\<close>)
  qed
qed

lemma node_step_members:
  assumes "node_step C (n, d) (n', d')" "qd_members d \<noteq> None"
  shows "qd_members d' \<noteq> None"
  using assms(1)
proof (cases rule: node_step_cases)
  case (begin_beat w now skew)
  then show ?thesis using beat_begin_engines(2) assms(2) by (metis snd_conv)
next
  case (claim_next b s' todo w)
  obtain dm e owned where c: "claim_one C w (nd_pid n) (bt_now b) (bt_skew b) (nd_daemon n, d, bt_owned b) s' = (dm, e, owned)"
    by (metis prod_cases3)
  show ?thesis using claim_one_members [OF c assms(2)] claim_next(1) c by (simp add: beat_claim_def)
next
  case (user_enqueue w uuid owned t r dm)
  then show ?thesis using enqueue_cases [OF user_enqueue(2)] assms(2) by (elim disjE exE conjE) simp_all
next
  case (engine_works op s' r dm)
  then show ?thesis using engine_step_cases [OF engine_works(3)] assms(2) by (elim disjE exE conjE) simp_all
next
  case (lost_works op xs s' q ys q' dm)
  then have "d' = put_log s' q' d" by (auto simp: detached_step_def Let_def)
  then show ?thesis using assms(2) by simp
next
  case (stopping_works op xs s' q ys q' dm)
  then have "d' = put_log s' q' d" by (auto simp: detached_step_def Let_def)
  then show ?thesis using assms(2) by simp
qed (use assms(2) in \<open>simp_all add: release_queue_lock_def\<close>)

lemma cluster_step_members:
  assumes "cluster_step C c c'" "qd_members (cl_dir c) \<noteq> None"
  shows "qd_members (cl_dir c') \<noteq> None"
  using assms(1)
proof (cases rule: cluster_step.cases)
  case (work xs n ys n' d)
  show ?thesis using node_step_members [OF work(3) assms(2)] work(1) by simp
next
  case (boot fault w me name requested dm d pid)
  then show ?thesis using daemon_new_dir [OF boot(2) assms(2)] assms(2) by simp
next
  case (boot_fails fault w me name requested d)
  then show ?thesis using daemon_new_dir [OF boot_fails(2) assms(2)] assms(2) by simp
next
  case (crash xs n ys)
  then show ?thesis using assms(2) by (simp add: release_members)
qed

section \<open>One engine per shard\<close>

lemma size_filter_key: "size {#x \<in># E. fst x = s#} = count (image_mset fst E) s"
  by (induction E) auto

text \<open>
  Property C4: However daemons on one directory are started, crash, shut down, lose leases and take shards over, and
  whatever the operating system answers them, at every moment at most one engine runs on a shard.
  It holds the lock on \<open>tasks.log.lock\<close>, and what it takes for its log is what is on disk. While no
  engine runs on a shard, no step changes its log, once \<open>membership.json\<close> exists. The leases play no part in this:
  two daemons may even use one owner name.
\<close>

theorem one_engine_per_shard:
  assumes "cluster_reachable C c"
  shows "size {#x \<in># cluster_engines c. fst x = s#} \<le> 1 \<and>
    (\<forall>q. (s, q) \<in># cluster_engines c \<longrightarrow> sf_queue_lock (shard_dir s (cl_dir c)) \<and> log_file (q_store q) = sf_log (shard_dir s (cl_dir c))) \<and>
    (\<forall>c'. cluster_step C c c' \<and> quiet_on s c \<and> qd_members (cl_dir c) \<noteq> None \<longrightarrow>
       sf_log (shard_dir s (cl_dir c')) = sf_log (shard_dir s (cl_dir c)))"
proof -
  have i: "cluster_inv c" by (rule cluster_inv_reachable [OF assms])
  then have n: "size {#x \<in># cluster_engines c. fst x = s#} = of_bool (sf_queue_lock (shard_dir s (cl_dir c)))"
    by (simp add: size_filter_key cluster_inv_def engines_inv_def)
  moreover have "sf_queue_lock (shard_dir s (cl_dir c)) \<and> log_file (q_store q) = sf_log (shard_dir s (cl_dir c))"
    if "(s, q) \<in># cluster_engines c" for q
  proof
    show "sf_queue_lock (shard_dir s (cl_dir c))" using quiet_on_free [OF i] that unfolding quiet_on_def by blast
    show "log_file (q_store q) = sf_log (shard_dir s (cl_dir c))"
      by (rule engines_inv_log [OF i [unfolded cluster_inv_def] that])
  qed
  moreover have "sf_log (shard_dir s (cl_dir c')) = sf_log (shard_dir s (cl_dir c))"
    if "cluster_step C c c'" "quiet_on s c" "qd_members (cl_dir c) \<noteq> None" for c'
    using cluster_step_log [OF that(1,3), of s] that(2) by (simp add: log_kept_def)
  ultimately show ?thesis by simp
qed

lemma quiet_run_log:
  assumes "(\<lambda>a b. cluster_step C a b \<and> quiet_on s b)\<^sup>*\<^sup>* c1 c2" "quiet_on s c1" "qd_members (cl_dir c1) \<noteq> None"
  shows "log_kept s (cl_dir c1) (cl_dir c2)" "quiet_on s c2" "qd_members (cl_dir c2) \<noteq> None" "(cluster_step C)\<^sup>*\<^sup>* c1 c2"
proof -
  from assms(1) have "log_kept s (cl_dir c1) (cl_dir c2) \<and> quiet_on s c2 \<and> qd_members (cl_dir c2) \<noteq> None \<and>
      (cluster_step C)\<^sup>*\<^sup>* c1 c2"
  proof (induction rule: rtranclp_induct)
    case base
    then show ?case using assms(2,3) by simp
  next
    case (step b c)
    have "log_kept s (cl_dir b) (cl_dir c)" using cluster_step_log step by blast
    then show ?case
      using step cluster_step_members log_kept_trans rtranclp.rtrancl_into_rtrancl [of "cluster_step C"] by metis
  qed
  then show "log_kept s (cl_dir c1) (cl_dir c2)" "quiet_on s c2" "qd_members (cl_dir c2) \<noteq> None"
    "(cluster_step C)\<^sup>*\<^sup>* c1 c2" by simp_all
qed

lemma cluster_step_new:
  assumes "cluster_step C c c'" "quiet_on s c" "(s, q) \<in># cluster_engines c'"
  shows "fresh_on C s (cl_dir c) q"
  using assms(1)
proof (cases rule: cluster_step.cases)
  case (boot fault w me name requested dm d pid)
  have "dm_shards dm = [] \<and> dm_lost dm = []"
    using boot(2) by (auto simp: daemon_new_def split: option.splits sum.splits prod.splits)
  then have "cluster_engines c' = cluster_engines c"
    using boot(1) by (simp add: cluster_engines_def new_node_def node_engines_def)
  then show ?thesis using assms(2,3) by (simp add: quiet_on_def)
next
  case (boot_fails fault w me name requested d)
  then have "cluster_engines c' = cluster_engines c" by (simp add: cluster_engines_def)
  then show ?thesis using assms(2,3) by (simp add: quiet_on_def)
next
  case (work xs n ys n' d)
  have "s \<notin> fst ` set (node_engines n)"
    using node_in_cluster [OF work(2)] assms(2) unfolding quiet_on_def image_iff by (metis prod.collapse)
  moreover have "(s, q) \<in> set (node_engines n')"
    using cluster_engines_split [OF work(2)] cluster_engines_split [of c' xs n' ys] work(1) assms(2,3)
    by (auto simp: quiet_on_def)
  ultimately show ?thesis using node_step_new [OF work(3)] by blast
next
  case (crash xs n ys)
  then have "cluster_engines c = mset (node_engines n) + cluster_engines c'"
    using cluster_engines_split [OF crash(2)] by (simp add: cluster_engines_def)
  then show ?thesis using assms(2,3) by (simp add: quiet_on_def)
qed

lemma store_new_ok:
  "store_new C w clk f = (Inr (), st) \<Longrightarrow> store_new C Io_Ok clk f = (Inr (), st)"
  by (cases f) (auto simp: store_new_def rebuild_metadata_def Let_def split: if_splits)


section \<open>Shutting down during a heartbeat\<close>

text \<open>A shard whose claim by another daemon has lapsed and on which no engine runs any more.\<close>

lemma claim_one_takes_over:
  assumes "serde_ok C" "healthy w" "dm_heart dm" "read_unlocked C (qd_members d) = Inr m"
    and "hm_get (claims m) s = Some c" "owner c \<noteq> dm_owner dm" "is_lapsed c now skew"
    and "\<not> lock_taken (sf_lock (shard_dir s d))" "\<not> sf_queue_lock (shard_dir s d)"
    and "\<not> hm_contains (dm_shards dm) s"
  obtains d' where "claim_one C w pid now skew (dm, d, owned) s =
      (dm\<lparr>dm_shards := hm_insert s (fresh_engine C w dm s d) (dm_shards dm)\<rparr>, d', owned @ [s])"
proof -
  let ?e = "now + nanos lease_duration_secs"
  have step: "claim_step s (dm_owner dm) now skew m = Inr (TakenOver (owner c), put_claim s (dm_owner dm) ?e m)"
    using assms(5-7) by (simp add: claim_step_def Let_def)
  obtain d2 where d2: "claimed_dir C pid s (next_version (put_claim s (dm_owner dm) ?e m)) d (drop_lock s d2)"
    "sf_log (shard_dir s d2) = sf_log (shard_dir s d)"
    "claim_one C w pid now skew (dm, d, owned) s =
      (case instantiate_shard C (bi_open w s) (bi_clock w s) s (dm, d2) of (dm', d3) \<Rightarrow> (dm', d3, owned @ [s]))"
    using claim_one_ok [OF assms(1-4) step assms(8), where pid = pid and owned = owned]
    by (metis claim_outcome.simps(10))
  let ?x = "shard_dir s (drop_lock s d2)"
  have x: "?x = (shard_dir s d)\<lparr>sf_lock := Some \<lparr>lf_text = pid, lf_held = False\<rparr>\<rparr>"
    using d2(1) by (simp add: claimed_dir_def)
  then have "instantiate_shard C (bi_open w s) (bi_clock w s) s (dm, d2) =
      (dm\<lparr>dm_shards := hm_insert s (fresh_engine C w dm s (drop_lock s d2)) (dm_shards dm)\<rparr>,
       put_shard s (?x\<lparr>sf_queue_lock := True\<rparr>) (drop_lock s d2))"
    using assms(9,10) d2(2) by (intro instantiate_starts [OF assms(2)]) simp_all
  moreover have "fresh_engine C w dm s (drop_lock s d2) = fresh_engine C w dm s d"
    by (rule fresh_engine_cong) (use d2(1) in \<open>simp_all add: x claimed_dir_def\<close>)
  ultimately show ?thesis using that d2(3) by simp
qed

text \<open>
  Property C32: A \<open>shutdown\<close> that comes while the heartbeat is between two claims does not stop the daemon. The
  heartbeat goes on with the next shard, claims it and starts an engine that nobody stops: the stop
  flag ends the heartbeat, while the engine stays in the map and keeps the shard's \<open>tasks.log.lock\<close>, and no
  heartbeat renews its lease. Only the end of the process ends it.
\<close>

theorem shutdown_misses_claim:
  assumes "serde_ok C" "healthy w" "dm_heart (nd_daemon n)" "read_unlocked C (qd_members d) = Inr m"
    and "idle_shard m d ((nd_daemon n)\<lparr>dm_shards := []\<rparr>) s" "nd_beat n = Some b" "bt_todo b = [s]"
  shows "\<exists>n' d' q. (node_step C)\<^sup>*\<^sup>* (shutdown_begin n, d) (n', d') \<and>
    dm_stop (nd_daemon n') \<and> \<not> dm_heart (nd_daemon n') \<and> nd_beat n' = None \<and>
    dm_shards (nd_daemon n') = [(s, q)] \<and> nd_stopping n' = nd_stopping (shutdown_begin n) \<and>
    sf_queue_lock (shard_dir s d') \<and>
    leases_until C (dm_owner (nd_daemon n')) {s} (bt_now b + nanos lease_duration_secs) d' \<and>
    (\<forall>beats. heartbeats C pid skew beats (nd_daemon n', d') = (nd_daemon n', d'))"
proof -
  let ?n = "shutdown_begin n" and ?dm = "(nd_daemon n)\<lparr>dm_stop := True, dm_shards := []\<rparr>"
  have n: "nd_daemon ?n = ?dm" "nd_pid ?n = nd_pid n" "nd_beat ?n = Some b"
    using assms(6) by (simp_all add: shutdown_begin_def)
  have h: "dm_heart ?dm" "idle_shard m d ?dm s" using assms(3,5) by (simp_all add: idle_shard_def)
  let ?q = "fresh_engine C w ?dm s d"
  define dm where "dm = ?dm\<lparr>dm_shards := hm_insert s ?q (dm_shards ?dm)\<rparr>"
  obtain d' m' where c: "claim_one C w (nd_pid n) (bt_now b) (bt_skew b) (?dm, d, bt_owned b) s = (dm, d', bt_owned b @ [s])"
    and r: "read_unlocked C (qd_members d') = Inr m'"
      "\<And>s'. hm_get (claims m') s' = (if s' = s then
        Some \<lparr>owner = dm_owner ?dm, lease_expiry = bt_now b + nanos lease_duration_secs\<rparr> else hm_get (claims m) s')"
      "shard_dir s d' = (shard_dir s d)\<lparr>sf_lock := Some \<lparr>lf_text = nd_pid n, lf_held = False\<rparr>, sf_queue_lock := True\<rparr>"
    using claim_one_starts [OF assms(1,2) h(1) assms(4) h(2), where pid = "nd_pid n" and now = "bt_now b"
        and skew = "bt_skew b" and owned = "bt_owned b"] unfolding dm_def by metis
  let ?b = "b\<lparr>bt_todo := [], bt_owned := bt_owned b @ [s]\<rparr>"
  let ?n1 = "?n\<lparr>nd_daemon := dm, nd_beat := Some ?b\<rparr>" and ?n2 = "?n\<lparr>nd_beat := None, nd_daemon := dm\<rparr>"
  have shards: "dm_shards dm = [(s, ?q)]" by (simp add: dm_def hm_insert_def)
  have flags: "dm_heart dm" "dm_stop dm" "dm_owner dm = dm_owner ?dm" using h(1) by (simp_all add: dm_def)
  have "node_step C (?n, d) (beat_claim C w b s [] (?n, d))" using n(3) assms(7) by (rule claim_next)
  also have "beat_claim C w b s [] (?n, d) = (?n1, d')" using c n by (simp add: beat_claim_def)
  finally have s1: "node_step C (?n, d) (?n1, d')" .
  have "node_step C (?n1, d') (beat_end ?b ?n1, d')" by (rule end_beat) simp_all
  moreover have "reconcile_shards (bt_owned ?b) dm = dm"
    using shards by (simp add: reconcile_shards_def)
  ultimately have s2: "node_step C (?n1, d') (?n2, d')"
    using flags(1) by (simp add: beat_end_def)
  let ?n3 = "?n\<lparr>nd_beat := None, nd_daemon := stop_heart dm\<rparr>"
  have "node_step C (?n2, d') (beat_begin C Io_Ok 0 0 (?n2, d'))"
    by (rule begin_beat) simp
  then have s3: "node_step C (?n2, d') (?n3, d')"
    using flags by (simp add: beat_begin_def)
  have "(node_step C)\<^sup>*\<^sup>* (?n, d) (?n3, d')"
    using s1 s2 s3 by (meson converse_rtranclp_into_rtranclp rtranclp.rtrancl_refl)
  moreover have "leases_until C (dm_owner (stop_heart dm)) {s} (bt_now b + nanos lease_duration_secs) d'"
    using r(1,2) flags(3) by (auto simp: leases_until_def stop_heart_def)
  moreover have "\<not> dm_heart (stop_heart dm)" by (simp add: stop_heart_def)
  ultimately show ?thesis
    using shards r(3) flags heartbeats_stopped
    by (intro exI [of _ ?n3] exI [of _ d'] exI [of _ ?q]) (simp add: stop_heart_def)
qed

section \<open>Witnesses\<close>

definition booted :: "string \<Rightarrow> daemon" where
  "booted me = demo_daemon\<lparr>dm_owner := me, dm_handlers := {}\<rparr>"

lemma booted_simps [simp]:
  "dm_owner (booted me) = me" "dm_shards (booted me) = []" "dm_lost (booted me) = []" "dm_heart (booted me)"
  "\<not> dm_stop (booted me)"
  by (simp_all add: booted_def)

lemma demo_boot:
  "read_unlocked C (qd_members d) = Inr m \<Longrightarrow> daemon_new C None Io_Ok me ''q'' 1 d = (Some (booted me), d)"
  using read_unlocked_exists [of C "qd_members d" m]
  by (auto simp: daemon_new_def resolve_layout_def detect_layout_def boot_with_def load_def with_lock_def
      booted_def demo_daemon_def)

lemma cluster_run:
  "(node_step C)\<^sup>*\<^sup>* x y \<Longrightarrow>
   (cluster_step C)\<^sup>*\<^sup>* \<lparr>cl_nodes = xs @ fst x # ys, cl_dir = snd x\<rparr> \<lparr>cl_nodes = xs @ fst y # ys, cl_dir = snd y\<rparr>"
proof (induction rule: rtranclp_induct)
  case (step y z)
  have "cluster_step C \<lparr>cl_nodes = xs @ fst y # ys, cl_dir = snd y\<rparr> \<lparr>cl_nodes = xs @ fst z # ys, cl_dir = snd z\<rparr>"
    by (rule work [where n = "fst y" and xs = xs and ys = ys]) (use step(2) in simp_all)
  then show ?case using step(3) by simp
qed simp

lemma one_node_run:
  assumes "heartbeat C w pid now skew (dm, d) = (dm', d')"
  shows "(cluster_step C)\<^sup>*\<^sup>* \<lparr>cl_nodes = [new_node pid dm], cl_dir = d\<rparr>
    \<lparr>cl_nodes = [new_node pid dm'], cl_dir = d'\<rparr>"
  using cluster_run [OF heartbeat_is_run [OF assms, of "[]"], of "[]" "[]"] by (simp add: new_node_def)

lemma cluster_boot:
  assumes "quiet_start \<lparr>cl_nodes = [], cl_dir = d\<rparr>" "read_unlocked C (qd_members d) = Inr m"
  shows "cluster_reachable C \<lparr>cl_nodes = [new_node pid (booted me)], cl_dir = d\<rparr>"
proof -
  have "cluster_step C \<lparr>cl_nodes = [], cl_dir = d\<rparr> \<lparr>cl_nodes = [new_node pid (booted me)], cl_dir = d\<rparr>"
    using boot [of C None Io_Ok me "''q''" 1 "\<lparr>cl_nodes = [], cl_dir = d\<rparr>" "booted me" d pid] demo_boot [OF assms(2)]
    by simp
  then show ?thesis using assms(1) unfolding cluster_reachable_def by blast
qed

lemma reachable_run: "cluster_reachable C c \<Longrightarrow> (cluster_step C)\<^sup>*\<^sup>* c c' \<Longrightarrow> cluster_reachable C c'"
  unfolding cluster_reachable_def by (meson rtranclp_trans)

text \<open>A heartbeat of a new daemon that is granted the one shard of the directory.\<close>

lemma granted_heartbeat:
  assumes "healthy w" "read_unlocked C (qd_members d) = Inr m" "claimable_shards m now skew me = [s]"
    and "claim_one C w pid now skew (booted me, d, []) s = ((booted me)\<lparr>dm_shards := hm_insert s q []\<rparr>, d', [s])"
  shows "heartbeat C w pid now skew (booted me, d) = ((booted me)\<lparr>dm_shards := [(s, q)]\<rparr>, d')"
  using assms
  by (simp add: heartbeat_def healthy_def load_def with_lock_def hm_insert_def reconcile_shards_def Let_def)

lemma claimable_one:
  "ms_shards m = 1 \<Longrightarrow> hm_get (claims m) (shard_key 0) = None \<or>
     (\<exists>c. hm_get (claims m) (shard_key 0) = Some c \<and> is_lapsed c now skew) \<Longrightarrow>
   claimable_shards m now skew me = [shard_key 0]"
  by (auto simp: claimable_shards_def)

lemma fresh_engine_inv:
  assumes "serde_ok C" "store_inv C st" "sf_log (shard_dir s x) = log_file st"
  shows "store_inv C (q_store (fresh_engine C w dm s x))"
    "recovers C (\<lambda>i. get_latest_task i st) (\<lambda>i. get_latest_task i (q_store (fresh_engine C w dm s x)))"
proof -
  have "q_store (fresh_engine C w dm s x) = snd (store_new C Io_Ok (bi_clock w s) (log_file st))"
    using assms(3) by (simp add: fresh_engine_def Let_def)
  then show "store_inv C (q_store (fresh_engine C w dm s x))"
    "recovers C (\<lambda>i. get_latest_task i st) (\<lambda>i. get_latest_task i (q_store (fresh_engine C w dm s x)))"
    using load_written_log [OF assms(1,2) prod.collapse [symmetric]] by simp_all
qed

definition demo_shard :: shard_files where
  "demo_shard = empty_shard\<lparr>sf_log := log_file demo_store\<rparr>"

lemma demo_shard_simps [simp]:
  "sf_log demo_shard = log_file demo_store" "sf_lock demo_shard = None" "\<not> sf_queue_lock demo_shard"
  by (simp_all add: demo_shard_def empty_shard_def)

text \<open>A daemon that serves the one shard of its directory, in whose log a task was saved.\<close>

lemma demo_served:
  obtains dm d q m where
    "cluster_reachable demo_crates \<lparr>cl_nodes = [new_node ''1'' dm], cl_dir = d\<rparr>"
    "dm_shards dm = [(shard_key 0, q)]" "dm_lost dm = []" "store_inv demo_crates (q_store q)"
    "read_unlocked demo_crates (qd_members d) = Inr m" "ms_shards m = 1"
    "hm_get (claims m) (shard_key 0) = Some \<lparr>owner = ''me'', lease_expiry = nanos lease_duration_secs\<rparr>"
    "\<not> lock_taken (sf_lock (shard_dir (shard_key 0) d))"
proof -
  let ?s = "shard_key 0" and ?d = "demo_dir [] [(shard_key 0, demo_shard)]" and ?m = "demo_members []"
  let ?c0 = "\<lparr>cl_nodes = [], cl_dir = ?d\<rparr>"
  have sh: "shard_dir s ?d = (if s = ?s then demo_shard else empty_shard)" for s
    by (simp add: shard_dir_def demo_dir_def hm_get_def)
  have r: "read_unlocked demo_crates (qd_members ?d) = Inr ?m" by (rule demo_dir_reads) simp
  have q0: "quiet_start ?c0" by (simp add: quiet_start_def sh) (simp add: empty_shard_def)
  let ?q = "fresh_engine demo_crates demo_beat (booted ''me'') ?s ?d"
  have idle: "idle_shard ?m ?d (booted ''me'') ?s"
    by (simp add: idle_shard_def sh lock_taken_def)
  obtain d' m' where c: "claim_one demo_crates demo_beat ''1'' 0 0 (booted ''me'', ?d, []) ?s =
       ((booted ''me'')\<lparr>dm_shards := hm_insert ?s ?q []\<rparr>, d', [?s])"
    "read_unlocked demo_crates (qd_members d') = Inr m'" "ms_shards m' = ms_shards ?m"
    "\<And>s'. hm_get (claims m') s' = (if s' = ?s then
        Some \<lparr>owner = ''me'', lease_expiry = 0 + nanos lease_duration_secs\<rparr> else hm_get (claims ?m) s')"
    "shard_dir ?s d' = (shard_dir ?s ?d)\<lparr>sf_lock := Some \<lparr>lf_text = ''1'', lf_held = False\<rparr>, sf_queue_lock := True\<rparr>"
    by (rule claim_one_starts [OF serde_ok_demo healthy_demo booted_simps(4) r idle, where pid = "''1''" and now = 0
        and skew = 0 and owned = "[]", unfolded booted_simps append_Nil])
      (rule that)
  let ?dm = "(booted ''me'')\<lparr>dm_shards := [(?s, ?q)]\<rparr>"
  have h: "heartbeat demo_crates demo_beat ''1'' 0 0 (booted ''me'', ?d) = (?dm, d')"
    by (rule granted_heartbeat [OF healthy_demo r claimable_one c(1)]) simp_all
  note start = cluster_boot [OF q0 r]
  have "(cluster_step demo_crates)\<^sup>*\<^sup>* \<lparr>cl_nodes = [new_node ''1'' (booted ''me'')], cl_dir = ?d\<rparr>
      \<lparr>cl_nodes = [new_node ''1'' ?dm], cl_dir = d'\<rparr>"
    by (rule one_node_run [OF h])
  with start have "cluster_reachable demo_crates \<lparr>cl_nodes = [new_node ''1'' ?dm], cl_dir = d'\<rparr>"
    by (rule reachable_run)
  moreover have "store_inv demo_crates (q_store ?q)"
    by (rule fresh_engine_inv(1) [OF serde_ok_demo store_inv_demo]) (simp add: sh)
  ultimately show ?thesis
    using that [of ?dm d' ?q m'] c(2-5) by simp
qed

lemma one_engine_per_shard_witness:
  "\<exists>c q. cluster_reachable demo_crates c \<and> (shard_key 0, q) \<in># cluster_engines c \<and>
     size {#x \<in># cluster_engines c. fst x = shard_key 0#} \<le> 1 \<and> 
     log_file (q_store q) = sf_log (shard_dir (shard_key 0) (cl_dir c))"
proof -
  obtain dm d q where c: "cluster_reachable demo_crates \<lparr>cl_nodes = [new_node ''1'' dm], cl_dir = d\<rparr>"
    "dm_shards dm = [(shard_key 0, q)]"
    by (rule demo_served)
  let ?c = "\<lparr>cl_nodes = [new_node ''1'' dm], cl_dir = d\<rparr>"
  have "(shard_key 0, q) \<in># cluster_engines ?c"
    using c(2) by (simp add: cluster_engines_def node_engines_def new_node_def)
  then show ?thesis using one_engine_per_shard [OF c(1), of "shard_key 0"] c(1) by blast
qed


lemma shutdown_misses_claim_witness:
  "\<exists>n d n' d' q. nd_daemon n = booted ''me'' \<and> (node_step demo_crates)\<^sup>*\<^sup>* (shutdown_begin n, d) (n', d') \<and>
     \<not> dm_heart (nd_daemon n') \<and> dm_shards (nd_daemon n') = [(shard_key 0, q)]"
proof -
  let ?b = "\<lparr>bt_now = 0, bt_skew = 0, bt_todo = [shard_key 0], bt_owned = []\<rparr>"
  let ?n = "(new_node ''1'' (booted ''me''))\<lparr>nd_beat := Some ?b\<rparr>"
  have n: "nd_daemon ?n = booted ''me''" "nd_beat ?n = Some ?b" by (simp_all add: new_node_def)
  have i: "idle_shard (demo_members []) (demo_dir [] []) ((nd_daemon ?n)\<lparr>dm_shards := []\<rparr>) (shard_key 0)"
    by (simp add: idle_shard_def empty_shard_def lock_taken_def)
  have h: "dm_heart (nd_daemon ?n)" using n(1) by simp
  have r: "read_unlocked demo_crates (qd_members (demo_dir [] [])) = Inr (demo_members [])"
    by (rule demo_dir_reads) simp
  have t: "bt_todo ?b = [shard_key 0]" by simp
  show ?thesis using shutdown_misses_claim [OF serde_ok_demo healthy_demo h r i n(2) t] n(1) by blast
qed

end
