(* ===== verification/Sharded_Dashboard.thy ===== *)
theory Sharded_Dashboard
  imports Dashboard Sharded_Queue
begin

text \<open>
  \<open>start_dashboard\<close> of \<open>src/dashboard.rs\<close>, for a queue and for a daemon with shards, and the way of a progress
  message from an engine to the dashboard of its daemon (\<open>instantiate_shard\<close> in \<open>src/sharded_queue.rs\<close>).

  A dashboard is what it answers to one request after its feeder has received some messages. The
  dashboard of a queue reads the queue's log; that of a daemon reads, for each request, the logs of the
  shards that the daemon has in its map at that moment, in the order of the map.
\<close>

section \<open>The two dashboards\<close>

text \<open>\<open>bound\<close>: the port could be bound. \<open>ms\<close> is what the feeder has received, with the time of each message.\<close>

definition queue_dashboard ::
  "crates \<Rightarrow> bool \<Rightarrow> (f64 \<times> received) list \<Rightarrow> (nat \<Rightarrow> instant) \<Rightarrow> string option \<Rightarrow> queue \<Rightarrow> string option \<Rightarrow> string option"
where
  "queue_dashboard C bound ms clk html q got =
     (let r = fst (feed ms); tasks_path = log_file (q_store q) in
      if \<not> bound then None
      else let path = [tasks_path] in handle_connection C clk html path r got)"

definition daemon_dashboard ::
  "crates \<Rightarrow> bool \<Rightarrow> (f64 \<times> received) list \<Rightarrow> (nat \<Rightarrow> instant) \<Rightarrow> string option \<Rightarrow> daemon \<times> queue_dir \<Rightarrow>
   string option \<Rightarrow> string option"
where
  "daemon_dashboard C bound ms clk html = (\<lambda>(dm, d) got.
     let r = fst (feed ms) in
     if \<not> bound then None
     else
       let paths = map (\<lambda>s. sf_log (shard_dir s d)) (hm_keys (dm_shards dm))
       in handle_connection C clk html paths r got)"

text \<open>The task that forwards an engine's messages to its daemon's channel: it ends with the first error.\<close>

fun forward :: "received list \<Rightarrow> (string \<times> string) list" where
  "forward [] = []"
| "forward (Message tid data # ms) = (tid, data) # forward ms"
| "forward (Lagged # ms) = []"
| "forward (Closed # ms) = []"

section \<open>Several logs\<close>

lemma read_deduped_concat:
  assumes "serde_ok C"
  shows "read_deduped_tasks_multiple C (map (\<lambda>ts. Some (log_text C ts)) tss) =
    read_deduped_tasks_multiple C [Some (log_text C (concat tss))]"
proof -
  have "foldl (read_file C) m (map (\<lambda>ts. Some (log_text C ts)) tss) = read_file C m (Some (log_text C (concat tss)))" for m
    by (induction tss arbitrary: m) (simp_all add: read_file_log [OF assms])
  then show ?thesis by (simp add: read_deduped_tasks_multiple_def)
qed

lemma stats_several_logs:
  "serde_ok C \<Longrightarrow> stats_body_multiple C (map (\<lambda>ts. Some (log_text C ts)) tss) =
     stats_body_multiple C [Some (log_text C (concat tss))]"
  by (simp add: stats_body_multiple_def read_deduped_concat)

lemma last_version_append:
  "last_version (ts @ us) i = (case last_version us i of Some t \<Rightarrow> Some t | None \<Rightarrow> last_version ts i)"
proof (induction us rule: rev_induct)
  case (snoc u us)
  then show ?case by (cases "task_id u = i") (simp_all add: last_version_def append_assoc [symmetric] del: append_assoc)
qed (simp add: last_version_def)

lemma last_version_none: "last_version ts i = None \<longleftrightarrow> i \<notin> task_id ` set ts"
  by (auto simp: last_version_def find_None_iff)

lemma ids_with_append:
  assumes "task_id ` set ts \<inter> task_id ` set us = {}"
  shows "ids_with P (ts @ us) = ids_with P ts \<union> ids_with P us" "ids_with P ts \<inter> ids_with P us = {}"
proof -
  have n: "last_version ts i = None \<or> last_version us i = None" for i
    using assms unfolding last_version_none by blast
  show "ids_with P (ts @ us) = ids_with P ts \<union> ids_with P us"
  proof (rule set_eqI)
    fix i
    show "i \<in> ids_with P (ts @ us) \<longleftrightarrow> i \<in> ids_with P ts \<union> ids_with P us"
      using n [of i] by (cases "last_version us i") (auto simp: ids_with_def last_version_append)
  qed
  show "ids_with P ts \<inter> ids_with P us = {}"
  proof -
    have "False" if "i \<in> ids_with P ts" "i \<in> ids_with P us" for i
      using n [of i] that by (auto simp: ids_with_def)
    then show ?thesis by blast
  qed
qed

text \<open>If no id is in two of the logs, the counts add up.\<close>

lemma card_ids_concat:
  assumes "distinct ss" "\<forall>s \<in> set ss. \<forall>s' \<in> set ss. s \<noteq> s' \<longrightarrow> task_id ` set (ts s) \<inter> task_id ` set (ts s') = {}"
  shows "card (ids_with P (concat (map ts ss))) = (\<Sum>s\<leftarrow>ss. card (ids_with P (ts s)))"
  using assms
proof (induction ss)
  case Nil
  then show ?case by (simp add: ids_with_def last_version_def)
next
  case (Cons s ss)
  have "task_id ` set (ts s) \<inter> task_id ` set (ts s') = {}" if "s' \<in> set ss" for s'
    using Cons.prems(2) [rule_format, of s s'] Cons.prems(1) that by (metis distinct.simps(2) list.set_intros)
  then have d: "task_id ` set (ts s) \<inter> task_id ` set (concat (map ts ss)) = {}" by auto
  show ?case
    using Cons ids_with_append [OF d, of P] by (simp add: card_Un_disjoint)
qed

section \<open>The properties\<close>

text \<open>
  Property C22: \<open>GET /api/stats\<close> at a daemon counts over the logs of all shards it owns as over one log: as long as no id is
  in two shards, each count is the sum of the counts of the shards. A shard that the daemon does not own is not counted.
\<close>

theorem daemon_stats_add_up:
  assumes "serde_ok C" "hm_ok (dm_shards dm)" "utf8_valid (get_request ''/api/stats'' rest)"
    and "\<forall>s \<in> set (hm_keys (dm_shards dm)). sf_log (shard_dir s d) = Some (log_text C (ts s))"
    and "\<forall>s \<in> set (hm_keys (dm_shards dm)). \<forall>s' \<in> set (hm_keys (dm_shards dm)). s \<noteq> s' \<longrightarrow>
      task_id ` set (ts s) \<inter> task_id ` set (ts s') = {}"
  shows "let n = (\<lambda>P. \<Sum>s\<leftarrow>hm_keys (dm_shards dm). card (ids_with P (ts s)))
    in daemon_dashboard C True ms clk html (dm, d) (Some (get_request ''/api/stats'' rest)) =
      Some (http_response ''200 OK'' ''application/json'' (stats_text (n (\<lambda>t. True))
        (n (\<lambda>t. deleted_at t \<noteq> None \<and> last_job_error t = None))
        (n (\<lambda>t. deleted_at t \<noteq> None \<and> last_job_error t \<noteq> None))))"
proof -
  let ?ks = "hm_keys (dm_shards dm)"
  have d: "distinct ?ks" using assms(2) by (simp add: hm_ok_def hm_keys_def)
  have p: "map (\<lambda>s. sf_log (shard_dir s d)) ?ks = map (\<lambda>ts. Some (log_text C ts)) (map ts ?ks)"
    using assms(4) by simp
  have "\<forall>c \<in> set ''/api/stats''. graphic c" by (simp add: graphic_def)
  then have "daemon_dashboard C True ms clk html (dm, d) (Some (get_request ''/api/stats'' rest)) =
      Some (http_response ''200 OK'' ''application/json'' (stats_body_multiple C [Some (log_text C (concat (map ts ?ks)))]))"
    unfolding daemon_dashboard_def prod.case Let_def p
    using handle_get [OF _ _ assms(3)] stats_several_logs [OF assms(1), of "map ts ?ks"] by (simp add: respond_def)
  then show ?thesis
    unfolding stats_body_log [OF assms(1)] card_ids_concat [OF d assms(5)] Let_def .
qed

lemma heard_append: "Closed \<notin> snd ` set ms \<Longrightarrow> heard (ms @ ms') = heard ms @ heard ms'"
proof (induction ms)
  case (Cons m ms)
  then show ?case by (cases m; cases "snd m") auto
qed simp

lemma heard_open:
  "Closed \<notin> set ms \<Longrightarrow> mset (heard (map (Pair now) ms)) =
     image_mset (\<lambda>m. case m of Message tid data \<Rightarrow> \<lparr>ev_ts = now, ev_task = tid, ev_data = data\<rparr>)
       {#m \<in># mset ms. m \<noteq> Lagged#}"
proof (induction ms)
  case (Cons m ms)
  then show ?case by (cases m) simp_all
qed simp

definition as_messages :: "(string \<times> string) list \<Rightarrow> received list" where
  "as_messages xs = map (\<lambda>(tid, data). Message tid data) xs"

lemma forward_all: "Closed \<notin> set ms \<Longrightarrow> Lagged \<notin> set ms \<Longrightarrow> as_messages (forward ms) = ms"
  by (induction ms rule: forward.induct) (simp_all add: as_messages_def)

lemma forward_lag: "forward (ms @ Lagged # ms') = forward ms"
  by (induction ms rule: forward.induct) simp_all



lemma daemon_stats_add_up_witness:
  "daemon_dashboard demo_crates True [] (\<lambda>n. 0) None
     (demo_daemon\<lparr>dm_shards := [(shard_key 0, demo_queue)]\<rparr>,
      put_shard (shard_key 0) (empty_shard\<lparr>sf_log := Some (log_text demo_crates [demo_task])\<rparr>) (demo_dir [] []))
     (Some (get_request ''/api/stats'' [])) =
   Some (http_response ''200 OK'' ''application/json'' (stats_text 1 0 0))"
proof -
  let ?dm = "demo_daemon\<lparr>dm_shards := [(shard_key 0, demo_queue)]\<rparr>"
  have k: "hm_keys [(shard_key 0, demo_queue)] = [shard_key 0]" by (simp add: hm_keys_def)
  have t: "last_version [demo_task] i = (if i = ''a'' then Some demo_task else None)" for i
    by (simp add: last_version_def demo_task_def task_new_def Let_def)
  have l: "deleted_at demo_task = None" by (simp add: demo_task_def task_new_def Let_def)
  have u: "utf8_valid (get_request ''/api/stats'' [])"
    by (rule utf8_ascii) (simp add: get_request_def crlf_def)
  show ?thesis
    using daemon_stats_add_up [OF serde_ok_demo _ u, of ?dm "put_shard (shard_key 0)
        (empty_shard\<lparr>sf_log := Some (log_text demo_crates [demo_task])\<rparr>) (demo_dir [] [])" "\<lambda>s. [demo_task]" "[]" "\<lambda>n. 0" None]
    by (auto simp: k hm_ok_def ids_with_def t l Let_def)
qed

end
