(* ===== verification/Unit_Tests.thy ===== *)
theory Unit_Tests
  imports Sharding Queue
begin

text \<open>
  The unit tests inside \<open>src/membership.rs\<close>, \<open>src/sharding.rs\<close> and \<open>src/queue.rs\<close>, run on the model.

  A test is a predicate on what it leaves open: the codec, the time at which it starts and, for the tests with
  threads, the order in which the threads get the lock. It is true if no \<open>unwrap\<close> in it panics and every
  assertion holds. The temporary directory is a \<open>membership.json\<close> that does not exist yet, or an empty \<^typ>\<open>queue_dir\<close>. That
  the tests hold for every codec, time and order ties the model to what the authors expect of the code.
\<close>

section \<open>Running a test\<close>

definition unwrap :: "('e + 'a) \<times> 's \<Rightarrow> ('a \<Rightarrow> 's \<Rightarrow> bool) \<Rightarrow> bool" where
  "unwrap r k = (case r of (Inl e, s) \<Rightarrow> False | (Inr a, s) \<Rightarrow> k a s)"

lemma unwrap_simps [simp]: "\<not> unwrap (Inl e, s) k" "unwrap (Inr a, s) k \<longleftrightarrow> k a s"
  by (simp_all add: unwrap_def)

definition test_skew :: duration where
  "test_skew = nanos default_skew_margin_secs"

section \<open>src/membership.rs\<close>

definition init_creates_membership_and_is_one_shot :: "crates \<Rightarrow> bool" where
  "init_creates_membership_and_is_one_shot C \<longleftrightarrow>
     unwrap (init C Io_Ok ''test-queue'' 3 None) (\<lambda>_ f. f \<noteq> None \<and>
       unwrap (load C Io_Ok f) (\<lambda>m f.
         ms_queue m = ''test-queue'' \<and> ms_shards m = 3 \<and> ms_version m = 0 \<and> claims m = [] \<and>
         fst (init C Io_Ok ''test-queue'' 3 f) = Inl AlreadyInitialized))"

definition load_on_legacy_dir_is_not_initialized :: "crates \<Rightarrow> bool" where
  "load_on_legacy_dir_is_not_initialized C \<longleftrightarrow> fst (load C Io_Ok None) = Inl NotInitialized"

definition claim_free_shard_writes_owner_and_expiry :: "crates \<Rightarrow> instant \<Rightarrow> bool" where
  "claim_free_shard_writes_owner_and_expiry C t0 \<longleftrightarrow>
     unwrap (init C Io_Ok ''q'' 2 None) (\<lambda>_ f.
     unwrap (claim_shard C Io_Ok ''shard-0'' ''host-a@pid-1'' t0 test_skew f) (\<lambda>outcome f. outcome = Claimed \<and>
     unwrap (load C Io_Ok f) (\<lambda>m f. ms_version m = 1 \<and>
       (case hm_get (claims m) ''shard-0'' of
          None \<Rightarrow> False
        | Some c \<Rightarrow> owner c = ''host-a@pid-1'' \<and> lease_expiry c = t0 + nanos lease_duration_secs))))"

definition claim_live_shard_held_by_other_is_rejected :: "crates \<Rightarrow> instant \<Rightarrow> bool" where
  "claim_live_shard_held_by_other_is_rejected C t0 \<longleftrightarrow>
     unwrap (init C Io_Ok ''q'' 1 None) (\<lambda>_ f.
     unwrap (claim_shard C Io_Ok ''shard-0'' ''host-a@pid-1'' t0 test_skew f) (\<lambda>_ f.
       case claim_shard C Io_Ok ''shard-0'' ''host-b@pid-2'' t0 test_skew f of
         (Inl (OwnedByOther shard own), f) \<Rightarrow>
           shard = ''shard-0'' \<and> own = ''host-a@pid-1'' \<and>
           unwrap (load C Io_Ok f) (\<lambda>m f. ms_version m = 1 \<and>
             map_option owner (hm_get (claims m) ''shard-0'') = Some ''host-a@pid-1'')
       | _ \<Rightarrow> False))"

definition claim_own_shard_renews_lease :: "crates \<Rightarrow> instant \<Rightarrow> bool" where
  "claim_own_shard_renews_lease C t0 \<longleftrightarrow>
     unwrap (init C Io_Ok ''q'' 1 None) (\<lambda>_ f.
     unwrap (claim_shard C Io_Ok ''shard-0'' ''host-a@pid-1'' t0 test_skew f) (\<lambda>_ f.
       let t1 = t0 + nanos 10 in
       unwrap (claim_shard C Io_Ok ''shard-0'' ''host-a@pid-1'' t1 test_skew f) (\<lambda>outcome f. outcome = Renewed \<and>
       unwrap (load C Io_Ok f) (\<lambda>m f. ms_version m = 2 \<and>
         map_option lease_expiry (hm_get (claims m) ''shard-0'') = Some (t1 + nanos lease_duration_secs)))))"

definition claim_lapsed_shard_takes_over :: "crates \<Rightarrow> instant \<Rightarrow> bool" where
  "claim_lapsed_shard_takes_over C t0 \<longleftrightarrow>
     unwrap (init C Io_Ok ''q'' 1 None) (\<lambda>_ f.
     unwrap (claim_shard C Io_Ok ''shard-0'' ''host-a@pid-1'' t0 test_skew f) (\<lambda>_ f.
       let t1 = t0 + nanos 36 in
       unwrap (claim_shard C Io_Ok ''shard-0'' ''host-b@pid-2'' t1 test_skew f) (\<lambda>outcome f.
         (case outcome of TakenOver previous_owner \<Rightarrow> previous_owner = ''host-a@pid-1'' | _ \<Rightarrow> False) \<and>
         unwrap (load C Io_Ok f) (\<lambda>m f.
           map_option owner (hm_get (claims m) ''shard-0'') = Some ''host-b@pid-2''))))"

definition claim_just_inside_lease_plus_skew_is_rejected :: "crates \<Rightarrow> instant \<Rightarrow> bool" where
  "claim_just_inside_lease_plus_skew_is_rejected C t0 \<longleftrightarrow>
     unwrap (init C Io_Ok ''q'' 1 None) (\<lambda>_ f.
     unwrap (claim_shard C Io_Ok ''shard-0'' ''host-a@pid-1'' t0 test_skew f) (\<lambda>_ f.
       let t1 = t0 + nanos 35 in
       (case fst (claim_shard C Io_Ok ''shard-0'' ''host-b@pid-2'' t1 test_skew f) of
          Inl (OwnedByOther _ _) \<Rightarrow> True | _ \<Rightarrow> False)))"

definition renew_updates_expiry_for_owner_only :: "crates \<Rightarrow> instant \<Rightarrow> bool" where
  "renew_updates_expiry_for_owner_only C t0 \<longleftrightarrow>
     unwrap (init C Io_Ok ''q'' 1 None) (\<lambda>_ f.
     unwrap (claim_shard C Io_Ok ''shard-0'' ''host-a@pid-1'' t0 test_skew f) (\<lambda>_ f.
       let t1 = t0 + nanos 10 in
       unwrap (renew C Io_Ok ''shard-0'' ''host-a@pid-1'' t1 f) (\<lambda>_ f.
       unwrap (load C Io_Ok f) (\<lambda>m f. ms_version m = 2 \<and>
         map_option lease_expiry (hm_get (claims m) ''shard-0'') = Some (t1 + nanos lease_duration_secs) \<and>
         (case renew C Io_Ok ''shard-0'' ''host-b@pid-2'' t1 f of
            (Inl (LeaseLost _), f) \<Rightarrow>
              unwrap (load C Io_Ok f) (\<lambda>m f. ms_version m = 2 \<and>
                map_option owner (hm_get (claims m) ''shard-0'') = Some ''host-a@pid-1'')
          | _ \<Rightarrow> False)))))"

definition release_drops_claim_for_owner_only :: "crates \<Rightarrow> instant \<Rightarrow> bool" where
  "release_drops_claim_for_owner_only C t0 \<longleftrightarrow>
     unwrap (init C Io_Ok ''q'' 1 None) (\<lambda>_ f.
     unwrap (claim_shard C Io_Ok ''shard-0'' ''host-a@pid-1'' t0 test_skew f) (\<lambda>_ f.
       (case release C Io_Ok ''shard-0'' ''host-b@pid-2'' f of
          (Inl (LeaseLost _), f) \<Rightarrow>
            unwrap (load C Io_Ok f) (\<lambda>m f. hm_contains (claims m) ''shard-0'' \<and>
            unwrap (release C Io_Ok ''shard-0'' ''host-a@pid-1'' f) (\<lambda>_ f.
            unwrap (load C Io_Ok f) (\<lambda>m f. \<not> hm_contains (claims m) ''shard-0'' \<and> ms_version m = 2)))
        | _ \<Rightarrow> False)))"

definition revert_claim_only_removes_own_entry :: "crates \<Rightarrow> instant \<Rightarrow> bool" where
  "revert_claim_only_removes_own_entry C t0 \<longleftrightarrow>
     unwrap (init C Io_Ok ''q'' 1 None) (\<lambda>_ f.
     unwrap (claim_shard C Io_Ok ''shard-0'' ''host-a@pid-1'' t0 test_skew f) (\<lambda>_ f.
     unwrap (revert_claim C Io_Ok ''shard-0'' ''host-b@pid-2'' f) (\<lambda>_ f.
     unwrap (load C Io_Ok f) (\<lambda>m f. hm_contains (claims m) ''shard-0'' \<and>
     unwrap (revert_claim C Io_Ok ''shard-0'' ''host-a@pid-1'' f) (\<lambda>_ f.
     unwrap (load C Io_Ok f) (\<lambda>m f. \<not> hm_contains (claims m) ''shard-0''))))))"

definition claimable_shards_mixes_free_lapsed_and_owned :: "instant \<Rightarrow> bool" where
  "claimable_shards_mixes_free_lapsed_and_owned t0 \<longleftrightarrow>
     (let cs = hm_insert ''shard-1'' \<lparr>owner = ''me'', lease_expiry = t0 + nanos 30\<rparr> [];
          cs = hm_insert ''shard-2'' \<lparr>owner = ''other'', lease_expiry = t0 + nanos 30\<rparr> cs;
          cs = hm_insert ''shard-3'' \<lparr>owner = ''dead-owner'', lease_expiry = t0 - nanos 6\<rparr> cs;
          m = \<lparr>ms_queue = ''q'', ms_shards = 4, ms_version = 0, claims = cs\<rparr>
      in claimable_shards m t0 test_skew ''me'' = [''shard-0'', ''shard-1'', ''shard-3''])"

text \<open>The threads of a test, by number, in the order in which they get \<open>.membership.lock\<close>.\<close>

primrec run_claims ::
  "crates \<Rightarrow> (nat \<Rightarrow> string) \<Rightarrow> (nat \<Rightarrow> string) \<Rightarrow> instant \<Rightarrow> nat list \<Rightarrow> string option \<Rightarrow>
   (membership_error + claim_outcome) list \<times> string option" where
  "run_claims C shard me t0 [] f = ([], f)"
| "run_claims C shard me t0 (i # is) f =
     (case claim_shard C Io_Ok (shard i) (me i) t0 test_skew f of
        (r, f') \<Rightarrow> (case run_claims C shard me t0 is f' of (rs, f'') \<Rightarrow> (r # rs, f'')))"

definition thread_owner :: "nat \<Rightarrow> string" where
  "thread_owner i = ''host-x@pid-'' @ show_nat i"

definition owned_by_other :: "membership_error + 'a \<Rightarrow> bool" where
  "owned_by_other r = (case r of Inl (OwnedByOther _ _) \<Rightarrow> True | _ \<Rightarrow> False)"

definition concurrent_claim_same_shard_has_exactly_one_winner :: "crates \<Rightarrow> instant \<Rightarrow> nat list \<Rightarrow> bool" where
  "concurrent_claim_same_shard_has_exactly_one_winner C t0 order \<longleftrightarrow>
     unwrap (init C Io_Ok ''q'' 1 None) (\<lambda>_ f.
       case run_claims C (\<lambda>i. ''shard-0'') thread_owner t0 order f of
         (results, f) \<Rightarrow>
           length (filter (\<lambda>r. r = Inr Claimed) results) = 1 \<and>
           length (filter owned_by_other results) = 3 \<and>
           unwrap (load C Io_Ok f) (\<lambda>m f. length (claims m) = 1))"

definition concurrent_claims_on_distinct_shards_all_succeed :: "crates \<Rightarrow> instant \<Rightarrow> nat list \<Rightarrow> bool" where
  "concurrent_claims_on_distinct_shards_all_succeed C t0 order \<longleftrightarrow>
     unwrap (init C Io_Ok ''q'' 4 None) (\<lambda>_ f.
       case run_claims C shard_key thread_owner t0 order f of
         (results, f) \<Rightarrow>
           list_all (\<lambda>r. r = Inr Claimed) results \<and>
           unwrap (load C Io_Ok f) (\<lambda>m f. length (claims m) = 4 \<and> ms_version m = 4))"

definition skew_margin_parses_and_clamps :: "crates \<Rightarrow> bool" where
  "skew_margin_parses_and_clamps C \<longleftrightarrow>
     skew_margin_from C None = Some (nanos 5) \<and> skew_margin_from C (Some ''12'') = Some (nanos 12) \<and>
     skew_margin_from C (Some ''garbage'') = Some (nanos 5) \<and> skew_margin_from C (Some ''-3'') = Some (nanos 0)"

definition owner_id_contains_pid_marker :: "string option \<Rightarrow> string option \<Rightarrow> nat \<Rightarrow> bool" where
  "owner_id_contains_pid_marker hostname computername pid \<longleftrightarrow>
     sublist ''@pid-'' (owner_id hostname computername pid)"

definition shard_key_format :: bool where
  "shard_key_format \<longleftrightarrow> shard_key 0 = ''shard-0'' \<and> shard_key 12 = ''shard-12''"

section \<open>src/sharding.rs\<close>

definition empty_dir :: queue_dir where
  "empty_dir = \<lparr>qd_members = None, qd_log = None, qd_lock = None, qd_queue_lock = False, qd_limits = None, qd_shards = []\<rparr>"

definition legacy_text :: string where
  "legacy_text = ''{\"taskId\":\"t1\"}'' @ [CHR 0x0A]"

definition make_legacy :: "queue_dir \<Rightarrow> queue_dir" where
  "make_legacy d = d\<lparr>qd_log := Some legacy_text, qd_lock := Some \<lparr>lf_text = ''1234'', lf_held = False\<rparr>\<rparr>"

definition init_dir :: "crates \<Rightarrow> string \<Rightarrow> u32 \<Rightarrow> queue_dir \<Rightarrow> (membership_error + unit) \<times> queue_dir" where
  "init_dir C queue n d = (case init C Io_Ok queue n (qd_members d) of (r, f) \<Rightarrow> (r, d\<lparr>qd_members := f\<rparr>))"

text \<open>A boot without faults; \<^const>\<open>None\<close> is a panic and fails the test.\<close>

definition booted_dir :: "crates \<Rightarrow> string \<Rightarrow> u32 \<Rightarrow> queue_dir \<Rightarrow> (boot_error option + u32) \<times> queue_dir" where
  "booted_dir C queue n d =
     (case resolve_layout C None Io_Ok queue n d of
        (None, d') \<Rightarrow> (Inl None, d')
      | (Some (Inl e), d') \<Rightarrow> (Inl (Some e), d')
      | (Some (Inr k), d') \<Rightarrow> (Inr k, d'))"

definition detect_layout_variants :: bool where
  "detect_layout_variants \<longleftrightarrow>
     detect_layout empty_dir = Fresh \<and> detect_layout (make_legacy empty_dir) = Legacy"

definition detect_sharded_after_init :: "crates \<Rightarrow> bool" where
  "detect_sharded_after_init C \<longleftrightarrow>
     unwrap (init_dir C ''q'' 2 empty_dir) (\<lambda>_ d. detect_layout d = Sharded)"

definition resolve_fresh_creates_membership_with_requested_shards :: "crates \<Rightarrow> bool" where
  "resolve_fresh_creates_membership_with_requested_shards C \<longleftrightarrow>
     unwrap (booted_dir C ''q'' 4 empty_dir) (\<lambda>n d. n = 4 \<and> detect_layout d = Sharded)"

definition resolve_sharded_membership_is_authoritative :: "crates \<Rightarrow> bool" where
  "resolve_sharded_membership_is_authoritative C \<longleftrightarrow>
     unwrap (init_dir C ''q'' 3 empty_dir) (\<lambda>_ d. unwrap (booted_dir C ''q'' 8 d) (\<lambda>n d. n = 3))"

definition auto_adopt_moves_legacy_files_into_shard0 :: "crates \<Rightarrow> bool" where
  "auto_adopt_moves_legacy_files_into_shard0 C \<longleftrightarrow>
     unwrap (booted_dir C ''adopted'' 1 (make_legacy empty_dir)) (\<lambda>n d. n = 1 \<and>
       qd_log d = None \<and> qd_lock d = None \<and>
       sf_log (shard_dir ''shard-0'' d) = Some legacy_text \<and> sf_lock (shard_dir ''shard-0'' d) \<noteq> None \<and>
       unwrap (load C Io_Ok (qd_members d)) (\<lambda>m _. ms_shards m = 1 \<and> ms_queue m = ''adopted'') \<and>
       detect_layout d = Sharded \<and> unwrap (booted_dir C ''adopted'' 1 d) (\<lambda>n d. n = 1))"

definition auto_adopt_without_root_lock_still_works :: "crates \<Rightarrow> bool" where
  "auto_adopt_without_root_lock_still_works C \<longleftrightarrow>
     unwrap (booted_dir C ''q'' 1 (empty_dir\<lparr>qd_log := Some []\<rparr>)) (\<lambda>n d. n = 1 \<and>
       sf_lock (shard_dir ''shard-0'' d) = None)"

definition auto_adopt_refuses_when_legacy_daemon_holds_lock :: "crates \<Rightarrow> bool" where
  "auto_adopt_refuses_when_legacy_daemon_holds_lock C \<longleftrightarrow>
     (case booted_dir C ''q'' 1 ((make_legacy empty_dir)\<lparr>qd_lock := Some \<lparr>lf_text = ''1234'', lf_held = True\<rparr>\<rparr>) of
        (Inl e, d) \<Rightarrow> e = Some Other_Daemon \<and> qd_log d \<noteq> None \<and> detect_layout d = Legacy
      | _ \<Rightarrow> False)"

definition fnv1a_known_vectors :: bool where
  "fnv1a_known_vectors \<longleftrightarrow>
     fnv1a64 [] = 0xcbf29ce484222325 \<and> fnv1a64 ''a'' = 0xaf63dc4c8601ec8c \<and> fnv1a64 ''foobar'' = 0x85944171f73967e8"

definition route_shard_is_deterministic_and_in_range :: bool where
  "route_shard_is_deterministic_and_in_range \<longleftrightarrow>
     (let owned = map (\<lambda>i. ''shard-'' @ show_nat i) [0..<4];
          first = route_shard ''task-123'' owned
      in first \<noteq> None \<and> list_all (\<lambda>_. route_shard ''task-123'' owned = first) [0..<50] \<and>
         list_all (\<lambda>i. case route_shard (''task-'' @ show_nat i) owned of
                      None \<Rightarrow> False | Some target \<Rightarrow> list_ex (\<lambda>s. s = target) owned) [0..<200])"

definition route_shard_single_shard_always_routes_there :: bool where
  "route_shard_single_shard_always_routes_there \<longleftrightarrow> route_shard ''anything'' [''shard-0''] = Some ''shard-0''"

definition route_shard_panics_on_empty :: bool where
  "route_shard_panics_on_empty \<longleftrightarrow> route_shard ''x'' [] = None"

definition try_lock_shard_second_attempt_fails :: "string \<Rightarrow> bool" where
  "try_lock_shard_second_attempt_fails pid \<longleftrightarrow>
     unwrap (try_lock_shard Io_Ok pid ''shard-0'' empty_dir) (\<lambda>first d. first \<and>
     unwrap (try_lock_shard Io_Ok pid ''shard-0'' d) (\<lambda>second d. \<not> second \<and>
       (let d = drop_lock ''shard-0'' d
        in unwrap (try_lock_shard Io_Ok pid ''shard-0'' d) (\<lambda>third d. third))))"

section \<open>src/queue.rs\<close>

definition evicts_entries_older_than_ttl :: "instant \<Rightarrow> bool" where
  "evicts_entries_older_than_ttl now \<longleftrightarrow>
     (let completed = hm_insert ''fresh'' (now - nanos 10) (hm_insert ''stale'' (now - nanos 90) []);
          completed = evict_expired_completed completed now completed_ttl
      in \<not> hm_contains completed ''stale'' \<and> hm_contains completed ''fresh'' \<and> length completed = 1)"

definition keeps_entries_exactly_within_ttl :: "instant \<Rightarrow> bool" where
  "keeps_entries_exactly_within_ttl now \<longleftrightarrow>
     hm_contains (evict_expired_completed (hm_insert ''edge'' (now - (completed_ttl - nanos 1)) []) now completed_ttl)
       ''edge''"

definition empty_map_is_noop :: "instant \<Rightarrow> bool" where
  "empty_map_is_noop now \<longleftrightarrow> evict_expired_completed [] now completed_ttl = []"

section \<open>The tests of the membership pass\<close>

lemma init_file:
  "init C Io_Ok q n None = (Inr (), Some (ms_file C \<lparr>ms_queue = q, ms_shards = n, ms_version = 0, claims = []\<rparr>))"
  by (simp add: init_def with_lock_def init_unlocked_def write_unlocked_def ms_file_def)

lemma init_again: "fst (init C Io_Ok q n (Some f)) = Inl AlreadyInitialized"
  by (simp add: init_def with_lock_def init_unlocked_def)

lemma load_file: "serde_ok C \<Longrightarrow> ms_ok m \<Longrightarrow> load C Io_Ok (Some (ms_file C m)) = (Inr m, Some (ms_file C m))"
  by (simp add: load_def with_lock_def read_ms_file)

lemma mutate_file:
  "serde_ok C \<Longrightarrow> ms_ok m \<Longrightarrow> mutate C Io_Ok step (Some (ms_file C m)) =
     (case step m of Inl e \<Rightarrow> (Inl e, Some (ms_file C m))
      | Inr (out, m') \<Rightarrow> (Inr out, Some (ms_file C (next_version m'))))"
  by (simp add: mutate_def with_lock_def read_ms_file write_unlocked_def next_version_def flip: ms_file_def
      split: sum.split)

lemmas test_simps =
  init_file init_again load_file mutate_file claim_shard_def renew_def release_def revert_claim_def claim_step_def
  renew_step_def release_step_def revert_step_def put_claim_def next_version_def ms_ok_def is_lapsed_def Let_def
  test_skew_def nanos_def lease_duration_secs_def default_skew_margin_secs_def

lemma show_nat_digit: "n < 10 \<Longrightarrow> show_nat n = [digit_char n]"
  by (simp add: show_nat.simps)

lemma shard_keys: "shard_key 0 = ''shard-0''" "shard_key 1 = ''shard-1''" "shard_key 2 = ''shard-2''"
  "shard_key 3 = ''shard-3''" "shard_key 12 = ''shard-12''"
  by (simp_all add: shard_key_def show_nat.simps digit_char_def char_of_def bit_0)

lemma init_tests:
  assumes "serde_ok C"
  shows "init_creates_membership_and_is_one_shot C" "load_on_legacy_dir_is_not_initialized C"
  using assms
  by (simp_all add: init_creates_membership_and_is_one_shot_def load_on_legacy_dir_is_not_initialized_def test_simps)
    (simp add: load_def with_lock_def read_unlocked_def)

lemma claim_tests:
  assumes "serde_ok C"
  shows "claim_free_shard_writes_owner_and_expiry C t0" "claim_live_shard_held_by_other_is_rejected C t0"
    "claim_own_shard_renews_lease C t0" "claim_lapsed_shard_takes_over C t0"
    "claim_just_inside_lease_plus_skew_is_rejected C t0"
  using assms
  by (simp_all add: claim_free_shard_writes_owner_and_expiry_def claim_live_shard_held_by_other_is_rejected_def
      claim_own_shard_renews_lease_def claim_lapsed_shard_takes_over_def
      claim_just_inside_lease_plus_skew_is_rejected_def test_simps)

lemma owner_tests:
  assumes "serde_ok C"
  shows "renew_updates_expiry_for_owner_only C t0" "release_drops_claim_for_owner_only C t0"
    "revert_claim_only_removes_own_entry C t0"
  using assms
  by (simp_all add: renew_updates_expiry_for_owner_only_def release_drops_claim_for_owner_only_def
      revert_claim_only_removes_own_entry_def test_simps)

lemma four_keys: "map shard_key [0..<4] = [''shard-0'', ''shard-1'', ''shard-2'', ''shard-3'']"
proof -
  have "[0..<4] = [0, 1, 2, 3 :: nat]" by (simp add: upt_rec)
  then show ?thesis by (simp only: list.map shard_keys)
qed

lemma claimable_test: "claimable_shards_mixes_free_lapsed_and_owned t0"
proof -
  have "unat (4 :: u32) = 4" by simp
  then show ?thesis
    by (simp add: claimable_shards_mixes_free_lapsed_and_owned_def claimable_shards_def four_keys test_simps
        del: unat_numeral)
qed

text \<open>A race for one free shard: the thread that comes first wins, all others are told so.\<close>

lemma run_claims_rejected:
  assumes "serde_ok C" "ms_ok m" "hm_get (claims m) s = Some \<lparr>owner = own, lease_expiry = t0 + nanos lease_duration_secs\<rparr>"
    and "\<forall>i \<in> set is. me i \<noteq> own"
  shows "run_claims C (\<lambda>_. s) me t0 is (Some (ms_file C m)) = (map (\<lambda>_. Inl (OwnedByOther s own)) is, Some (ms_file C m))"
  using assms(4)
proof (induction "is")
  case (Cons i "is")
  have "claim_shard C Io_Ok s (me i) t0 test_skew (Some (ms_file C m)) = (Inl (OwnedByOther s own), Some (ms_file C m))"
    using assms(1-3) Cons.prems by (auto simp: test_simps)
  then show ?case using Cons by simp
qed simp

lemma claim_race:
  assumes "serde_ok C" "ms_ok m" "hm_get (claims m) s = None" "\<forall>j \<in> set is. me j \<noteq> me i"
  shows "run_claims C (\<lambda>_. s) me t0 (i # is) (Some (ms_file C m)) =
    (Inr Claimed # map (\<lambda>_. Inl (OwnedByOther s (me i))) is,
     Some (ms_file C (next_version (put_claim s (me i) (t0 + nanos lease_duration_secs) m))))"
proof -
  let ?m = "next_version (put_claim s (me i) (t0 + nanos lease_duration_secs) m)"
  have "claim_shard C Io_Ok s (me i) t0 test_skew (Some (ms_file C m)) = (Inr Claimed, Some (ms_file C ?m))"
    using assms(1-3) by (simp add: claim_shard_def mutate_file claim_step_def Let_def)
  moreover have "ms_ok ?m" using assms(2) by (simp add: ms_ok_def put_claim_def)
  ultimately show ?thesis
    using run_claims_rejected [OF assms(1), of ?m s "me i" t0 "is" me] assms(4) by (simp add: put_claim_def)
qed

lemma run_claims_distinct:
  assumes "serde_ok C" "ms_ok m" "distinct (map shard is)" "\<forall>i \<in> set is. hm_get (claims m) (shard i) = None"
  shows "\<exists>m'. run_claims C shard me t0 is (Some (ms_file C m)) = (map (\<lambda>_. Inr Claimed) is, Some (ms_file C m')) \<and>
    ms_ok m' \<and> length (claims m') = length (claims m) + length is \<and> ms_version m' = ms_version m + of_nat (length is)"
  using assms(2-)
proof (induction "is" arbitrary: m)
  case (Cons i "is")
  let ?m = "next_version (put_claim (shard i) (me i) (t0 + nanos lease_duration_secs) m)"
  have c: "claim_shard C Io_Ok (shard i) (me i) t0 test_skew (Some (ms_file C m)) = (Inr Claimed, Some (ms_file C ?m))"
    using assms(1) Cons.prems by (simp add: claim_shard_def mutate_file claim_step_def Let_def)
  have ne: "\<forall>j \<in> set is. shard j \<noteq> shard i" using Cons.prems(2) by (simp add: image_iff) metis
  have "ms_ok ?m" using Cons.prems(1) by (simp add: ms_ok_def put_claim_def)
  moreover have "\<forall>j \<in> set is. hm_get (claims ?m) (shard j) = None"
    using Cons.prems(2,3) ne by (simp add: put_claim_def)
  ultimately obtain m' where "run_claims C shard me t0 is (Some (ms_file C ?m)) =
      (map (\<lambda>_. Inr Claimed) is, Some (ms_file C m'))" "ms_ok m'"
    "length (claims m') = length (claims ?m) + length is" "ms_version m' = ms_version ?m + of_nat (length is)"
    using Cons.IH [of ?m] Cons.prems(2) by auto
  moreover have "length (claims ?m) = Suc (length (claims m))"
    using Cons.prems(3) by (simp add: put_claim_def hm_length_insert hm_contains_get)
  moreover have "ms_version ?m = ms_version m + 1" by (simp add: next_version_def put_claim_def)
  ultimately show ?case using c by (intro exI [of _ m']) simp
qed auto

lemma thread_owner_inj: "thread_owner i = thread_owner j \<longleftrightarrow> i = j"
  by (auto simp: thread_owner_def dest: show_nat_eq)

lemma race_test:
  assumes "serde_ok C" "mset order = mset [0..<4]"
  shows "concurrent_claim_same_shard_has_exactly_one_winner C t0 order"
proof -
  have d: "distinct order" "length order = 4"
    using mset_eq_imp_distinct_iff [OF assms(2)] mset_eq_length [OF assms(2)] by simp_all
  then obtain i "is" where o: "order = i # is" "length is = 3" "\<forall>j \<in> set is. thread_owner j \<noteq> thread_owner i"
    by (cases order) (auto simp: thread_owner_inj)
  let ?m = "\<lparr>ms_queue = ''q'', ms_shards = 1, ms_version = 0, claims = []\<rparr>"
  have ok: "ms_ok ?m" by (simp add: ms_ok_def)
  let ?m' = "next_version (put_claim ''shard-0'' (thread_owner i) (t0 + nanos lease_duration_secs) ?m)"
  have "ms_ok ?m'" by (simp add: ms_ok_def put_claim_def)
  moreover have "length (claims ?m') = 1" by (simp add: put_claim_def hm_insert_def)
  moreover have "filter owned_by_other (map (\<lambda>_. Inl (OwnedByOther s own)) is) = map (\<lambda>_. Inl (OwnedByOther s own)) is"
    "filter (\<lambda>r. r = Inr Claimed) (map (\<lambda>_. Inl (OwnedByOther s own)) is) = []" for s own
    by (simp_all add: owned_by_other_def filter_empty_conv)
  ultimately show ?thesis
    using claim_race [OF assms(1) ok _ o(3), of "''shard-0''" t0] o(2)
    by (simp add: concurrent_claim_same_shard_has_exactly_one_winner_def init_file o(1) load_file assms(1)
        owned_by_other_def del: run_claims.simps)
qed

lemma spread_test:
  assumes "serde_ok C" "mset order = mset [0..<4]"
  shows "concurrent_claims_on_distinct_shards_all_succeed C t0 order"
proof -
  have d: "distinct (map shard_key order)" "length order = 4"
    using mset_eq_imp_distinct_iff [OF assms(2)] mset_eq_length [OF assms(2)]
    by (simp_all add: distinct_map inj_on_def shard_key_inj)
  let ?m = "\<lparr>ms_queue = ''q'', ms_shards = 4, ms_version = 0, claims = []\<rparr>"
  have "ms_ok ?m" by (simp add: ms_ok_def)
  from run_claims_distinct [OF assms(1) this d(1), of thread_owner t0]
  show ?thesis
    using d(2) assms(1)
    by (auto simp: concurrent_claims_on_distinct_shards_all_succeed_def init_file load_file list_all_iff)
qed

lemma skew_test:
  assumes "secs_ok C 0" "secs_ok C 5" "secs_ok C 12"
  shows "skew_margin_parses_and_clamps C"
proof -
  have "parse_i64 ''12'' = Some 12" "parse_i64 ''garbage'' = None" "parse_i64 ''-3'' = Some (- 3)"
    by (simp_all add: parse_i64_def digit_of_def Let_def)
  then show ?thesis using assms by (simp add: skew_margin_parses_and_clamps_def skew_margin_from_def default_skew_margin_secs_def)
qed

lemma owner_id_test: "owner_id_contains_pid_marker h c pid"
  unfolding owner_id_contains_pid_marker_def owner_id_def sublist_def by blast

section \<open>The tests of the sharding and of the eviction pass\<close>

lemma boot_sharded:
  assumes "serde_ok C" "ms_ok m" "qd_members d = Some (ms_file C m)"
  shows "booted_dir C q n d = (Inr (ms_shards m), d)"
  using assms(3)
  by (simp add: booted_dir_def resolve_layout_def detect_layout_def boot_with_def load_file [OF assms(1,2)])

lemma boot_fresh:
  assumes "serde_ok C" "qd_members d = None" "qd_log d = None"
  shows "booted_dir C q n d = (Inr n, d\<lparr>qd_members := Some (ms_file C (fresh_members q n))\<rparr>)"
proof -
  have "ms_ok (fresh_members q n)" by (simp add: ms_ok_def fresh_members_def)
  then have "load_count C (Some (ms_file C (fresh_members q n))) = Inr n"
    by (simp add: load_count_def read_ms_file [OF assms(1)]) (simp add: fresh_members_def)
  moreover obtain r d' where i: "init_members C Io_Ok q n d = (r, d')" by fastforce
  ultimately show ?thesis
    using assms(2,3) init_members_ok(1,2) [OF assms(1,2) i] i
    by (simp add: booted_dir_def resolve_layout_def detect_layout_def boot_with_def with_lock_held_def init_fresh_def)
qed

lemma layout_tests:
  assumes "serde_ok C"
  shows "detect_layout_variants" "detect_sharded_after_init C"
    "resolve_fresh_creates_membership_with_requested_shards C" "resolve_sharded_membership_is_authoritative C"
proof -
  have e: "qd_members empty_dir = None" "qd_log empty_dir = None" by (simp_all add: empty_dir_def)
  have i: "init_dir C q n empty_dir = (Inr (), empty_dir\<lparr>qd_members := Some (ms_file C (fresh_members q n))\<rparr>)" for q n
    by (simp add: init_dir_def e init_file fresh_members_def)
  have ok: "ms_ok (fresh_members q n)" "ms_shards (fresh_members q n) = n" for q n
    by (simp_all add: ms_ok_def fresh_members_def)
  show "detect_layout_variants"
    by (simp add: detect_layout_variants_def detect_layout_def make_legacy_def e)
  show "detect_sharded_after_init C"
    by (simp add: detect_sharded_after_init_def i detect_layout_def)
  show "resolve_fresh_creates_membership_with_requested_shards C"
    by (simp add: resolve_fresh_creates_membership_with_requested_shards_def boot_fresh [OF assms e] detect_layout_def)
  show "resolve_sharded_membership_is_authoritative C"
    by (simp add: resolve_sharded_membership_is_authoritative_def i boot_sharded [OF assms ok(1)] ok(2))
qed

text \<open>An adoption without faults, for the two tests that adopt.\<close>

lemma boot_legacy:
  assumes "serde_ok C" "qd_members d = None" "qd_log d = Some b" "\<not> lock_taken (qd_lock d)"
  shows "\<exists>d'. booted_dir C q n d = (Inr 1, d') \<and> adopted d b d' \<and> qd_members d' = Some (ms_file C (fresh_members q 1))"
proof -
  obtain d1 where d1: "migrate_legacy_unlocked None d = (Inr (), d1)" "adopted d b d1" "qd_members d1 = None"
    using migrate_ok [OF assms(3,4)] assms(2) by auto
  obtain r d' where i: "init_members C Io_Ok q 1 d1 = (r, d')" by fastforce
  note m = init_members_ok [OF assms(1) d1(3) i]
  have "booted_dir C q n d = (Inr 1, d')"
    using assms(2,3) d1(1) i m(1)
    by (simp add: booted_dir_def resolve_layout_def detect_layout_def boot_with_def with_lock_held_def adopt_legacy_def)
  then show ?thesis using d1(2) m(2) by (simp add: adopted_def)
qed

lemma adopt_tests:
  assumes "serde_ok C"
  shows "auto_adopt_moves_legacy_files_into_shard0 C" "auto_adopt_without_root_lock_still_works C"
    "auto_adopt_refuses_when_legacy_daemon_holds_lock C"
proof -
  note k = shard_keys(1)
  let ?l = "make_legacy empty_dir"
  have l: "qd_members ?l = None" "qd_log ?l = Some legacy_text" "\<not> lock_taken (qd_lock ?l)" "qd_lock ?l \<noteq> None"
    by (simp_all add: make_legacy_def empty_dir_def lock_taken_def)
  have ok: "ms_ok (fresh_members q 1)" "ms_shards (fresh_members q 1) = 1" "ms_queue (fresh_members q 1) = q" for q
    by (simp_all add: ms_ok_def fresh_members_def)
  obtain d where d: "booted_dir C ''adopted'' 1 ?l = (Inr 1, d)" "adopted ?l legacy_text d"
    "qd_members d = Some (ms_file C (fresh_members ''adopted'' 1))"
    using boot_legacy [OF assms l(1-3)] by blast
  show "auto_adopt_moves_legacy_files_into_shard0 C"
    using d(2) l(4)
    by (auto simp: auto_adopt_moves_legacy_files_into_shard0_def d(1,3) load_file [OF assms ok(1)] ok(2,3)
        boot_sharded [OF assms ok(1) d(3)] detect_layout_def adopted_def k)
  let ?d0 = "empty_dir\<lparr>qd_log := Some []\<rparr>"
  have e: "qd_members ?d0 = None" "qd_log ?d0 = Some []" "\<not> lock_taken (qd_lock ?d0)" "qd_lock ?d0 = None"
    "shard_dir s ?d0 = empty_shard" for s
    by (simp_all add: empty_dir_def lock_taken_def shard_dir_def)
  obtain d' where d': "booted_dir C ''q'' 1 ?d0 = (Inr 1, d')" "adopted ?d0 [] d'"
    using boot_legacy [OF assms e(1-3)] by blast
  show "auto_adopt_without_root_lock_still_works C"
    using d'(2) e(4,5) by (simp add: auto_adopt_without_root_lock_still_works_def d'(1) adopted_def k empty_shard_def)
  show "auto_adopt_refuses_when_legacy_daemon_holds_lock C"
    by (simp add: auto_adopt_refuses_when_legacy_daemon_holds_lock_def booted_dir_def resolve_layout_def
        detect_layout_def boot_with_def with_lock_held_def adopt_legacy_def migrate_legacy_unlocked_def
        make_legacy_def empty_dir_def lock_taken_def)
qed

lemma route_tests:
  "route_shard_is_deterministic_and_in_range" "route_shard_single_shard_always_routes_there" "route_shard_panics_on_empty"
proof -
  let ?o = "map (\<lambda>i. ''shard-'' @ show_nat i) [0..<4]"
  have o: "?o \<noteq> []" "length ?o < 2 ^ 64" by simp_all
  have r: "\<exists>s \<in> set ?o. route_shard t ?o = Some s" for t
  proof -
    have "unat (fnv1a64 t) mod length ?o < length ?o" by simp
    then show ?thesis unfolding route_shard_nth [OF o] using nth_mem by blast
  qed
  have "case route_shard t ?o of None \<Rightarrow> False | Some target \<Rightarrow> list_ex (\<lambda>s. s = target) ?o" for t
    using r [of t] by (auto simp: list_ex_iff simp del: set_map set_upt)
  moreover have "route_shard t ?o \<noteq> None" for t using r [of t] by auto
  ultimately show "route_shard_is_deterministic_and_in_range"
    unfolding route_shard_is_deterministic_and_in_range_def Let_def list_all_iff by blast
  show "route_shard_single_shard_always_routes_there"
    using route_shard_nth [of "[''shard-0'']" "''anything''"] by (simp add: route_shard_single_shard_always_routes_there_def)
  show "route_shard_panics_on_empty" by (simp add: route_shard_panics_on_empty_def route_shard_def)
qed

lemma lock_test: "try_lock_shard_second_attempt_fails pid"
  by (simp add: try_lock_shard_second_attempt_fails_def try_lock_shard_def drop_lock_def empty_dir_def shard_dir_def
      empty_shard_def put_shard_def Let_def)

lemma fnv_test: "fnv1a_known_vectors"
  by (simp add: fnv1a_known_vectors_def fnv1a64_def fnv_step_def)

lemma eviction_tests:
  "evicts_entries_older_than_ttl now" "keeps_entries_exactly_within_ttl now" "empty_map_is_noop now"
  by (auto simp: evicts_entries_older_than_ttl_def keeps_entries_exactly_within_ttl_def empty_map_is_noop_def
      evict_expired_completed_def completed_ttl_def nanos_def hm_insert_def hm_contains_def Let_def image_iff)

section \<open>All tests\<close>

text \<open>The test modules, one definition each; the two tests with threads run in the order in which the threads get the lock.\<close>

definition membership_tests :: "crates \<Rightarrow> instant \<Rightarrow> nat list \<Rightarrow> string option \<Rightarrow> string option \<Rightarrow> nat \<Rightarrow> bool" where
  "membership_tests C t0 order hostname computername pid \<longleftrightarrow>
     init_creates_membership_and_is_one_shot C \<and> load_on_legacy_dir_is_not_initialized C \<and>
     claim_free_shard_writes_owner_and_expiry C t0 \<and> claim_live_shard_held_by_other_is_rejected C t0 \<and>
     claim_own_shard_renews_lease C t0 \<and> claim_lapsed_shard_takes_over C t0 \<and>
     claim_just_inside_lease_plus_skew_is_rejected C t0 \<and> renew_updates_expiry_for_owner_only C t0 \<and>
     release_drops_claim_for_owner_only C t0 \<and> revert_claim_only_removes_own_entry C t0 \<and>
     claimable_shards_mixes_free_lapsed_and_owned t0 \<and>
     concurrent_claim_same_shard_has_exactly_one_winner C t0 order \<and>
     concurrent_claims_on_distinct_shards_all_succeed C t0 order \<and>
     skew_margin_parses_and_clamps C \<and> owner_id_contains_pid_marker hostname computername pid \<and> shard_key_format"

definition sharding_tests :: "crates \<Rightarrow> string \<Rightarrow> bool" where
  "sharding_tests C pid \<longleftrightarrow>
     detect_layout_variants \<and> detect_sharded_after_init C \<and>
     resolve_fresh_creates_membership_with_requested_shards C \<and> resolve_sharded_membership_is_authoritative C \<and>
     auto_adopt_moves_legacy_files_into_shard0 C \<and> auto_adopt_without_root_lock_still_works C \<and>
     auto_adopt_refuses_when_legacy_daemon_holds_lock C \<and> fnv1a_known_vectors \<and>
     route_shard_is_deterministic_and_in_range \<and> route_shard_single_shard_always_routes_there \<and>
     route_shard_panics_on_empty \<and> try_lock_shard_second_attempt_fails pid"

definition queue_tests :: "instant \<Rightarrow> bool" where
  "queue_tests now \<longleftrightarrow>
     evicts_entries_older_than_ttl now \<and> keeps_entries_exactly_within_ttl now \<and> empty_map_is_noop now"



end
