(* ===== verification/Dashboard_Demo.thy ===== *)
theory Dashboard_Demo
  imports Dashboard
begin

text \<open>
  \<open>examples/dashboard_demo.rs\<close>: a program that registers four handlers, enqueues six tasks and shows a dashboard.

  A handler is a function from the payload and the time to the progress messages it yields and to
  what its thread answers. The program is a queue on an empty log that takes the six tasks in order;
  \<open>clk\<close> gives the readings of \<open>Utc::now()\<close> in their constructors, and \<open>future\<close> is the text of the time
  one hour later.
\<close>

section \<open>Handlers\<close>

definition em_dash :: string where
  "em_dash = [CHR 0xE2, CHR 0x80, CHR 0x94]"

definition progress_task :: "string \<Rightarrow> (string \<times> string) list \<times> handler_answer" where
  "progress_task data =
     (map (\<lambda>i. (''progress-task-1'', ''step '' @ show_nat i @ ''/5 of '' @ data)) [1..<6], Handler_Returns (Inr ()))"

definition fail_task :: "string \<Rightarrow> (string \<times> string) list \<times> handler_answer" where
  "fail_task data = ([], Handler_Returns (Inl ''boom: intentional failure''))"

definition cron_ping :: "string \<Rightarrow> string \<Rightarrow> (string \<times> string) list \<times> handler_answer" where
  "cron_ping now_text data = ([(''cron-ping-1'', ''cron ping at '' @ now_text)], Handler_Returns (Inr ()))"

text \<open>The handler sleeps for 6 seconds: with a shorter limit it is late.\<close>

definition slow_task :: "u64 option \<Rightarrow> string \<Rightarrow> (string \<times> string) list \<times> handler_answer" where
  "slow_task limit data =
     ([], case limit of Some n \<Rightarrow> if n < 6 then Handler_Late else Handler_Returns (Inr ()) | None \<Rightarrow> Handler_Returns (Inr ()))"

definition demo_handler ::
  "string \<Rightarrow> rtask \<Rightarrow> ((string \<times> string) list \<times> handler_answer) option" where
  "demo_handler now_text t =
     (if task_type t = ''progress-task'' then Some (progress_task (task_data t))
      else if task_type t = ''fail-task'' then Some (fail_task (task_data t))
      else if task_type t = ''cron-ping'' then Some (cron_ping now_text (task_data t))
      else if task_type t = ''slow-task'' then Some (slow_task (max_execution_seconds t) (task_data t))
      else None)"

definition register_demo :: "queue \<Rightarrow> queue" where
  "register_demo q =
     register_task_handler ''slow-task'' (register_task_handler ''cron-ping''
       (register_task_handler ''fail-task'' (register_task_handler ''progress-task'' q)))"

section \<open>The six tasks\<close>

text \<open>The doubles \<open>0.0001\<close> and \<open>0.0005\<close>.\<close>

definition f64_1e_4 :: f64 where
  "f64_1e_4 = Finite 0x1A36E2EB1C432D (- 66)"

definition f64_5e_4 :: f64 where
  "f64_5e_4 = Finite 0x10624DD2F1A9FC (- 63)"

definition job_progress :: "crates \<Rightarrow> (nat \<Rightarrow> instant) \<Rightarrow> rtask" where
  "job_progress C clk = task_new C (clk 0) (clk 1) ''progress-task-1'' ''progress-task'' ''{\"job\":\"demo\"}''
     2 f64_zero None None None None None None None None None None"

definition job_fail :: "crates \<Rightarrow> (nat \<Rightarrow> instant) \<Rightarrow> rtask" where
  "job_fail C clk = task_new C (clk 2) (clk 3) ''fail-task-1'' ''fail-task'' ''{}''
     1 f64_1e_4 None None None None None None None None None None"

definition job_future :: "crates \<Rightarrow> (nat \<Rightarrow> instant) \<Rightarrow> string \<Rightarrow> rtask" where
  "job_future C clk future = task_new C (clk 4) (clk 5) ''future-task-1'' ''progress-task'' ''{}''
     1 f64_zero None None None None (Some future) None None None None None"

definition job_cron :: "crates \<Rightarrow> (nat \<Rightarrow> instant) \<Rightarrow> rtask" where
  "job_cron C clk = task_new C (clk 6) (clk 7) ''cron-ping-1'' ''cron-ping'' ''{}''
     2 f64_zero None None None None None (Some ''*/10 * * * * *'') None None None None"

definition job_webhook :: "crates \<Rightarrow> (nat \<Rightarrow> instant) \<Rightarrow> rtask" where
  "job_webhook C clk = task_new C (clk 8) (clk 9) ''webhook-task-1'' ''webhook-task'' ''{\"via\":\"webhook\"}''
     2 f64_zero None None None None None None (Some ''http://localhost:9010/webhook-ok'') None None None"

definition job_timeout :: "crates \<Rightarrow> (nat \<Rightarrow> instant) \<Rightarrow> rtask" where
  "job_timeout C clk = task_new C (clk 10) (clk 11) ''timeout-task-1'' ''slow-task'' ''{}''
     1 f64_5e_4 None None None None None None None (Some 2) None None"

definition demo_jobs :: "crates \<Rightarrow> (nat \<Rightarrow> instant) \<Rightarrow> string \<Rightarrow> rtask list" where
  "demo_jobs C clk future =
     [job_progress C clk, job_fail C clk, job_future C clk future, job_cron C clk, job_webhook C clk, job_timeout C clk]"

text \<open>\<^const>\<open>None\<close>: an \<open>unwrap\<close> of an \<open>enqueue\<close> panics.\<close>

fun enqueue_jobs :: "crates \<Rightarrow> io \<Rightarrow> rtask list \<Rightarrow> queue \<Rightarrow> queue option" where
  "enqueue_jobs C w [] q = Some q"
| "enqueue_jobs C w (t # ts) q =
     (case enqueue C w t q of (Inl e, q') \<Rightarrow> None | (Inr u, q') \<Rightarrow> enqueue_jobs C w ts q')"

text \<open>\<open>main\<close> up to its loop, on the store and the rate limits that it opens.\<close>

definition demo_main ::
  "crates \<Rightarrow> io \<Rightarrow> (nat \<Rightarrow> instant) \<Rightarrow> string \<Rightarrow> bool \<Rightarrow> file_store \<Rightarrow> string option \<Rightarrow> queue option" where
  "demo_main C w clk future lock_free store limiter =
     (case new_with_pools lock_free store limiter [] of
        None \<Rightarrow> None
      | Some q \<Rightarrow> enqueue_jobs C w (demo_jobs C clk future) (register_demo q))"

text \<open>The loop at the end of \<open>main\<close>: one event every three seconds.\<close>

definition heartbeat_event :: "u64 \<Rightarrow> string \<Rightarrow> string \<times> string" where
  "heartbeat_event tick now_text =
     (''heartbeat'', ''tick #'' @ show_nat (unat tick) @ '' '' @ em_dash @ '' queue healthy at '' @ now_text)"

section \<open>The store after the six enqueues\<close>

definition plain_task :: "rtask \<Rightarrow> bool" where
  "plain_task t \<longleftrightarrow> payload_hash t = None \<and> trigger_after_ids t = None \<and> deleted_at t = None \<and>
     last_job_error t = None"

lemma enqueue_plain: "plain_task t \<Longrightarrow> enqueue C Io_Ok t q = (Inr (), snd (save_in C Io_Ok t q))"
proof -
  assume t: "plain_task t"
  have "fst (save_in C Io_Ok t q) = Inr (should_compact (q_store (snd (save_in C Io_Ok t q))))"
    by (simp add: save_in_def save_task_def save_task_ok Let_def)
  moreover have same: "t\<lparr>deleted_at := None\<rparr> = t" using t by (cases t) (simp add: plain_task_def)
  ultimately show ?thesis
    using t by (cases "save_in C Io_Ok t q") (simp add: enqueue_def plain_task_def same)
qed

lemma enqueue_jobs_ok:
  assumes "\<forall>t \<in> set js. plain_task t" "distinct (map task_id js)" "hm_ok (tasks_cache (q_store q))"
    and "file_bytes (q_store q) = log_text C ts"
  shows "\<exists>q'. enqueue_jobs C Io_Ok js q = Some q' \<and> file_bytes (q_store q') = log_text C (ts @ js) \<and>
    (js \<noteq> [] \<longrightarrow> log_file (q_store q') \<noteq> None) \<and> hm_ok (tasks_cache (q_store q')) \<and>
    task_handlers q' = task_handlers q \<and> max_retry_handlers q' = max_retry_handlers q \<and>
    (\<forall>i. get_latest_task i (q_store q') =
       (case find (\<lambda>t. task_id t = i) js of Some t \<Rightarrow> Some t | None \<Rightarrow> get_latest_task i (q_store q)))"
  using assms
proof (induction js arbitrary: q ts)
  case (Cons t js)
  let ?q = "snd (save_in C Io_Ok t q)"
  have b: "file_bytes (q_store ?q) = log_text C (ts @ [t])" "log_file (q_store ?q) \<noteq> None"
    using Cons.prems(4)
    by (simp_all add: save_in_def save_task_def save_task_ok Let_def file_bytes_def log_text_snoc split_beta)
  have g: "get_latest_task i (q_store ?q) = (if i = task_id t then Some t else get_latest_task i (q_store q))" for i
    using save_in_lookup [OF Cons.prems(3), of i C t] Cons.prems(1) by (simp add: plain_task_def)
  have h: "task_handlers ?q = task_handlers q" "max_retry_handlers ?q = max_retry_handlers q"
    by (simp_all add: save_in_def split_beta)
  obtain q' where q': "enqueue_jobs C Io_Ok js ?q = Some q'"
    "file_bytes (q_store q') = log_text C ((ts @ [t]) @ js)" "js \<noteq> [] \<longrightarrow> log_file (q_store q') \<noteq> None"
    "hm_ok (tasks_cache (q_store q'))" "task_handlers q' = task_handlers ?q" "max_retry_handlers q' = max_retry_handlers ?q"
    "\<And>i. get_latest_task i (q_store q') =
       (case find (\<lambda>t. task_id t = i) js of Some t \<Rightarrow> Some t | None \<Rightarrow> get_latest_task i (q_store ?q))"
    using Cons.IH [OF _ _ save_in_ok [OF Cons.prems(3)] b(1)] Cons.prems(1,2) by auto
  have n: "find (\<lambda>u. task_id u = task_id t) js = None" using Cons.prems(2) unfolding find_None_iff by (metis distinct.simps(2) image_eqI list.set_map list.simps(9))
  have "get_latest_task i (q_store q') =
      (case find (\<lambda>t. task_id t = i) (t # js) of Some t \<Rightarrow> Some t | None \<Rightarrow> get_latest_task i (q_store q))" for i
    using n by (cases "i = task_id t"; cases "find (\<lambda>t. task_id t = i) js") (simp_all add: q'(7) g)
  moreover have "log_file (q_store q') \<noteq> None"
    using q'(1,3) b(2) by (cases "js = []") auto
  moreover have "enqueue_jobs C Io_Ok (t # js) q = Some q'"
    using Cons.prems(1) q'(1) by (simp add: enqueue_plain)
  ultimately show ?case using q'(2,4-6) h by simp
qed auto

lemma find_in: "find P xs = Some t \<Longrightarrow> t \<in> set xs"
  by (induction xs) (auto split: if_splits)

lemma find_id: "distinct (map task_id js) \<Longrightarrow> t \<in> set js \<Longrightarrow> find (\<lambda>u. task_id u = task_id t) js = Some t"
  by (induction js) (auto simp: image_iff)

lemma jobs_simps:
  "task_id (job_progress C clk) = ''progress-task-1''" "task_id (job_fail C clk) = ''fail-task-1''"
  "task_id (job_future C clk future) = ''future-task-1''" "task_id (job_cron C clk) = ''cron-ping-1''"
  "task_id (job_webhook C clk) = ''webhook-task-1''" "task_id (job_timeout C clk) = ''timeout-task-1''"
  by (simp_all add: job_progress_def job_fail_def job_future_def job_cron_def job_webhook_def job_timeout_def
      task_new_def Let_def)

lemma jobs_plain: "t \<in> set (demo_jobs C clk future) \<Longrightarrow> plain_task t"
  by (auto simp: demo_jobs_def job_progress_def job_fail_def job_future_def job_cron_def job_webhook_def job_timeout_def
      task_new_def Let_def plain_task_def)

lemma failing_jobs:
  assumes "t \<in> {job_fail C clk, job_timeout C clk}"
  shows "task_type t = ''fail-task'' \<or> task_type t = ''slow-task''" "max_retries t = 1" "retry_count t = 0"
    "webhook_url t = None" "task_type t = ''slow-task'' \<longrightarrow> max_execution_seconds t = Some 2"
  using assms by (auto simp: job_fail_def job_timeout_def task_new_def Let_def)

lemma jobs_distinct: "distinct (map task_id (demo_jobs C clk future))"
  by (simp add: demo_jobs_def jobs_simps)

lemma demo_main_ok:
  obtains q where "demo_main C Io_Ok clk future True (empty_store None) limiter = Some q"
    "log_file (q_store q) = Some (log_text C (demo_jobs C clk future))"
    "task_handlers q = {''slow-task'', ''cron-ping'', ''fail-task'', ''progress-task''}" "max_retry_handlers q = {}"
    "\<And>t. t \<in> set (demo_jobs C clk future) \<Longrightarrow> get_latest_task (task_id t) (q_store q) = Some t"
    "\<And>i. children_of i q = []"
proof -
  let ?js = "demo_jobs C clk future"
  obtain q0 where n: "new_with_pools True (empty_store None) limiter [] = Some q0"
    and q0: "q_store q0 = empty_store None" "task_handlers q0 = {}" "max_retry_handlers q0 = {}"
    by (auto simp: new_with_pools_def add_pool_def Let_def)
  let ?q = "register_demo q0"
  have r: "q_store ?q = empty_store None"
    "task_handlers ?q = {''slow-task'', ''cron-ping'', ''fail-task'', ''progress-task''}" "max_retry_handlers ?q = {}"
    using q0 by (simp_all add: register_demo_def register_task_handler_def)
  have e: "hm_ok (tasks_cache (q_store ?q))" "file_bytes (q_store ?q) = log_text C []"
    "get_latest_task i (q_store ?q) = None" for i
    by (simp_all add: r empty_store_def file_bytes_def log_text_def get_latest_task_def)
  have pl: "\<forall>t \<in> set ?js. plain_task t" using jobs_plain by blast
  obtain q where q: "enqueue_jobs C Io_Ok ?js ?q = Some q" "file_bytes (q_store q) = log_text C ([] @ ?js)"
    "?js \<noteq> [] \<longrightarrow> log_file (q_store q) \<noteq> None" "hm_ok (tasks_cache (q_store q))"
    "task_handlers q = task_handlers ?q" "max_retry_handlers q = max_retry_handlers ?q"
    "\<forall>i. get_latest_task i (q_store q) =
       (case find (\<lambda>t. task_id t = i) ?js of Some t \<Rightarrow> Some t | None \<Rightarrow> get_latest_task i (q_store ?q))"
    using enqueue_jobs_ok [OF pl jobs_distinct e(1,2)] by (elim exE conjE) (rule that)
  have f: "find (\<lambda>u. task_id u = task_id t) ?js = Some t" if "t \<in> set ?js" for t
    by (rule find_id [OF jobs_distinct that])
  have "t \<in> set ?js" if r: "t \<in> set (read_tasks (q_store q))" for t
  proof -
    obtain i where "hm_get (tasks_cache (q_store q)) i = Some t"
      using r unfolding read_tasks_def hm_values_get [OF q(4)] by (rule exE)
    then have "get_latest_task i (q_store q) = Some t" unfolding get_latest_task_def .
    then have "find (\<lambda>t. task_id t = i) ?js = Some t"
      unfolding q(7) [rule_format] e(3) by (cases "find (\<lambda>t. task_id t = i) ?js") simp_all
    then show ?thesis by (rule find_in)
  qed
  then have "trigger_after_ids t = None" if "t \<in> set (read_tasks (q_store q))" for t
    using jobs_plain that unfolding plain_task_def by blast
  then have "children_of i q = []" for i by (simp add: children_of_def filter_empty_conv)
  moreover have "log_file (q_store q) = Some (log_text C ?js)"
    using q(2,3) by (auto simp: file_bytes_def demo_jobs_def)
  ultimately show ?thesis
    using that [of q] n q(1) q(5,6) [unfolded r(2,3)] f by (simp add: demo_main_def q(7))
qed

section \<open>What the dashboard shows\<close>

definition shown :: "crates \<Rightarrow> instant \<Rightarrow> queue \<Rightarrow> string \<Rightarrow> string option" where
  "shown C now q i =
     map_option (dashboard_status C now) (hm_get (read_deduped_tasks_multiple C [log_file (q_store q)]) i)"

lemma shown_log:
  "serde_ok C \<Longrightarrow> log_file (q_store q) = Some (log_text C ts) \<Longrightarrow>
   shown C now q i = map_option (task_status now) (last_version ts i)"
  using read_deduped_log(2) [of C ts i] dashboard_status_task [of C now]
  by (simp add: shown_def option.map_comp comp_def)

lemma last_version_unique:
  assumes "distinct (map task_id ts)" "t \<in> set ts"
  shows "last_version ts (task_id t) = Some t"
  unfolding last_version_def using find_id [of "rev ts" t] assms by (simp add: rev_map [symmetric])

text \<open>A task of the demo that fails with its only attempt.\<close>

lemma only_attempt_fails:
  assumes "serde_ok C" "log_file (q_store q) = Some (log_text C ts)" "get_latest_task (task_id t) (q_store q) = Some t"
    and "children_of (task_id t) q = []" "max_retry_handlers q = {}" "task_type t \<in> task_handlers q"
    and "max_retries t = 1" "retry_count t = 0" "deleted_at t = None" "last_job_error t = None" "webhook_url t = None"
  shows "fst (execute_task C (\<lambda>n. Io_Ok) clk mt (Inl e) p t q) = [] \<and>
    shown C now (snd (execute_task C (\<lambda>n. Io_Ok) clk mt (Inl e) p t q)) (task_id t) = Some ''completed''"
proof -
  let ?x = "exec_failure C (\<lambda>n. Io_Ok) clk mt e t q"
  have n: "\<not> sint (retry_count t) < sint (max_retries t - 1)" using assms(7,8) by simp
  have x: "execute_task C (\<lambda>n. Io_Ok) clk mt (Inl e) p t q = (fst ?x, end_execution p t (snd ?x))"
    using assms(6,11) by (simp add: execute_task_def split_beta)
  have l: "log_file (q_store (end_execution p t (snd ?x))) = Some (log_text C (ts @ [mark_deleted (clk 0) (clk 1) t]))"
    using buried_log [OF assms(2,3,9,4) n, of clk mt e] by (simp add: end_execution_def release_permit_def)
  have "last_version (ts @ [mark_deleted (clk 0) (clk 1) t]) (task_id t) = Some (mark_deleted (clk 0) (clk 1) t)"
    by (simp add: last_version_def mark_deleted_def)
  then have "shown C now (end_execution p t (snd ?x)) (task_id t) = Some ''completed''"
    using assms(10) by (simp add: shown_log [OF assms(1) l] task_status_def mark_deleted_def)
  moreover have "fst ?x = []"
    using n assms(4,5,11) by (simp add: exec_failure_def Let_def dlq_calls_def)
  ultimately show ?thesis by (simp add: x)
qed

text \<open>
  Property C39: The demo's \<open>main\<close> runs through on an empty log, and its dashboard then shows the tasks as \<open>active\<close> from their execution
  time on and as \<open>queued\<close> before, in particular the future task for the first hour. The two tasks that
  the demo lets fail do not become what it announces: after its one attempt the failing task (\<open>dead letter\<close> in the
  comment) and the task that exceeds its two seconds are both shown as \<open>completed\<close>, and no
  dead-letter call is made for them.
\<close>

theorem demo_board:
  assumes "serde_ok C" "parse_from_rfc3339 C future = Some f"
  shows "\<exists>q. demo_main C Io_Ok clk future True (empty_store None) limiter = Some q \<and>
    (\<forall>t \<in> set (demo_jobs C clk future).
       shown C now q (task_id t) = Some (if execute_at t \<le> now then ''active'' else ''queued'')) \<and>
    shown C now q ''future-task-1'' = Some (if f \<le> now then ''active'' else ''queued'') \<and>
    (\<forall>t \<in> {job_fail C clk, job_timeout C clk}. \<exists>msgs a e.
       demo_handler txt t = Some (msgs, a) \<and> handler_outcome t a = Some (Inl e) \<and>
       fst (execute_task C (\<lambda>n. Io_Ok) clk' mt (Inl e) p t q) = [] \<and>
       shown C now (snd (execute_task C (\<lambda>n. Io_Ok) clk' mt (Inl e) p t q)) (task_id t) = Some ''completed'')"
proof -
  let ?js = "demo_jobs C clk future"
  obtain q where q: "demo_main C Io_Ok clk future True (empty_store None) limiter = Some q"
    and l: "log_file (q_store q) = Some (log_text C ?js)"
    and h: "task_handlers q = {''slow-task'', ''cron-ping'', ''fail-task'', ''progress-task''}" "max_retry_handlers q = {}"
    and g: "\<And>t. t \<in> set ?js \<Longrightarrow> get_latest_task (task_id t) (q_store q) = Some t" "\<And>i. children_of i q = []"
    by (rule demo_main_ok [where C = C and clk = clk and future = future and limiter = limiter]) (rule that)
  have status: "shown C now q (task_id t) = Some (if execute_at t \<le> now then ''active'' else ''queued'')"
    if "t \<in> set ?js" for t
    using jobs_plain [OF that]
    by (simp add: shown_log [OF assms(1) l] last_version_unique [OF jobs_distinct that] task_status_def plain_task_def)
  have "execute_at (job_future C clk future) = f"
    using assms(2) by (simp add: job_future_def task_new_def)
  then have future: "shown C now q ''future-task-1'' = Some (if f \<le> now then ''active'' else ''queued'')"
    using status [of "job_future C clk future"] by (simp add: demo_jobs_def jobs_simps)
  have buried: "fst (execute_task C (\<lambda>n. Io_Ok) clk' mt (Inl e) p t q) = [] \<and>
      shown C now (snd (execute_task C (\<lambda>n. Io_Ok) clk' mt (Inl e) p t q)) (task_id t) = Some ''completed''"
    if "t \<in> {job_fail C clk, job_timeout C clk}" for t e
  proof (rule only_attempt_fails [OF assms(1) l g(1) g(2) h(2)])
    show "t \<in> set ?js" using that by (auto simp: demo_jobs_def)
    then show "deleted_at t = None" "last_job_error t = None"
      using jobs_plain by (simp_all add: plain_task_def)
    show "task_type t \<in> task_handlers q" using failing_jobs(1) [OF that] by (auto simp: h(1))
    show "max_retries t = 1" "retry_count t = 0" "webhook_url t = None" using failing_jobs(2-4) [OF that] .
  qed
  have fails: "\<exists>msgs a e. demo_handler txt t = Some (msgs, a) \<and> handler_outcome t a = Some (Inl e)"
    if "t \<in> {job_fail C clk, job_timeout C clk}" for t
    using failing_jobs(1) [OF that] failing_jobs(5) [OF that]
    by (elim disjE) (simp_all add: demo_handler_def fail_task_def slow_task_def handler_outcome_def)
  have last: "\<exists>msgs a e. demo_handler txt t = Some (msgs, a) \<and> handler_outcome t a = Some (Inl e) \<and>
       fst (execute_task C (\<lambda>n. Io_Ok) clk' mt (Inl e) p t q) = [] \<and>
       shown C now (snd (execute_task C (\<lambda>n. Io_Ok) clk' mt (Inl e) p t q)) (task_id t) = Some ''completed''"
    if t: "t \<in> {job_fail C clk, job_timeout C clk}" for t
  proof -
    obtain msgs a e where "demo_handler txt t = Some (msgs, a)" "handler_outcome t a = Some (Inl e)"
      using fails [OF t] by (elim exE conjE) (rule that)
    then show ?thesis using buried [OF t, of e] by (intro exI [of _ msgs] exI [of _ a] exI [of _ e]) simp
  qed
  show ?thesis
    by (intro exI [of _ q] conjI ballI q status future last) assumption+
qed

lemma demo_board_witness:
  "\<exists>q. demo_main demo_crates Io_Ok (\<lambda>n. 0) (rfc3339 demo_crates (nanos 3600)) True (empty_store None) None = Some q \<and>
     shown demo_crates 0 q ''future-task-1'' = Some ''queued''"
proof -
  have p: "parse_from_rfc3339 demo_crates (rfc3339 demo_crates (nanos 3600)) = Some (nanos 3600)"
    using serde_ok_demo by (simp add: serde_okD)
  obtain q where q:
    "demo_main demo_crates Io_Ok (\<lambda>n. 0) (rfc3339 demo_crates (nanos 3600)) True (empty_store None) None = Some q"
    "shown demo_crates 0 q ''future-task-1'' = Some (if nanos 3600 \<le> 0 then ''active'' else ''queued'')"
    using demo_board [OF serde_ok_demo p, of "\<lambda>n. 0" None 0 "[]" "\<lambda>n. 0" 0 "[]"] by (elim exE conjE) (rule that)
  then show ?thesis by (simp add: nanos_def)
qed

end
