(* ===== verification/Spec2Isabelle.thy ===== *)
theory Spec2Isabelle
  imports Task File_Store Rate_Limiter Queue Queue_Types Reruns Membership Sharding Dashboard Sharded_Queue
    Shared_Limits Cluster Sharded_Dashboard Unit_Tests Dashboard_Demo
begin

text \<open>
  A development for snerd-rust, a background job queue that is embedded in a Rust program. A task is
  enqueued into a queue, written to an append-only log, picked up by a periodic processor when it
  is due, put into the priority queue of its worker pool, executed by a handler or a webhook, and
  then completed, retried or buried. Several processes can share one queue directory: it is split
  into shards, and daemons lease shards from each other through \<open>membership.json\<close>.

  \<^bold>\<open>Parts and theories.\<close> The theories follow the modules of \<open>src/\<close>.
  \<^item> \<open>Task\<close> (\<open>task.rs\<close>): the record \<open>rtask\<close>, its derived JSON form and its line in the log, \<open>task_new\<close>,
    \<open>update_retry_config\<close>, \<open>mark_deleted\<close>, the cron shorthands, the order \<open>priority_le\<close>.
  \<^item> \<open>File_Store\<close> (\<open>file_store.rs\<close>): the log as a string of bytes with the cache and the counters;
    loading, \<open>save_task\<close>, \<open>delete_task\<close>, the cycle search, \<open>compact_log\<close>.
  \<^item> \<open>Rate_Limiter\<close> (\<open>rate_limiter.rs\<close>): \<open>check_and_increment\<close> on the bytes of \<open>rate_limits.json\<close>.
  \<^item> \<open>Queue\<close> (\<open>queue.rs\<close>): \<open>enqueue\<close>, \<open>process_due_tasks\<close>, one turn of a dispatcher (\<open>dispatch\<close>), the parts
    of \<open>execute_task\<close>, and the relation \<open>sys_step\<close> that interleaves them. \<open>Queue_Types\<close> holds the types that the
    fields of a queue keep, \<open>Reruns\<close> what becomes of rate-limited and of recurring tasks.
  \<^item> \<open>Membership\<close> (\<open>membership.rs\<close>): \<open>membership.json\<close>, its operations as steps on the parsed membership
    inside \<open>mutate\<close>, and the relation \<open>lease_step\<close> of daemons with clocks of their own.
  \<^item> \<open>Sharding\<close> (\<open>sharding.rs\<close>): the directory at boot (\<open>resolve_layout\<close>), the adoption of a legacy
    directory, \<open>route_shard\<close>, the lock of a shard.
  \<^item> \<open>Sharded_Queue\<close> (\<open>sharded_queue.rs\<close>): the daemon over directory and membership: \<open>heartbeat\<close>,
    \<open>claim_one\<close>, \<open>instantiate_shard\<close>, \<open>reconcile_shards\<close>, \<open>daemon_enqueue\<close>, engines on shared heaps.
    \<open>Shared_Limits\<close>: the rate limits of a daemon's engines, one file for all of them.
  \<^item> \<open>Cluster\<close>: several daemons on one directory. A node is a daemon with the heartbeat that it is in the middle of and
    the engines that it has told to stop; \<open>cluster_step\<close> interleaves boots, single claims, engine steps, users' calls,
    shutdowns and crashes. \<open>heartbeat_is_run\<close> and \<open>shutdown_is_run\<close> relate it to the whole operations of \<open>Sharded_Queue\<close>.
  \<^item> \<open>Dashboard\<close> (\<open>dashboard.rs\<close>): the view of the logs, the ring of progress events, the answer to
    a request. \<open>Sharded_Dashboard\<close>: the two \<open>start_dashboard\<close> functions and the forwarding of an engine's messages.
  \<^item> \<open>Unit_Tests\<close>: the unit tests inside \<open>membership.rs\<close>, \<open>sharding.rs\<close> and \<open>queue.rs\<close>, each a predicate of its name;
    \<open>Dashboard_Demo\<close> (\<open>examples/dashboard_demo.rs\<close>): the demo's handlers, its six tasks and \<open>main\<close>.
  \<^item> Below them: \<open>Prelude\<close> (types, hash maps, faults of the operating system), \<open>Rust_Text\<close> (text and UTF-8
    of the standard library), \<open>F64\<close> (doubles), \<open>Binary_Heap\<close> (the standard library's heap), \<open>Json\<close>
    (serde's rules, and the third-party crates as the parameter \<open>crates\<close>) and \<open>Demo_Crates\<close> (a concrete
    choice of the crates for the witnesses).

  \<^bold>\<open>How the parts interact.\<close> A queue owns a store and the rate limiter's file; \<open>enqueue\<close> and the end of an
  execution write through \<open>save_task\<close> and \<open>delete_task\<close>, and the processor reads the cache. A
  daemon owns a queue per shard, found through \<open>Sharding\<close> and leased through \<open>Membership\<close>, whose pools and heaps
  are shared. The dashboard reads the logs that the stores write.

  \<^bold>\<open>Interfaces.\<close> \<open>live_map\<close> is what a log promises (the last version of an id decides; used for the
  replay of a log and for the store), \<open>multiset_queue\<close> and \<open>priority_queue\<close> are what the
  pools expect of their heap, \<open>shard_mutation\<close> is what every operation on \<open>membership.json\<close> keeps,
  \<open>exclusive_lock\<close> is what the engines expect of the lock on their log, and \<open>bounded_buffer\<close> is the progress ring. Each is interpreted on the model of the code.

  \<^bold>\<open>What the lemmas show.\<close>
  \<^item> Store: a save is durable, a restart finds the same tasks, compaction loses nothing on a clock that runs,
    faults at each call, damaged logs, and exactness and termination of the cycle search.
  \<^item> Queue: no id runs twice at once or beyond a pool's capacity in any interleaving, the processor
    hands over exactly the due tasks by urgency, a failing task has \<open>max_retries\<close> attempts, the last
    failure removes its children, rate-limited and recurring tasks come back, and every reachable queue keeps
    its types.
  \<^item> Rate limiter and membership: grants per window and per minute; claims, renewals and faults through the file; two
    daemons whose clocks differ by no more than the margin never hold one lease.
  \<^item> Here: a task that \<open>enqueue\<close> has accepted reaches a pool after a crash and restart.
  \<^item> Boot and shards: the outcomes of a boot, faults during the adoption, the first heartbeat, routing.
  \<^item> Cluster: at most one engine per shard in every reachable state, whatever the leases say, and an engine that
    takes a shard over knows exactly the tasks of the one before it.
  \<^item> Dashboard: exact counts in a complete HTTP answer, the status of each task, the last events.
  \<^item> Where the code does not do what it means to, the property states what it does: the dedupe hash, the burst at a
    window's end, torn and invalid lines, the compaction of equal clocks, completed ids, shards that
    are leased but not served, engines that complete each other's tasks, adoption below a running queue, limits that are
    not partitioned, a shutdown that misses a claim, a progress stream that a lag cuts off.

  \<^bold>\<open>Conventions.\<close> A \<open>Result\<close> is a sum with the error on the left, a panic is \<^const>\<open>None\<close> (or the end of the heartbeat,
  \<open>dm_heart\<close>), and a fault of the operating system is an argument of type \<open>io\<close>. Readings of the clock are
  arguments. \<open>i32\<close>, \<open>u32\<close> and \<open>u64\<close> are words; times are nanoseconds in \<^typ>\<open>int\<close>. A hash map is an
  association list whose order stands for the iteration order. An operation under one lock is one step.

  \<^bold>\<open>Bounds and fuel.\<close> Nothing of the code is modelled with fuel: loops are structural or have a
  termination proof. The fuel of \<open>failing_runs\<close> bounds the number of executions that the property about
  attempts looks at, and holds for every value; the decoder of \<open>Demo_Crates\<close> takes the length of its input. The routing properties assume fewer than
  \<^term>\<open>(2 :: nat) ^ 64\<close> shards.

  \<^bold>\<open>Not modelled.\<close> Handlers, webhooks and timeouts are outcomes from outside (a timed-out blocking handler
  runs on, which the model does not follow). The third-party crates are parameters with their
  documented behaviour (\<open>serde_ok\<close>). Threads, sockets and the broadcast channels (what a receiver gets is an argument)
  are outside, as are log output, NFS, and the reuse of process ids. The integration tests under \<open>tests/\<close> and the bundled
  page only call the library, against real clocks and threads.
\<close>

section \<open>From an enqueue to a worker, across a restart\<close>

lemma default_pool_added: "hm_contains (shared_pqs (add_pool p n q)) i \<longleftrightarrow> i = p \<or> hm_contains (shared_pqs q) i"
  by (simp add: add_pool_def)

lemma new_queue_shape:
  assumes "new_with_pools b s limits pools = Some q"
  shows "q_store q = s" "executing_tasks q = {}" "queued_tasks q = {}" "hm_contains (shared_pqs q) ''default''"
proof -
  let ?add = "\<lambda>q (p, n). add_pool p n q"
  have f: "q_store (foldl ?add q0 ps) = q_store q0 \<and> executing_tasks (foldl ?add q0 ps) = executing_tasks q0 \<and>
      queued_tasks (foldl ?add q0 ps) = queued_tasks q0 \<and>
      (\<forall>i. hm_contains (shared_pqs (foldl ?add q0 ps)) i \<longleftrightarrow> hm_contains ps i \<or> hm_contains (shared_pqs q0) i)" for q0 ps
  proof (induction ps arbitrary: q0)
    case (Cons x ps)
    obtain p n where x: "x = (p, n)" by fastforce
    have c: "hm_contains (x # ps) i \<longleftrightarrow> i = p \<or> hm_contains ps i" for i by (simp add: x hm_contains_def)
    have "q_store (add_pool p n q0) = q_store q0" "executing_tasks (add_pool p n q0) = executing_tasks q0"
      "queued_tasks (add_pool p n q0) = queued_tasks q0"
      by (simp_all add: add_pool_def)
    then show ?case using Cons.IH [of "add_pool p n q0"] by (auto simp: x c [unfolded x] default_pool_added)
  qed (simp add: hm_contains_def)
  note d = default_pool_added add_pool_def
  show "q_store q = s" "executing_tasks q = {}" "queued_tasks q = {}"
    using assms f by (auto simp: new_with_pools_def Let_def add_pool_def [of "''default''"] split: if_splits)
  show "hm_contains (shared_pqs q) ''default''"
    using assms f by (auto simp: new_with_pools_def Let_def default_pool_added split: if_splits)
qed

text \<open>
  Property C1: A task that \<open>enqueue\<close> has accepted is not lost to a crash: after a restart on the log that is
  on disk at that moment, the first run of the new queue's processor at which the task is due and its
  dependencies are completed puts it, as it was saved, into the heap of a pool that has dispatchers. If its payload was not pending and its
  dependencies form no cycle, \<open>enqueue\<close> does accept it.
\<close>

theorem accepted_task_reaches_pool:
  fixes now :: instant
  assumes "serde_ok C" "store_inv C (q_store q)" "f64_finite (retry_after_hours t)"
    and "\<forall>h. payload_hash t = Some h \<longrightarrow> h \<notin> active_hashes q"
    and "\<forall>deps. trigger_after_ids t = Some deps \<longrightarrow> \<not> detect_cycle (task_id t) deps (q_store q) \<and>
      (\<forall>d \<in> set deps. d \<noteq> task_id t \<and> get_latest_task d (q_store q) = None)"
    and "enqueue C Io_Ok t q = (r, q1)"
    and "store_new C Io_Ok clk (log_file (q_store q1)) = (r2, s)" "new_with_pools True s limits pools = Some q2"
    and "execute_at t \<le> now" "retry_after_time t \<le> now"
  shows "r = Inr () \<and> r2 = Inr () \<and>
    (\<exists>t' p. stored_as C (t\<lparr>deleted_at := None\<rparr>) t' \<and> target_pool q2 t' = Some p \<and>
       t' \<in> set (heap_of (fst (process_due_tasks (read_tasks s) now q2)) p))"
proof -
  let ?t = "t\<lparr>deleted_at := None\<rparr>"
  define h where "h = (case payload_hash t of Some h \<Rightarrow> q\<lparr>active_hashes := insert h (active_hashes q)\<rparr> | None \<Rightarrow> q)"
  have h: "q_store h = q_store q" by (simp add: h_def split: option.split)
  have "\<not> (case payload_hash t of Some h \<Rightarrow> h \<in> active_hashes q | None \<Rightarrow> False)"
    using assms(4) by (simp split: option.split)
  moreover have "\<not> (case trigger_after_ids t of Some deps \<Rightarrow> detect_cycle (task_id t) deps (q_store h) | None \<Rightarrow> False)"
    using assms(5) h by (simp split: option.split)
  ultimately have "enqueue C Io_Ok t q = (case save_in C Io_Ok ?t h of
      (Inl e, q') \<Rightarrow> (Inl (Save_Failed e), q') | (Inr _, q') \<Rightarrow> (Inr (), q'))"
    unfolding enqueue_def h_def [symmetric] Let_def by simp
  moreover obtain ok where "fst (save_in C Io_Ok ?t h) = Inr ok"
    by (simp add: save_in_def save_task_def save_task_ok Let_def)
  ultimately have r: "r = Inr ()" and q1: "q1 = snd (save_in C Io_Ok ?t h)"
    using assms(6) by (auto split: prod.splits)
  have st: "q_store q1 = snd (save_task_inner C Io_Ok ?t True (q_store q))"
    by (simp add: q1 save_in_def save_task_def h split_beta)
  have inv1: "store_inv C (q_store q1)" unfolding st by (rule store_inv_save [OF assms(1,2)]) (use assms(3) in simp)
  have ok: "hm_ok (tasks_cache (q_store h))" using store_inv_bytes [OF assms(2)] h by (simp add: cache_inv_def)
  have g1: "get_latest_task i (q_store q1) = (if i = task_id t then Some ?t else get_latest_task i (q_store q))" for i
    using save_in_lookup [OF ok, of i C ?t] by (simp add: q1 h)
  note ld = load_written_log [OF assms(1) inv1 assms(7)]
  have rel: "rel_option (stored_as C) (get_latest_task i (q_store q1)) (get_latest_task i s)" for i
    using ld(3) by (simp add: recovers_def)
  obtain t' where t': "get_latest_task (task_id t) s = Some t'" "stored_as C ?t t'"
    using rel [of "task_id t"] by (auto simp: g1 option_rel_Some1)
  have live: "live_store s" by (rule live_store_inv [OF ld(2)])
  have same: "task_id t' = task_id t" "execute_at t' = execute_at t" "retry_after_time t' = retry_after_time t"
    "trigger_after_ids t' = trigger_after_ids t"
    using t'(2) by (auto simp: stored_as_def as_read_def)
  note shape = new_queue_shape [OF assms(8)]
  obtain p where p: "target_pool q2 t' = Some p" using target_pool_default [OF shape(4)] by blast
  have mem: "t' \<in> set (read_tasks s)" using t'(1) same(1) read_tasks_live [OF live] by simp
  have "get_latest_task d s = None" if "trigger_after_ids t = Some deps" "d \<in> set deps" for deps d
    using rel [of d] assms(5) that by (auto simp: g1)
  then have "handed now q2 p t'"
    using handed_live [of q2 t' now p] live mem assms(9,10) p same shape by simp
  then have "t' \<in> set (heap_of (fst (process_due_tasks (read_tasks s) now q2)) p)"
    using handed_reaches_heap [of q2 t' now p] live mem shape(1) by simp
  then show ?thesis using r ld(1) t'(2) p by blast
qed

lemma accepted_task_reaches_pool_witness:
  "\<exists>s q2 t' p. store_new demo_crates Io_Ok (\<lambda>n. (0, 0))
       (log_file (q_store (snd (enqueue demo_crates Io_Ok demo_task demo_queue)))) = (Inr (), s) \<and>
     stored_as demo_crates demo_task t' \<and>
     t' \<in> set (heap_of (fst (process_due_tasks (read_tasks s) 0 q2)) p)"
proof -
  have t: "deleted_at demo_task = None" "execute_at demo_task \<le> 0" "retry_after_time demo_task \<le> 0"
    "trigger_after_ids demo_task = None"
    by (simp_all add: demo_task_def task_new_def)
  have same: "demo_task\<lparr>deleted_at := None\<rparr> = demo_task" using t(1) by (cases demo_task) simp
  have a: "active_hashes demo_queue = {}"
    by (simp add: demo_queue_def new_with_pools_def add_pool_def hm_contains_def Let_def store_hashes_def
        read_tasks_def empty_store_def hm_values_def List.map_filter_simps)
  have i: "store_inv demo_crates (q_store demo_queue)" by (simp add: demo_queue_simps store_inv_empty)
  obtain r q1 where e: "enqueue demo_crates Io_Ok demo_task demo_queue = (r, q1)" by fastforce
  obtain r2 s where n: "store_new demo_crates Io_Ok (\<lambda>n. (0, 0)) (log_file (q_store q1)) = (r2, s)" by fastforce
  obtain q2 where q2: "new_with_pools True s None [] = Some q2" by (simp add: new_with_pools_def Let_def)
  show ?thesis
    using accepted_task_reaches_pool [OF serde_ok_demo i demo_task_finite _ _ e n q2 t(2,3)] a t(4) e n
    unfolding same by auto
qed

end
